(* ===== verification/Prelude.thy ===== *)
theory Prelude
  imports Main "HOL-Library.Word" "HOL-Library.Monad_Syntax"
begin

text \<open>
  Shared vocabulary of the development: machine integers, Rust's \<open>Result\<close>, panics, checked and
  saturating arithmetic, bounds-checked array access, and the generic lemmas the components use.

  A Rust function that can panic is a function into \<^typ>\<open>'a option\<close>: \<^const>\<open>None\<close> is "does not return"
  (an overflow check, an out-of-range index, an \<open>unwrap\<close> of an error, or divergence where the function
  is a \<^theory_text>\<open>partial_function\<close>), \<open>Some v\<close> is a normal return of \<open>v\<close>. The release profile of the
  workspace (\<open>Cargo.toml\<close>) turns overflow checks on, so every unchecked \<open>+\<close>, \<open>-\<close>, \<open>*\<close> and \<open><<\<close> of the
  source is a checked operation here. Array positions and counts that never leave the length of
  an array are \<^typ>\<open>nat\<close>; addresses, sizes and register values are words of the source's width.
\<close>

unbundle bit_operations_syntax

section \<open>Types\<close>

type_synonym usize = "64 word"
type_synonym u64 = "64 word"
type_synonym u32 = "32 word"
type_synonym u16 = "16 word"
type_synonym u8 = "8 word"

datatype ('a, 'e) result = Ok 'a | Err 'e

named_theorems exec_defs \<open>equations that evaluate the model on concrete inputs\<close>
named_theorems chk_simps \<open>characterisations of the checked operations\<close>

section \<open>Checked arithmetic\<close>

definition add_chk :: "'a::len word \<Rightarrow> 'a word \<Rightarrow> 'a word option" where
  "add_chk a b = (if unat a + unat b < 2 ^ LENGTH('a) then Some (a + b) else None)"

definition sub_chk :: "'a::len word \<Rightarrow> 'a word \<Rightarrow> 'a word option" where
  "sub_chk a b = (if b \<le> a then Some (a - b) else None)"

definition mul_chk :: "'a::len word \<Rightarrow> 'a word \<Rightarrow> 'a word option" where
  "mul_chk a b = (if unat a * unat b < 2 ^ LENGTH('a) then Some (a * b) else None)"

definition shl_chk :: "'a::len word \<Rightarrow> nat \<Rightarrow> 'a word option" where
  "shl_chk a n = (if n < LENGTH('a) then Some (push_bit n a) else None)"

definition saturating_add :: "'a::len word \<Rightarrow> 'a word \<Rightarrow> 'a word" where
  "saturating_add a b = (if unat a + unat b < 2 ^ LENGTH('a) then a + b else - 1)"

definition saturating_sub :: "'a::len word \<Rightarrow> 'a word \<Rightarrow> 'a word" where
  "saturating_sub a b = (if b \<le> a then a - b else 0)"

text \<open>Array access with Rust's bounds check.\<close>

definition nth_chk :: "'a list \<Rightarrow> nat \<Rightarrow> 'a option" where
  "nth_chk xs i = (if i < length xs then Some (xs ! i) else None)"

definition upd_chk :: "'a list \<Rightarrow> nat \<Rightarrow> 'a \<Rightarrow> 'a list option" where
  "upd_chk xs i v = (if i < length xs then Some (xs[i := v]) else None)"

text \<open>\<open>Iterator::try_for_each\<close>: stops at the first error; the state is the captured variables.\<close>

fun try_for_each :: "('s \<Rightarrow> 'a \<Rightarrow> ((unit, 'e) result \<times> 's) option) \<Rightarrow> 's \<Rightarrow> 'a list \<Rightarrow> ((unit, 'e) result \<times> 's) option" where
  "try_for_each f s [] = Some (Ok (), s)"
| "try_for_each f s (x # xs) =
     do { (r, s') \<leftarrow> f s x;
          (case r of Err e \<Rightarrow> Some (Err e, s') | Ok _ \<Rightarrow> try_for_each f s' xs) }"

section \<open>Lemmas on the checked operations\<close>

lemma add_chk_Some [chk_simps]:
  "add_chk a b = Some c \<longleftrightarrow> unat a + unat b < 2 ^ LENGTH('a) \<and> unat c = unat a + unat b"
  for a :: "'a::len word"
  by (auto simp: add_chk_def unat_add_lem word_unat_eq_iff)

lemma sub_chk_Some [chk_simps]:
  "sub_chk a b = Some c \<longleftrightarrow> unat b \<le> unat a \<and> unat c = unat a - unat b"
  by (auto simp: sub_chk_def word_le_nat_alt unat_sub word_unat_eq_iff)

lemma mul_chk_Some [chk_simps]:
  "mul_chk a b = Some c \<longleftrightarrow> unat a * unat b < 2 ^ LENGTH('a) \<and> unat c = unat a * unat b"
  for a :: "'a::len word"
  by (auto simp: mul_chk_def unat_mult_lem word_unat_eq_iff)

lemma add_chk_None: "add_chk a b = None \<longleftrightarrow> 2 ^ LENGTH('a) \<le> unat a + unat b"
  for a :: "'a::len word"
  by (auto simp: add_chk_def)

lemma nth_chk_in [simp]: "i < length xs \<Longrightarrow> nth_chk xs i = Some (xs ! i)"
  by (simp add: nth_chk_def)

lemma nth_chk_out [simp]: "length xs \<le> i \<Longrightarrow> nth_chk xs i = None"
  by (simp add: nth_chk_def)

lemma upd_chk_in [simp]: "i < length xs \<Longrightarrow> upd_chk xs i v = Some (xs[i := v])"
  by (simp add: upd_chk_def)

lemma upd_chk_out [simp]: "length xs \<le> i \<Longrightarrow> upd_chk xs i v = None"
  by (simp add: upd_chk_def)

lemmas [exec_defs] = add_chk_def sub_chk_def mul_chk_def shl_chk_def saturating_add_def saturating_sub_def

text \<open>
  Evaluation by \<open>simp\<close> must not look into the continuation of a bind or a case before its scrutinee
  is a value: the unfolding equations of the loops would be applied to symbolic arguments.
\<close>

lemma bind_weak_cong: "x = y \<Longrightarrow> Option.bind x f = Option.bind y f"
  by simp

lemmas eval_cong = bind_weak_cong option.case_cong_weak result.case_cong_weak prod.case_cong_weak

section \<open>Words and powers of two\<close>

lemma unat_less_2p [simp]: "unat x < 2 ^ LENGTH('a)" for x :: "'a::len word"
  by (rule unsigned_less)

lemma unat_pow2 [simp]: "k < LENGTH('a) \<Longrightarrow> unat (2 ^ k :: 'a::len word) = 2 ^ k"
  using unat_of_nat [of "2 ^ k", where 'a = 'a] by simp

lemma and_not_mask_word: "x AND NOT (mask k) = push_bit k (drop_bit k x)"
  for x :: "'a::len word"
  by (rule bit_eqI) (auto simp: bit_simps)

lemma unat_and_not_mask: "unat (x AND NOT (mask k)) = unat x div 2 ^ k * 2 ^ k"
  for x :: "'a::len word"
proof -
  have "unat (x AND NOT (mask k)) = take_bit LENGTH('a) (push_bit k (unat (drop_bit k x)))"
    by (simp only: and_not_mask_word unsigned_push_bit_eq)
  also have "\<dots> = take_bit LENGTH('a) (unat x div 2 ^ k * 2 ^ k)"
    by (simp only: unat_drop_bit_eq push_bit_nat_def drop_bit_nat_def)
  also have "\<dots> = unat x div 2 ^ k * 2 ^ k"
    by (rule take_bit_nat_eq_self) (meson div_times_less_eq_dividend le_less_trans unsigned_less)
  finally show ?thesis .
qed

text \<open>Flipping one bit adds or subtracts its weight.\<close>

lemma xor_pow2_nat: "n XOR 2 ^ k = (if bit n k then n - 2 ^ k else n + 2 ^ k)" for n :: nat
proof (cases "bit n k")
  case True
  then have "set_bit k (unset_bit k n) = n"
    by (intro bit_eqI) (auto simp: bit_simps)
  then have "unset_bit k n + 2 ^ k = n"
    by (simp add: set_bit_eq bit_simps)
  moreover have "n XOR 2 ^ k = unset_bit k n"
    using flip_bit_eq_xor [of k n] True by (simp add: flip_bit_eq_if)
  ultimately show ?thesis using True by simp
next
  case False
  then show ?thesis using flip_bit_eq_xor [of k n] by (simp add: flip_bit_eq_if set_bit_eq)
qed

lemma unat_xor_pow2:
  "k < LENGTH('a) \<Longrightarrow> unat (x XOR 2 ^ k) = (if bit x k then unat x - 2 ^ k else unat x + 2 ^ k)"
  for x :: "'a::len word"
  by (simp add: unsigned_xor_eq xor_pow2_nat bit_unsigned_iff)

lemma unat_of_nat_less: "n < 2 ^ 64 \<Longrightarrow> unat (of_nat n :: usize) = n"
  by (simp add: unat_of_nat)

section \<open>Intervals\<close>

lemma interval_split_diff:
  "\<lbrakk>a < b; b \<le> c; c < d\<rbrakk> \<Longrightarrow> {a..<b} \<union> {b<..d} - {b..c} = {a..d} - {b..c}"
  for a :: "'a::linorder"
  by auto

end
