(* ===== verification/RangeSet.thy ===== *)
theory RangeSet
  imports Prelude
begin

text \<open>
  \<open>crates/kernel/src/allocator/rangeset.rs\<close>: a fixed-size set of inclusive ranges. The record keeps
  the whole backing array, including the stale entries behind \<open>idx\<close>, because both loops of the
  source run to the \<open>idx\<close> read when the loop starts and so can look at them.
  The denotation \<open>rs_set\<close> is the set of addresses the live entries cover; the theorems relate every
  operation to it.
\<close>

section \<open>Data\<close>

definition RANGE_COUNT :: nat where
  "RANGE_COUNT = 8"

datatype rs_error = InvalidRange | OutOfBounds

record range =
  range_start :: usize
  range_end :: usize

definition range_new :: "usize \<Rightarrow> usize \<Rightarrow> range" where
  "range_new s e = \<lparr>range_start = s, range_end = e\<rparr>"

record rangeset =
  ranges :: "range list"
  idx :: nat

definition rs_new :: rangeset where
  "rs_new = \<lparr>ranges = replicate RANGE_COUNT \<lparr>range_start = 0, range_end = 0\<rparr>, idx = 0\<rparr>"

section \<open>Operations\<close>

definition overlaps :: "range \<Rightarrow> range \<Rightarrow> bool" where
  "overlaps a b \<longleftrightarrow> range_start a \<le> range_end b \<and> range_start b \<le> range_end a"

definition contains :: "range \<Rightarrow> range \<Rightarrow> bool" where
  "contains a b \<longleftrightarrow> range_start b \<le> range_start a \<and> range_end a \<le> range_end b"

definition rs_get :: "rangeset \<Rightarrow> nat \<Rightarrow> range option option" where
  "rs_get s i = (if idx s \<le> i then Some None else map_option Some (nth_chk (ranges s) i))"

text \<open>
  \<open>self.ranges[idx..].rotate_left(1)\<close> panics on an empty slice (and the slice itself panics past the
  end), hence the bounds check.
\<close>

definition rs_remove :: "rangeset \<Rightarrow> nat \<Rightarrow> ((unit, rs_error) result \<times> rangeset) option" where
  "rs_remove s i =
     (if idx s \<le> i then Some (Err OutOfBounds, s)
      else if i < length (ranges s)
        then Some (Ok (), s\<lparr>ranges := take i (ranges s) @ rotate1 (drop i (ranges s)), idx := idx s - 1\<rparr>)
      else None)"

text \<open>\<open>self.remove(idx).unwrap()\<close>\<close>

definition rs_remove_unwrap :: "rangeset \<Rightarrow> nat \<Rightarrow> rangeset option" where
  "rs_remove_unwrap s i =
     do { (r, s') \<leftarrow> rs_remove s i;
          (case r of Ok _ \<Rightarrow> Some s' | Err _ \<Rightarrow> None) }"

text \<open>
  The body of \<open>remove_inner\<close> from loop position \<open>i\<close> with the loop bound \<open>n\<close> that was read when the
  loop started; the recursive calls start a new loop over the current \<open>idx\<close>.
\<close>

partial_function (option) remove_inner_from :: "range \<Rightarrow> rangeset \<Rightarrow> nat \<Rightarrow> nat \<Rightarrow> rangeset option" where
  "remove_inner_from r s i n =
     (if n \<le> i then Some s
      else do {
        other \<leftarrow> nth_chk (ranges s) i;
        if \<not> overlaps r other then remove_inner_from r s (Suc i) n
        else if contains other r then do {
          s' \<leftarrow> rs_remove_unwrap s i;
          remove_inner_from r s' 0 (idx s') }
        else if range_start r \<le> range_start other then
          remove_inner_from r
            (s\<lparr>ranges := (ranges s)[i := other\<lparr>range_start := saturating_add (range_end r) 1\<rparr>]\<rparr>) (Suc i) n
        else if range_end other \<le> range_end r then
          remove_inner_from r
            (s\<lparr>ranges := (ranges s)[i := other\<lparr>range_end := saturating_sub (range_start r) 1\<rparr>]\<rparr>) (Suc i) n
        else do {
          let new_range = range_new (saturating_add (range_start r) 1) (range_end other);
          rs1 \<leftarrow> upd_chk (ranges s) (idx s) new_range;
          let s1 = s\<lparr>ranges := rs1[i := (rs1 ! i)\<lparr>range_end := saturating_sub (range_start r) 1\<rparr>], idx := Suc (idx s)\<rparr>;
          s2 \<leftarrow> remove_inner_from r s1 0 (idx s1);
          remove_inner_from r s2 (Suc i) n } })"

declare remove_inner_from.simps [code]

definition remove_inner :: "rangeset \<Rightarrow> range \<Rightarrow> rangeset option" where
  "remove_inner s r = remove_inner_from r s 0 (idx s)"

definition remove_range :: "rangeset \<Rightarrow> range \<Rightarrow> ((unit, rs_error) result \<times> rangeset) option" where
  "remove_range s r =
     (if range_end r < range_start r then Some (Err InvalidRange, s)
      else do { s' \<leftarrow> remove_inner s r; Some (Ok (), s') })"

text \<open>\<open>merge_blocks\<close>, with the range it widens passed along and returned.\<close>

partial_function (option) merge_blocks_from :: "range \<Rightarrow> rangeset \<Rightarrow> nat \<Rightarrow> nat \<Rightarrow> (range \<times> rangeset) option" where
  "merge_blocks_from r s i n =
     (if n \<le> i then Some (r, s)
      else do {
        other \<leftarrow> nth_chk (ranges s) i;
        let a = range_new (range_start r) (saturating_add (range_end r) 1);
        let b = range_new (range_start other) (saturating_add (range_end other) 1);
        if \<not> overlaps a b then merge_blocks_from r s (Suc i) n
        else do {
          let r' = \<lparr>range_start = min (range_start r) (range_start other),
                    range_end = max (range_end r) (range_end other)\<rparr>;
          s' \<leftarrow> rs_remove_unwrap s i;
          (r'', s'') \<leftarrow> merge_blocks_from r' s' 0 (idx s');
          merge_blocks_from r'' s'' (Suc i) n } })"

declare merge_blocks_from.simps [code]

definition merge_blocks :: "rangeset \<Rightarrow> range \<Rightarrow> (range \<times> rangeset) option" where
  "merge_blocks s r = merge_blocks_from r s 0 (idx s)"

definition rs_insert :: "rangeset \<Rightarrow> range \<Rightarrow> ((unit, rs_error) result \<times> rangeset) option" where
  "rs_insert s r =
     (if range_end r < range_start r then Some (Err InvalidRange, s)
      else do {
        (r', s') \<leftarrow> merge_blocks s r;
        rs \<leftarrow> upd_chk (ranges s') (idx s') r';
        Some (Ok (), s'\<lparr>ranges := rs, idx := Suc (idx s')\<rparr>) })"

definition rs_clear :: "rangeset \<Rightarrow> rangeset" where
  "rs_clear s = s\<lparr>idx := 0\<rparr>"

definition as_slice :: "rangeset \<Rightarrow> range list" where
  "as_slice s = take (idx s) (ranges s)"

definition rs_len :: "rangeset \<Rightarrow> nat" where
  "rs_len s = idx s"

definition rs_is_empty :: "rangeset \<Rightarrow> bool" where
  "rs_is_empty s \<longleftrightarrow> rs_len s = 0"

section \<open>Denotation and invariant\<close>

definition ival :: "range \<Rightarrow> usize set" where
  "ival r = {range_start r .. range_end r}"

definition rs_set :: "rangeset \<Rightarrow> usize set" where
  "rs_set s = (\<Union>r \<in> set (as_slice s). ival r)"

definition valid_range :: "range \<Rightarrow> bool" where
  "valid_range r \<longleftrightarrow> range_start r \<le> range_end r"

definition rs_wf :: "rangeset \<Rightarrow> bool" where
  "rs_wf s \<longleftrightarrow> length (ranges s) = RANGE_COUNT \<and> idx s \<le> RANGE_COUNT \<and>
     (\<forall>i < idx s. valid_range (ranges s ! i)) \<and>
     (\<forall>i < idx s. \<forall>j < idx s. i \<noteq> j \<longrightarrow> \<not> overlaps (ranges s ! i) (ranges s ! j))"

section \<open>Ranges as intervals of words\<close>

lemma saturating_add_less_iff: "x < y \<Longrightarrow> saturating_add x 1 \<le> z \<longleftrightarrow> x < z"
  for x :: usize
proof -
  assume "x < y"
  then have "unat x + 1 < 2 ^ 64"
    using unat_less_2p [of y] by (simp add: word_less_nat_alt)
  then show ?thesis
    by (auto simp: saturating_add_def word_le_nat_alt word_less_nat_alt unat_add_lem [THEN iffD1])
qed

lemma le_saturating_add_iff: "z \<le> saturating_add x 1 \<longleftrightarrow> unat z \<le> unat x + 1"
  for x :: usize
proof (cases "unat x + 1 < 2 ^ 64")
  case True
  then show ?thesis
    by (simp add: saturating_add_def word_le_nat_alt unat_add_lem [THEN iffD1])
next
  case False
  then show ?thesis
    using unat_less_2p [of z] by (simp add: saturating_add_def)
qed

lemma le_saturating_sub_iff: "y < x \<Longrightarrow> z \<le> saturating_sub x 1 \<longleftrightarrow> z < x"
  for x :: usize
proof -
  assume "y < x"
  then have "1 \<le> unat x" by (simp add: word_less_nat_alt)
  then show ?thesis
    by (auto simp: saturating_sub_def word_le_nat_alt word_less_nat_alt unat_sub)
qed

definition touches :: "range \<Rightarrow> range \<Rightarrow> bool" where
  "touches a b \<longleftrightarrow> overlaps (range_new (range_start a) (saturating_add (range_end a) 1))
                         (range_new (range_start b) (saturating_add (range_end b) 1))"

definition hull :: "range \<Rightarrow> range \<Rightarrow> range" where
  "hull a b = \<lparr>range_start = min (range_start a) (range_start b),
               range_end = max (range_end a) (range_end b)\<rparr>"

lemma touches_iff:
  "touches a b \<longleftrightarrow> unat (range_start a) \<le> unat (range_end b) + 1 \<and>
                  unat (range_start b) \<le> unat (range_end a) + 1"
  by (simp add: touches_def overlaps_def range_new_def le_saturating_add_iff)

lemma touches_hull:
  "\<lbrakk>touches a c; valid_range a; valid_range b; valid_range c\<rbrakk> \<Longrightarrow> touches (hull a b) c"
  by (auto simp: touches_iff hull_def valid_range_def word_le_nat_alt min_def max_def)

lemma touches_sub: "contains a b \<Longrightarrow> valid_range a \<Longrightarrow> touches b a"
  by (auto simp: touches_iff contains_def valid_range_def word_le_nat_alt)

lemma contains_refl [simp]: "contains a a"
  by (simp add: contains_def)

lemma contains_trans: "contains a b \<Longrightarrow> contains b c \<Longrightarrow> contains a c"
  by (auto simp: contains_def)

lemma contains_hull [simp]: "contains a (hull a b)" "contains b (hull a b)"
  by (auto simp: contains_def hull_def)

lemma valid_hull [simp]: "valid_range a \<Longrightarrow> valid_range b \<Longrightarrow> valid_range (hull a b)"
  by (auto simp: valid_range_def hull_def min_def max_def)

lemma ival_hull:
  assumes "touches a b" "valid_range a" "valid_range b"
  shows "ival (hull a b) = ival a \<union> ival b"
  using assms
  by (auto simp: ival_def hull_def touches_iff valid_range_def word_le_nat_alt min_def max_def)

lemma overlaps_iff_ival:
  "valid_range a \<Longrightarrow> valid_range b \<Longrightarrow> overlaps a b \<longleftrightarrow> ival a \<inter> ival b \<noteq> {}"
  by (fastforce simp: overlaps_def ival_def valid_range_def disjoint_iff
      intro: order_trans elim: order.trans)

section \<open>Trimming and splitting one range\<close>

definition trim_left :: "range \<Rightarrow> range \<Rightarrow> range" where
  "trim_left r other = other\<lparr>range_start := saturating_add (range_end r) 1\<rparr>"

definition trim_right :: "range \<Rightarrow> range \<Rightarrow> range" where
  "trim_right r other = other\<lparr>range_end := saturating_sub (range_start r) 1\<rparr>"

definition strictly_inside :: "range \<Rightarrow> range \<Rightarrow> bool" where
  "strictly_inside r other \<longleftrightarrow> range_start other < range_start r \<and> range_end r < range_end other"

lemmas range_defs = overlaps_def contains_def valid_range_def ival_def strictly_inside_def
  trim_left_def trim_right_def range_new_def

lemma trim_left_props:
  assumes "overlaps r b" "\<not> contains b r" "range_start r \<le> range_start b" "valid_range r" "valid_range b"
  shows "valid_range (trim_left r b)" "contains (trim_left r b) b" "\<not> overlaps r (trim_left r b)"
    "ival (trim_left r b) - ival r = ival b - ival r" "\<not> strictly_inside r (trim_left r b)"
    "\<not> contains (trim_left r b) r"
proof -
  have less: "range_end r < range_end b"
    using assms by (auto simp: range_defs)
  have gt: "range_end r < saturating_add (range_end r) 1"
    using saturating_add_less_iff [OF less] by blast
  show "valid_range (trim_left r b)" "contains (trim_left r b) b" "\<not> overlaps r (trim_left r b)"
    "ival (trim_left r b) - ival r = ival b - ival r" "\<not> strictly_inside r (trim_left r b)"
    "\<not> contains (trim_left r b) r"
    using assms less gt by (auto simp: range_defs saturating_add_less_iff [OF less] not_le)
qed

lemma trim_right_props:
  assumes "overlaps r b" "\<not> range_start r \<le> range_start b" "valid_range r" "valid_range b"
  shows "valid_range (trim_right r b)" "contains (trim_right r b) b" "\<not> overlaps r (trim_right r b)"
    "\<not> strictly_inside r (trim_right r b)" "\<not> contains (trim_right r b) r"
    "ival (trim_right r b) = {range_start b ..< range_start r}"
proof -
  have less: "range_start b < range_start r"
    using assms by auto
  have le: "z \<le> saturating_sub (range_start r) 1 \<longleftrightarrow> z < range_start r" for z
    by (rule le_saturating_sub_iff [OF less])
  have "saturating_sub (range_start r) 1 < range_start r"
    using le by blast
  then show "valid_range (trim_right r b)" "contains (trim_right r b) b" "\<not> overlaps r (trim_right r b)"
    "\<not> strictly_inside r (trim_right r b)" "\<not> contains (trim_right r b) r"
    "ival (trim_right r b) = {range_start b ..< range_start r}"
    using assms less by (auto simp: range_defs le)
qed

lemma overlaps_mono: "contains a a' \<Longrightarrow> contains b b' \<Longrightarrow> overlaps a b \<Longrightarrow> overlaps a' b'"
  by (auto simp: range_defs)

lemma touches_mono: "contains a a' \<Longrightarrow> contains b b' \<Longrightarrow> touches a b \<Longrightarrow> touches a' b'"
  by (auto simp: touches_iff contains_def word_le_nat_alt)

text \<open>No two live entries overlap or are adjacent.\<close>

definition apart :: "rangeset \<Rightarrow> bool" where
  "apart s \<longleftrightarrow> (\<forall>i<idx s. \<forall>j<idx s. i \<noteq> j \<longrightarrow> \<not> touches (ranges s ! i) (ranges s ! j))"

lemma apart_image:
  assumes "apart s" "\<And>p. p < idx s' \<Longrightarrow> f p < idx s" "inj_on f {..<idx s'}"
    "\<And>p. p < idx s' \<Longrightarrow> contains (ranges s' ! p) (ranges s ! f p)"
  shows "apart s'"
  unfolding apart_def
proof (intro allI impI)
  fix p q assume pq: "p < idx s'" "q < idx s'" "p \<noteq> q"
  then have "f p \<noteq> f q" using assms(3) by (auto simp: inj_on_def)
  then show "\<not> touches (ranges s' ! p) (ranges s' ! q)"
    using assms(1,2) pq touches_mono [OF assms(4) assms(4)] unfolding apart_def by blast
qed

lemma touches_sym: "touches a b \<longleftrightarrow> touches b a"
  by (auto simp: touches_iff)

lemma overlaps_sym: "overlaps a b \<longleftrightarrow> overlaps b a"
  by (auto simp: range_defs)

section \<open>The live part of the array\<close>

lemma rs_set_alt: "idx s \<le> length (ranges s) \<Longrightarrow> rs_set s = (\<Union>p<idx s. ival (ranges s ! p))"
  by (fastforce simp: rs_set_def as_slice_def in_set_conv_nth)

lemma rs_wfD:
  assumes "rs_wf s"
  shows "length (ranges s) = 8" "idx s \<le> 8" "idx s \<le> length (ranges s)"
    "i < idx s \<Longrightarrow> valid_range (ranges s ! i)" "i < idx s \<Longrightarrow> i < length (ranges s)"
    "i < idx s \<Longrightarrow> j < idx s \<Longrightarrow> i \<noteq> j \<Longrightarrow> \<not> overlaps (ranges s ! i) (ranges s ! j)"
  using assms by (auto simp: rs_wf_def RANGE_COUNT_def)

lemma nth_rotate_out:
  assumes "i < length xs" "p < length xs"
  shows "(take i xs @ rotate1 (drop i xs)) ! p =
    (if p < i then xs ! p else if Suc p < length xs then xs ! Suc p else xs ! i)"
proof -
  have "drop i xs = xs ! i # drop (Suc i) xs"
    using assms(1) by (rule Cons_nth_drop_Suc [symmetric])
  then have "rotate1 (drop i xs) = drop (Suc i) xs @ [xs ! i]" by simp
  with assms show ?thesis by (auto simp: nth_append min_def)
qed

lemma rs_remove_unwrap_ok:
  assumes "i < idx s" "idx s \<le> length (ranges s)"
  obtains s' where "rs_remove_unwrap s i = Some s'" "idx s' = idx s - 1"
    "length (ranges s') = length (ranges s)"
    "\<And>p. p < length (ranges s) \<Longrightarrow> ranges s' ! p =
      (if p < i then ranges s ! p else if Suc p < length (ranges s) then ranges s ! Suc p else ranges s ! i)"
  using assms by (auto simp: rs_remove_unwrap_def rs_remove_def nth_rotate_out)

lemma rs_remove_unwrap_out: "idx s \<le> i \<Longrightarrow> rs_remove_unwrap s i = None"
  by (simp add: rs_remove_unwrap_def rs_remove_def)

text \<open>Removing entry \<open>i\<close> keeps the other live entries.\<close>

lemma rs_remove_unwrap_live:
  assumes "rs_wf s" "i < idx s"
  obtains s' where "rs_remove_unwrap s i = Some s'" "idx s' = idx s - 1" "rs_wf s'"
    "(\<lambda>p. ranges s' ! p) ` {..<idx s'} = (\<lambda>p. ranges s ! p) ` ({..<idx s} - {i})" "apart s \<Longrightarrow> apart s'"
proof -
  note wf = rs_wfD [OF assms(1)]
  obtain s' where s': "rs_remove_unwrap s i = Some s'" "idx s' = idx s - 1"
    "length (ranges s') = length (ranges s)"
    and nth: "\<And>p. p < length (ranges s) \<Longrightarrow> ranges s' ! p =
      (if p < i then ranges s ! p else if Suc p < length (ranges s) then ranges s ! Suc p else ranges s ! i)"
    using rs_remove_unwrap_ok [OF assms(2) wf(3)] by blast
  let ?f = "\<lambda>p. if p < i then p else Suc p"
  have eq: "ranges s' ! p = ranges s ! ?f p" if "p < idx s'" for p
    using that wf(1,2) s'(2) by (subst nth) auto
  have img: "?f ` {..<idx s'} = {..<idx s} - {i}"
  proof (intro equalityI subsetI)
    fix q assume "q \<in> {..<idx s} - {i}"
    then show "q \<in> ?f ` {..<idx s'}"
      using s'(2) assms(2) by (intro image_eqI [where x = "if q < i then q else q - 1"]) auto
  qed (use s'(2) assms(2) in \<open>auto split: if_splits\<close>)
  have "rs_wf s'"
    unfolding rs_wf_def RANGE_COUNT_def
  proof (intro conjI allI impI)
    show "length (ranges s') = 8" "idx s' \<le> 8" using s' wf(1,2) by auto
    fix p assume p: "p < idx s'"
    then show "valid_range (ranges s' ! p)" using eq [OF p] wf(4) [of "?f p"] s'(2) by auto
    fix q assume q: "q < idx s'" "p \<noteq> q"
    show "\<not> overlaps (ranges s' ! p) (ranges s' ! q)"
      unfolding eq [OF p] eq [OF q(1)] using p q s'(2) by (intro wf(6)) auto
  qed
  moreover have "(\<lambda>p. ranges s' ! p) ` {..<idx s'} = (\<lambda>p. ranges s ! p) ` ({..<idx s} - {i})"
    unfolding img [symmetric] image_image by (rule image_cong) (use eq in auto)
  moreover have "apart s'" if "apart s"
  proof (rule apart_image [OF that, where f = ?f])
    show "contains (ranges s' ! p) (ranges s ! ?f p)" if "p < idx s'" for p by (simp add: eq [OF that])
  qed (use s'(2) assms(2) in \<open>auto simp: inj_on_def split: if_splits\<close>)
  ultimately show thesis using that s'(1,2) by blast
qed

lemma apart_shrink:
  assumes "apart s" "contains b (ranges s ! i)" "i < length (ranges s)"
  shows "apart (s\<lparr>ranges := (ranges s)[i := b]\<rparr>)"
  by (rule apart_image [OF assms(1), where f = id]) (use assms(2,3) in \<open>auto simp: nth_list_update\<close>)

lemma rs_wf_shrink:
  assumes "rs_wf s" "i < idx s" "valid_range b" "contains b (ranges s ! i)"
  shows "rs_wf (s\<lparr>ranges := (ranges s)[i := b]\<rparr>)"
proof -
  note wf = rs_wfD [OF assms(1)]
  have sub: "contains ((ranges s)[i := b] ! p) (ranges s ! p)" if "p < idx s" for p
    using assms(4) wf(5) [OF that] by (cases "p = i") simp_all
  have "valid_range ((ranges s)[i := b] ! p)" if "p < idx s" for p
    using assms(3) wf(4,5) [OF that] by (cases "p = i") simp_all
  moreover have "\<not> overlaps ((ranges s)[i := b] ! p) ((ranges s)[i := b] ! q)"
    if "p < idx s" "q < idx s" "p \<noteq> q" for p q
    using overlaps_mono [OF sub [OF that(1)] sub [OF that(2)]] wf(6) [OF that] by blast
  ultimately show ?thesis
    using wf(1,2) by (simp add: rs_wf_def RANGE_COUNT_def)
qed

lemma rs_set_shrink:
  assumes "rs_wf s" "i < idx s" "ival b - A = ival (ranges s ! i) - A"
  shows "rs_set (s\<lparr>ranges := (ranges s)[i := b]\<rparr>) - A = rs_set s - A"
proof -
  note wf = rs_wfD [OF assms(1)]
  have "x \<in> rs_set (s\<lparr>ranges := (ranges s)[i := b]\<rparr>) \<longleftrightarrow> x \<in> rs_set s" if "x \<notin> A" for x
  proof -
    have "x \<in> ival b \<longleftrightarrow> x \<in> ival (ranges s ! i)" using assms(3) that by blast
    then have "x \<in> ival ((ranges s)[i := b] ! p) \<longleftrightarrow> x \<in> ival (ranges s ! p)" if "p < idx s" for p
      using wf(1,2) that by (cases "p = i") (auto simp: nth_list_update)
    then show ?thesis using wf(3) by (auto simp: rs_set_alt)
  qed
  then show ?thesis by blast
qed

section \<open>remove_range\<close>

text \<open>What a completed \<open>remove_inner\<close> has achieved.\<close>

definition removed :: "range \<Rightarrow> rangeset \<Rightarrow> rangeset \<Rightarrow> bool" where
  "removed r s s' \<longleftrightarrow> rs_wf s' \<and> idx s' \<le> idx s \<and> (\<forall>p<idx s'. \<not> overlaps r (ranges s' ! p)) \<and>
     rs_set s' = rs_set s - ival r \<and>
     ((\<forall>p<idx s. \<not> contains (ranges s ! p) r) \<longrightarrow> idx s' = idx s) \<and> (apart s \<longrightarrow> apart s')"

lemma remove_inner_from_done:
  assumes "rs_wf s" "n \<le> idx s" "\<forall>p<n. \<not> overlaps r (ranges s ! p)"
  shows "remove_inner_from r s i n = Some s"
proof (induction "n - i" arbitrary: i)
  case 0
  then show ?case by (subst remove_inner_from.simps) simp
next
  case (Suc d)
  then have i: "i < n" by simp
  then have "remove_inner_from r s (Suc i) n = Some s" using Suc by simp
  with i assms rs_wfD [OF assms(1)] show ?case
    by (subst remove_inner_from.simps) simp
qed

lemma rs_set_no_overlap:
  assumes "rs_wf s" "valid_range r" "\<forall>p<idx s. \<not> overlaps r (ranges s ! p)"
  shows "rs_set s = rs_set s - ival r"
proof -
  note wf = rs_wfD [OF assms(1)]
  have "ival r \<inter> ival (ranges s ! p) = {}" if "p < idx s" for p
    using that assms overlaps_iff_ival wf(4) by blast
  then show ?thesis by (auto simp: rs_set_alt wf(3))
qed

text \<open>One step of the loop, then the rest.\<close>

lemma removed_shrink:
  assumes "rs_wf s" "i < idx s" "ival b - ival r = ival (ranges s ! i) - ival r" "\<not> contains b r"
    "contains b (ranges s ! i)" and rest: "removed r (s\<lparr>ranges := (ranges s)[i := b]\<rparr>) s'"
  shows "removed r s s'"
proof -
  have "\<not> contains ((ranges s)[i := b] ! p) r"
    if "\<forall>p<idx s. \<not> contains (ranges s ! p) r" "p < idx s" for p
    using that assms(4) rs_wfD(1,2) [OF assms(1)] by (cases "p = i") auto
  then show ?thesis
    using rest rs_set_shrink [OF assms(1-3)] apart_shrink [OF _ assms(5)] rs_wfD(5) [OF assms(1,2)] by (simp add: removed_def)
qed

lemma removed_remove:
  assumes "rs_wf s" "i < idx s" "contains (ranges s ! i) r"
  obtains s1 where "rs_remove_unwrap s i = Some s1" "idx s1 < idx s" "rs_wf s1"
    "\<And>p. p < idx s1 \<Longrightarrow> \<exists>q<idx s. ranges s1 ! p = ranges s ! q"
    "\<And>s'. removed r s1 s' \<Longrightarrow> removed r s s'"
proof -
  note wf = rs_wfD [OF assms(1)]
  obtain s1 where s1: "rs_remove_unwrap s i = Some s1" "idx s1 = idx s - 1" "rs_wf s1"
    and live: "(\<lambda>p. ranges s1 ! p) ` {..<idx s1} = (\<lambda>p. ranges s ! p) ` ({..<idx s} - {i})" "apart s \<Longrightarrow> apart s1"
    using rs_remove_unwrap_live [OF assms(1,2)] by metis
  have from_s: "\<exists>q<idx s. ranges s1 ! p = ranges s ! q" if "p < idx s1" for p
  proof -
    have "ranges s1 ! p \<in> (\<lambda>p. ranges s ! p) ` ({..<idx s} - {i})"
      using that by (simp flip: live(1))
    then show ?thesis by auto
  qed
  have "rs_set s1 = (\<Union>q \<in> {..<idx s} - {i}. ival (ranges s ! q))"
    using rs_wfD(3) [OF s1(3)] arg_cong [OF live(1), of "\<lambda>X. \<Union>x\<in>X. ival x"] by (simp add: rs_set_alt)
  moreover have "rs_set s = (\<Union>q \<in> {..<idx s} - {i}. ival (ranges s ! q)) \<union> ival (ranges s ! i)"
    using wf(3) assms(2) by (auto simp: rs_set_alt)
  moreover have "ival (ranges s ! i) \<subseteq> ival r"
    using assms(3) by (auto simp: range_defs)
  ultimately have "rs_set s1 - ival r = rs_set s - ival r" by blast
  then have "removed r s s'" if "removed r s1 s'" for s'
    using that assms(2,3) s1(2) live(2) by (auto simp: removed_def)
  with that s1 from_s assms(2) show thesis by auto
qed

text \<open>Without an entry that has to be split, the loop always returns.\<close>

lemma remove_inner_from_nosplit:
  assumes "rs_wf s" "valid_range r" "i \<le> idx s" "\<forall>p<i. \<not> overlaps r (ranges s ! p)"
    "\<forall>p<idx s. \<not> strictly_inside r (ranges s ! p)"
  shows "\<exists>s'. remove_inner_from r s i (idx s) = Some s' \<and> removed r s s'"
  using assms
proof (induction "9 * idx s + (idx s - i)" arbitrary: s i rule: less_induct)
  case less
  note wf = rs_wfD [OF less.prems(1)]
  show ?case
  proof (cases "i = idx s")
    case True
    then show ?thesis
      using less.prems rs_set_no_overlap by (subst remove_inner_from.simps) (auto simp: removed_def)
  next
    case False
    with less.prems have i: "i < idx s" by simp
    let ?o = "ranges s ! i"
    have vo: "valid_range ?o" using wf(4) i .
    have nth: "nth_chk (ranges s) i = Some ?o" using wf(5) [OF i] by simp
    have next_one: "\<exists>s'. remove_inner_from r (s\<lparr>ranges := (ranges s)[i := b]\<rparr>) (Suc i) (idx s) = Some s' \<and> removed r s s'"
      if b: "valid_range b" "contains b ?o" "\<not> overlaps r b" "ival b - ival r = ival ?o - ival r"
        "\<not> strictly_inside r b" "\<not> contains b r" for b
    proof -
      let ?s = "s\<lparr>ranges := (ranges s)[i := b]\<rparr>"
      have "rs_wf ?s" by (rule rs_wf_shrink [OF less.prems(1) i b(1,2)])
      moreover have "\<forall>p<Suc i. \<not> overlaps r (ranges ?s ! p)"
        using less.prems(4) b(3) wf(5) [OF i] by (simp add: less_Suc_eq nth_list_update)
      moreover have "\<forall>p<idx ?s. \<not> strictly_inside r (ranges ?s ! p)"
        using less.prems(5) b(5) wf(5) [OF i] by (simp add: nth_list_update)
      moreover have "idx ?s = idx s" by simp
      moreover have "9 * idx s + (idx s - Suc i) < 9 * idx s + (idx s - i)"
        using i by linarith
      ultimately obtain s' where "remove_inner_from r ?s (Suc i) (idx s) = Some s'" "removed r ?s s'"
        using less.hyps [of ?s "Suc i"] less.prems(2) i Suc_leI by metis
      then show ?thesis using removed_shrink [OF less.prems(1) i b(4,6,2)] by blast
    qed
    consider (skip) "\<not> overlaps r ?o" | (contained) "overlaps r ?o" "contains ?o r"
      | (left) "overlaps r ?o" "\<not> contains ?o r" "range_start r \<le> range_start ?o"
      | (right) "overlaps r ?o" "\<not> contains ?o r" "\<not> range_start r \<le> range_start ?o"
      by blast
    then show ?thesis
    proof cases
      case skip
      then have "\<forall>p<Suc i. \<not> overlaps r (ranges s ! p)"
        using less.prems(4) by (simp add: less_Suc_eq)
      moreover have "9 * idx s + (idx s - Suc i) < 9 * idx s + (idx s - i)"
        using i by linarith
      ultimately have "\<exists>s'. remove_inner_from r s (Suc i) (idx s) = Some s' \<and> removed r s s'"
        using less.hyps [of s "Suc i"] less.prems i by simp
      then show ?thesis
        using i nth skip by (subst remove_inner_from.simps) simp
    next
      case contained
      obtain s1 where s1: "rs_remove_unwrap s i = Some s1" "idx s1 < idx s" "rs_wf s1"
        "\<And>p. p < idx s1 \<Longrightarrow> \<exists>q<idx s. ranges s1 ! p = ranges s ! q"
        and lift: "\<And>s'. removed r s1 s' \<Longrightarrow> removed r s s'"
        using removed_remove [OF less.prems(1) i contained(2)] by metis
      have "\<forall>p<idx s1. \<not> strictly_inside r (ranges s1 ! p)"
        using s1(4) less.prems(5) by metis
      moreover have "9 * idx s1 + (idx s1 - 0) < 9 * idx s + (idx s - i)"
        using s1(2) wf(2) by linarith
      ultimately obtain s' where "remove_inner_from r s1 0 (idx s1) = Some s'" "removed r s1 s'"
        using less.hyps [of s1 0] less.prems(2) s1(3) by auto
      then show ?thesis
        using i nth contained s1(1) lift by (subst remove_inner_from.simps) simp
    next
      case left
      then show ?thesis
        using i nth next_one [OF trim_left_props [OF left less.prems(2) vo]]
        by (subst remove_inner_from.simps) (simp add: trim_left_def)
    next
      case right
      then have ends: "range_end ?o \<le> range_end r"
        using less.prems(5) i by (auto simp: strictly_inside_def)
      note t = trim_right_props [OF right(1,3) less.prems(2) vo]
      have eq: "ival (trim_right r ?o) - ival r = ival ?o - ival r"
        unfolding t(6) using ends right(1) by (auto simp: ival_def overlaps_def)
      show ?thesis
        using i nth right ends next_one [OF t(1-3) eq t(4,5)]
        by (subst remove_inner_from.simps) (simp add: trim_right_def)
    qed
  qed
qed

text \<open>An entry that strictly contains the range is split in two, if the array has room.\<close>

text \<open>Splitting an entry: a relation that fails between the two halves and between the entries before fails between all entries afterwards.\<close>

lemma split_pairs:
  assumes nth: "\<And>p. p < idx s1 \<Longrightarrow> ranges s1 ! p = (if p = i then x else if p = idx s then y else ranges s ! p)"
    and sub: "\<And>p. p < idx s1 \<Longrightarrow> contains (ranges s1 ! p) (ranges s ! (if p = idx s then i else p))"
    and pq: "p < idx s1" "q < idx s1" and i: "i < idx s" and idx1: "idx s1 = Suc (idx s)" and ne: "p \<noteq> q"
    and mono: "\<And>a b a' b'. contains a a' \<Longrightarrow> contains b b' \<Longrightarrow> R a b \<Longrightarrow> R a' b'" and sym: "\<And>a b. R a b \<longleftrightarrow> R b a"
    and xy: "\<not> R x y" and old: "\<And>p q. p < idx s \<Longrightarrow> q < idx s \<Longrightarrow> p \<noteq> q \<Longrightarrow> \<not> R (ranges s ! p) (ranges s ! q)"
  shows "\<not> R (ranges s1 ! p) (ranges s1 ! q)"
proof (cases "{p, q} = {i, idx s}")
  case True
  then show ?thesis using nth [OF pq(1)] nth [OF pq(2)] xy i sym by (auto simp: doubleton_eq_iff)
next
  case False
  then show ?thesis
    using mono [OF sub [OF pq(1)] sub [OF pq(2)]] old pq ne i idx1 by (auto simp: less_Suc_eq doubleton_eq_iff)
qed

lemma split_wf:
  assumes "rs_wf s" "valid_range r" "i < idx s" "strictly_inside r (ranges s ! i)" "idx s < 8"
  defines "s1 \<equiv> s\<lparr>ranges := (ranges s)[idx s := range_new (saturating_add (range_start r) 1) (range_end (ranges s ! i)),
                       i := trim_right r (ranges s ! i)], idx := Suc (idx s)\<rparr>"
  shows "rs_wf s1" "\<forall>p<idx s1. \<not> strictly_inside r (ranges s1 ! p) \<and> \<not> contains (ranges s1 ! p) r"
    "rs_set s1 - ival r = rs_set s - ival r" "apart s \<Longrightarrow> apart s1"
proof -
  note wf = rs_wfD [OF assms(1)]
  let ?o = "ranges s ! i" and ?n = "range_new (saturating_add (range_start r) 1) (range_end (ranges s ! i))"
  have ov: "overlaps r ?o" and ns: "\<not> range_start r \<le> range_start ?o" and lt: "range_start r < range_end ?o"
    using assms(2,4) by (auto simp: range_defs)
  note t = trim_right_props [OF ov ns assms(2) wf(4) [OF assms(3)]]
  note sat = saturating_add_less_iff [OF lt]
  have gt: "range_start r < saturating_add (range_start r) 1" using sat by blast
  have "range_end (trim_right r ?o) < range_start r"
    using t(1,6) by (auto simp: valid_range_def ival_def dest: atLeastatMost_subset_iff [THEN iffD1, rotated])
  then have n5: "\<not> overlaps (trim_right r ?o) ?n"
    using gt by (auto simp: overlaps_def range_new_def)
  have n: "valid_range ?n" "contains ?n ?o" "\<not> strictly_inside r ?n" "\<not> contains ?n r"
    using assms(4) ns sat [of "range_end ?o"] lt gt by (auto simp: range_defs)
  have nth: "ranges s1 ! p = (if p = i then trim_right r ?o else if p = idx s then ?n else ranges s ! p)"
    if "p < idx s1" for p
    using that wf(1) assms(3,5) by (auto simp: s1_def nth_list_update)
  have idx1: "idx s1 = Suc (idx s)" by (simp add: s1_def)
  have n6: "\<not> touches (trim_right r ?o) ?n"
    using \<open>range_end (trim_right r ?o) < range_start r\<close> gt by (simp add: touches_iff range_new_def word_less_nat_alt)
  have sub: "contains (ranges s1 ! p) (ranges s ! (if p = idx s then i else p))" if "p < idx s1" for p
    using nth [OF that] t(2) n(2) assms(3) by auto
  note pairs = split_pairs [OF nth sub _ _ assms(3) idx1]
  have disj: "\<not> overlaps (ranges s1 ! p) (ranges s1 ! q)" if "p < idx s1" "q < idx s1" "p \<noteq> q" for p q
    using pairs [OF _ _ that, of overlaps] overlaps_mono overlaps_sym n5 wf(6) by blast
  show "apart s1" if "apart s"
    unfolding apart_def using pairs [where R = touches] touches_mono touches_sym n6 that [unfolded apart_def] by blast
  have valid: "valid_range (ranges s1 ! p)" if "p < idx s1" for p
    using nth [OF that] that t(1) n(1) wf(4) idx1 by (auto simp: less_Suc_eq)
  show wf1: "rs_wf s1"
    using valid disj wf(1) assms(5) by (simp add: rs_wf_def RANGE_COUNT_def s1_def)
  have others: "\<not> strictly_inside r (ranges s ! p) \<and> \<not> contains (ranges s ! p) r"
    if "p < idx s" "p \<noteq> i" for p
    using wf(6) [OF that(1) assms(3) that(2)] assms(2,4) wf(4) [OF that(1)] by (auto simp: range_defs)
  show "\<forall>p<idx s1. \<not> strictly_inside r (ranges s1 ! p) \<and> \<not> contains (ranges s1 ! p) r"
    using nth others t(4,5) n(3,4) idx1 by (auto simp: less_Suc_eq)
  have "ival ?n = {range_start r <.. range_end ?o}"
    by (auto simp: ival_def range_new_def sat)
  then have "ival (trim_right r ?o) \<union> ival ?n - ival r = ival ?o - ival r"
    unfolding t(6) using interval_split_diff [of "range_start ?o" "range_start r" "range_end r" "range_end ?o"] assms(2,4)
    by (simp add: ival_def [of r] ival_def [of ?o] valid_range_def strictly_inside_def)
  moreover have "rs_set s1 = (\<Union>p \<in> {..<idx s} - {i}. ival (ranges s ! p)) \<union> ival (trim_right r ?o) \<union> ival ?n"
    using rs_wfD(3) [OF wf1] nth idx1 assms(3) by (auto simp: rs_set_alt less_Suc_eq split: if_splits)
  moreover have "rs_set s = (\<Union>p \<in> {..<idx s} - {i}. ival (ranges s ! p)) \<union> ival ?o"
    using wf(3) assms(3) by (auto simp: rs_set_alt)
  ultimately show "rs_set s1 - ival r = rs_set s - ival r" by (simp add: Un_Diff Un_assoc)
qed


lemma remove_inner_from_split:
  assumes "rs_wf s" "valid_range r" "i < idx s" "\<forall>p<i. \<not> overlaps r (ranges s ! p)"
    "strictly_inside r (ranges s ! i)" "idx s < 8"
  shows "\<exists>s'. remove_inner_from r s i (idx s) = Some s' \<and> rs_wf s' \<and> rs_set s' = rs_set s - ival r \<and> idx s' \<le> Suc (idx s) \<and>
    (apart s \<longrightarrow> apart s')"
proof -
  let ?o = "ranges s ! i" and ?n = "range_new (saturating_add (range_start r) 1) (range_end (ranges s ! i))"
  let ?s1 = "s\<lparr>ranges := (ranges s)[idx s := ?n, i := trim_right r ?o], idx := Suc (idx s)\<rparr>"
  note s1 = split_wf [OF assms(1,2,3,5,6)]
  obtain s2 where s2: "remove_inner_from r ?s1 0 (Suc (idx s)) = Some s2" "removed r ?s1 s2"
    using remove_inner_from_nosplit [OF s1(1) assms(2), of 0] s1(2) by auto
  have idx2: "idx s2 = Suc (idx s)" and wf2: "rs_wf s2" "\<forall>p<idx s2. \<not> overlaps r (ranges s2 ! p)"
    and set2: "rs_set s2 = rs_set ?s1 - ival r" and apart2: "apart ?s1 \<longrightarrow> apart s2"
    using s2(2) s1(2) by (auto simp: removed_def)
  have done2: "remove_inner_from r s2 (Suc i) (idx s) = Some s2"
    using remove_inner_from_done [OF wf2(1)] idx2 wf2(2) by simp
  have conds: "overlaps r ?o" "\<not> contains ?o r" "\<not> range_start r \<le> range_start ?o" "\<not> range_end ?o \<le> range_end r"
    using assms(2,5) by (auto simp: range_defs)
  have nth: "nth_chk (ranges s) i = Some ?o" "(ranges s)[idx s := x] ! i = ?o"
    "upd_chk (ranges s) (idx s) x = Some ((ranges s)[idx s := x])" for x
    using rs_wfD [OF assms(1)] assms(3,6) by auto
  have "remove_inner_from r s i (idx s) = Some s2"
    using assms(3) conds s2(1) done2
    by (subst remove_inner_from.simps) (simp add: nth Let_def trim_right_def)
  with wf2(1) set2 s1(3,4) idx2 apart2 show ?thesis by auto
qed

lemma remove_inner_from_skip:
  assumes "\<forall>p<k. \<not> overlaps r (ranges s ! p)" "i \<le> k" "k \<le> n" "n \<le> length (ranges s)"
  shows "remove_inner_from r s i n = remove_inner_from r s k n"
  using assms
proof (induction "k - i" arbitrary: i)
  case (Suc d)
  have lt: "i < k" "i < n" using Suc.hyps(2) Suc.prems by linarith+
  then have "remove_inner_from r s i n = remove_inner_from r s (Suc i) n"
    using Suc.prems by (subst remove_inner_from.simps) simp
  also have "\<dots> = remove_inner_from r s k n"
    using Suc.prems Suc.hyps(2) lt by (intro Suc.hyps(1)) simp_all
  finally show ?case .
qed simp

text \<open>The first entry that has to be split is the only entry that overlaps the range at all.\<close>

lemma strictly_inside_only:
  assumes "rs_wf s" "valid_range r" "i < idx s" "strictly_inside r (ranges s ! i)" "p < idx s" "p \<noteq> i"
  shows "\<not> overlaps r (ranges s ! p)"
proof
  assume "overlaps r (ranges s ! p)"
  moreover have "contains r (ranges s ! i)" using assms(4) by (simp add: range_defs less_imp_le)
  ultimately have "overlaps (ranges s ! i) (ranges s ! p)" by (blast intro: overlaps_mono [OF _ contains_refl])
  then show False using rs_wfD(6) [OF assms(1,3,5)] assms(6) by blast
qed

lemma remove_inner_ok:
  assumes "rs_wf s" "valid_range r" "idx s < 8 \<or> (\<forall>p<idx s. \<not> strictly_inside r (ranges s ! p))"
  shows "\<exists>s'. remove_inner s r = Some s' \<and> rs_wf s' \<and> rs_set s' = rs_set s - ival r \<and> idx s' \<le> Suc (idx s) \<and>
    (apart s \<longrightarrow> apart s')"
proof (cases "\<exists>i<idx s. strictly_inside r (ranges s ! i)")
  case True
  then obtain i where i: "i < idx s" "strictly_inside r (ranges s ! i)" by blast
  then have room: "idx s < 8" using assms(3) by blast
  have before: "\<forall>p<i. \<not> overlaps r (ranges s ! p)"
    using strictly_inside_only [OF assms(1,2) i] i(1) by simp
  have "remove_inner_from r s 0 (idx s) = remove_inner_from r s i (idx s)"
    using i(1) rs_wfD(3) [OF assms(1)] by (intro remove_inner_from_skip [OF before]) simp_all
  then show ?thesis
    using remove_inner_from_split [OF assms(1,2) i(1) before i(2) room] by (simp add: remove_inner_def)
next
  case False
  then show ?thesis
    using remove_inner_from_nosplit [OF assms(1,2), of 0] by (auto simp: remove_inner_def removed_def)
qed

lemma remove_inner_full:
  assumes "rs_wf s" "valid_range r" "idx s = 8" "i < 8" "strictly_inside r (ranges s ! i)"
  shows "remove_inner s r = None"
proof -
  note wf = rs_wfD [OF assms(1)]
  have i: "i < idx s" using assms(3,4) by simp
  have before: "\<forall>p<i. \<not> overlaps r (ranges s ! p)"
    using strictly_inside_only [OF assms(1,2) i assms(5)] i by simp
  have conds: "overlaps r (ranges s ! i)" "\<not> contains (ranges s ! i) r"
    "\<not> range_start r \<le> range_start (ranges s ! i)" "\<not> range_end (ranges s ! i) \<le> range_end r"
    using assms(2,5) by (auto simp: range_defs)
  have "remove_inner s r = remove_inner_from r s i 8"
    unfolding remove_inner_def assms(3)
    using assms(4) wf(1) by (intro remove_inner_from_skip [OF before]) simp_all
  also have "\<dots> = None"
    using assms(3,4) conds wf(1) by (subst remove_inner_from.simps) (simp add: Let_def)
  finally show ?thesis .
qed

section \<open>insert\<close>

lemma merge_blocks_from_step:
  assumes "i < n" "i < length (ranges s)"
  shows "merge_blocks_from r s i n =
    (if \<not> touches r (ranges s ! i) then merge_blocks_from r s (Suc i) n
     else do { s' \<leftarrow> rs_remove_unwrap s i;
               (r'', s'') \<leftarrow> merge_blocks_from (hull r (ranges s ! i)) s' 0 (idx s');
               merge_blocks_from r'' s'' (Suc i) n })"
  using assms by (subst merge_blocks_from.simps) (simp add: Let_def touches_def hull_def)

lemma merge_blocks_from_end: "n \<le> i \<Longrightarrow> merge_blocks_from r s i n = Some (r, s)"
  by (subst merge_blocks_from.simps) simp

text \<open>
  Removed entries are parked behind the live ones: the last array slot is covered by the range that
  is being merged once anything has been removed.
\<close>

definition parked :: "range \<Rightarrow> rangeset \<Rightarrow> bool" where
  "parked r s \<longleftrightarrow> length (ranges s) = 8 \<and> idx s \<le> 7 \<and> valid_range r \<and>
     (\<forall>x \<in> set (ranges s). valid_range x) \<and> contains (ranges s ! 7) r"

lemma parked_remove:
  assumes "length (ranges s) = 8" "idx s \<le> 8" "valid_range r" "\<forall>x \<in> set (ranges s). valid_range x"
    "rs_remove_unwrap s i = Some s'"
  shows "parked (hull r (ranges s ! i)) s'"
proof -
  have i: "i < idx s" using assms(5) rs_remove_unwrap_out [of s i] by (metis not_le option.distinct(1))
  have s': "s' = s\<lparr>ranges := take i (ranges s) @ rotate1 (drop i (ranges s)), idx := idx s - 1\<rparr>"
    using assms(5) i by (auto simp: rs_remove_unwrap_def rs_remove_def split: if_splits)
  have "set (take i (ranges s) @ rotate1 (drop i (ranges s))) = set (ranges s)"
    unfolding set_append set_rotate1 by (metis append_take_drop_id set_append)
  then have "set (ranges s') = set (ranges s)" by (simp add: s')
  moreover have "ranges s' ! 7 = ranges s ! i"
    using assms(1,2) i by (simp add: s' nth_rotate_out)
  moreover have "valid_range (ranges s ! i)" using assms(1,2,4) i by simp
  ultimately show ?thesis
    using assms(1-4) i by (simp add: parked_def s')
qed

lemma parked_merge:
  assumes "merge_blocks_from r s i n = Some (r', s')" "parked r s"
  shows "parked r' s'"
proof -
  have "\<And>x. merge_blocks_from r s i n = Some x \<Longrightarrow> parked r s \<longrightarrow> parked (fst x) (snd x)"
  proof (erule merge_blocks_from.raw_induct [rotated, where P = "\<lambda>r s i n x. parked r s \<longrightarrow> parked (fst x) (snd x)"])
    fix f r s i n x
    assume IH: "\<And>r s i n x. f r s i n = Some x \<Longrightarrow> parked r s \<longrightarrow> parked (fst x) (snd x)"
      and eq: "(if n \<le> i then Some (r, s)
        else nth_chk (ranges s) i \<bind> (\<lambda>other.
          let a = range_new (range_start r) (saturating_add (range_end r) 1);
              b = range_new (range_start other) (saturating_add (range_end other) 1)
          in if \<not> overlaps a b then f r s (Suc i) n
             else let r' = \<lparr>range_start = min (range_start r) (range_start other), range_end = max (range_end r) (range_end other)\<rparr>
               in rs_remove_unwrap s i \<bind> (\<lambda>s'. f r' s' 0 (idx s') \<bind> (\<lambda>(r'', s''). f r'' s'' (Suc i) n)))) = Some x"
    show "parked r s \<longrightarrow> parked (fst x) (snd x)"
    proof
      assume p: "parked r s"
      show "parked (fst x) (snd x)"
      proof (cases "n \<le> i \<or> \<not> i < length (ranges s) \<or> \<not> touches r (ranges s ! i)")
        case True
        then show ?thesis using eq p IH [of r s "Suc i" n x]
          by (auto simp: Let_def touches_def nth_chk_def split: if_splits)
      next
        case False
        then obtain s1 r2 s2 where s1: "rs_remove_unwrap s i = Some s1"
          and s2: "f (hull r (ranges s ! i)) s1 0 (idx s1) = Some (r2, s2)" "f r2 s2 (Suc i) n = Some x"
          using eq by (auto simp: Let_def touches_def hull_def bind_eq_Some_conv)
        have "parked (hull r (ranges s ! i)) s1"
          using p s1 by (intro parked_remove) (auto simp: parked_def)
        then show ?thesis using IH [OF s2(1)] IH [OF s2(2)] by simp
      qed
    qed
  qed
  then show ?thesis using assms by fastforce
qed

lemma parked_panics: "parked r s \<Longrightarrow> i < 8 \<Longrightarrow> merge_blocks_from r s i 8 = None"
proof (induction "8 - i" arbitrary: i r s)
  case (Suc d)
  have len: "length (ranges s) = 8" using Suc.prems by (simp add: parked_def)
  show ?case
  proof (cases "touches r (ranges s ! i)")
    case True
    show ?thesis
    proof (cases "rs_remove_unwrap s i")
      case None
      then show ?thesis using Suc.prems len True by (simp add: merge_blocks_from_step)
    next
      case (Some s1)
      then have i: "i < idx s" using rs_remove_unwrap_out [of s i] by (metis not_le option.distinct(1))
      then have i7: "i < 7" using Suc.prems by (simp add: parked_def)
      have p1: "parked (hull r (ranges s ! i)) s1"
        using Suc.prems Some by (intro parked_remove) (auto simp: parked_def)
      have "merge_blocks_from r2 s2 (Suc i) 8 = None"
        if "merge_blocks_from (hull r (ranges s ! i)) s1 0 (idx s1) = Some (r2, s2)" for r2 s2
        using parked_merge [OF that p1] Suc.hyps i7 by simp
      then show ?thesis
        using Suc.prems len True Some
        by (cases "merge_blocks_from (hull r (ranges s ! i)) s1 0 (idx s1)") (auto simp: merge_blocks_from_step)
    qed
  next
    case False
    then have "i \<noteq> 7" using Suc.prems len touches_sub by (auto simp: parked_def)
    then have "merge_blocks_from r s (Suc i) 8 = None" using Suc by simp
    then show ?thesis using Suc.prems len False by (simp add: merge_blocks_from_step)
  qed
qed simp

lemma merge_touched_panics:
  assumes "length (ranges s) = 8" "idx s \<le> 8" "\<forall>x \<in> set (ranges s). valid_range x" "valid_range r"
    "i < 7" "touches r (ranges s ! i)"
  shows "merge_blocks_from r s i 8 = None"
proof (cases "rs_remove_unwrap s i")
  case None
  then show ?thesis using assms by (simp add: merge_blocks_from_step)
next
  case (Some s1)
  have p1: "parked (hull r (ranges s ! i)) s1"
    by (rule parked_remove [OF assms(1,2,4,3) Some])
  have "merge_blocks_from r2 s2 (Suc i) 8 = None"
    if "merge_blocks_from (hull r (ranges s ! i)) s1 0 (idx s1) = Some (r2, s2)" for r2 s2
    using parked_panics [OF parked_merge [OF that p1]] assms(5) by simp
  then show ?thesis
    using assms Some
    by (cases "merge_blocks_from (hull r (ranges s ! i)) s1 0 (idx s1)") (auto simp: merge_blocks_from_step)
qed

text \<open>
  The loop bound of \<open>merge_blocks\<close> is the number of entries before the merge, so after a merge it
  visits slots behind the live entries; on a full set the last slot holds an entry that has just been
  merged, \<open>remove\<close> answers \<open>OutOfBounds\<close> and the \<open>unwrap\<close> panics.
\<close>

lemma merge_full_panics:
  assumes "length (ranges s) = 8" "idx s = 8" "\<forall>x \<in> set (ranges s). valid_range x" "valid_range r"
    "i \<le> j" "j < 7" "touches r (ranges s ! j)"
  shows "merge_blocks_from r s i 8 = None"
  using assms(5)
proof (induction "j - i" arbitrary: i)
  case 0
  then show ?case using assms by (intro merge_touched_panics) auto
next
  case (Suc d)
  then have i: "i < 7" using assms by auto
  show ?case
  proof (cases "touches r (ranges s ! i)")
    case True
    then show ?thesis using assms i by (intro merge_touched_panics) auto
  next
    case False
    moreover have "merge_blocks_from r s (Suc i) 8 = None" using Suc by simp
    ultimately show ?thesis using assms(1) i by (simp add: merge_blocks_from_step)
  qed
qed

section \<open>insert on a set that still has unused slots\<close>

text \<open>
  A set built by \<open>new\<close> and \<open>m\<close> insertions: the live entries, then slots that were never written,
  then at most \<open>m - idx\<close> parked entries. The unwritten slots hold the range \<open>0..=0\<close>, which a merge
  must not meet, so addresses 0 and 1 are excluded.
\<close>

definition zeros_upto :: "rangeset \<Rightarrow> nat \<Rightarrow> bool" where
  "zeros_upto s z \<longleftrightarrow> (\<forall>p. idx s \<le> p \<and> p < z \<longrightarrow> ranges s ! p = \<lparr>range_start = 0, range_end = 0\<rparr>)"

definition roomy :: "rangeset \<Rightarrow> nat \<Rightarrow> bool" where
  "roomy s z \<longleftrightarrow> rs_wf s \<and> apart s \<and> (\<forall>i<idx s. 2 \<le> range_start (ranges s ! i)) \<and> z \<le> 8 \<and> zeros_upto s z"

definition fresh :: "rangeset \<Rightarrow> nat \<Rightarrow> bool" where
  "fresh s m \<longleftrightarrow> idx s \<le> m \<and> m \<le> 8 \<and> roomy s (8 - (m - idx s))"

lemma roomy_remove:
  assumes "roomy s z" "i < idx s" "idx s \<le> z"
  obtains s' where "rs_remove_unwrap s i = Some s'" "idx s' = idx s - 1" "roomy s' (z - 1)"
    "rs_set s = rs_set s' \<union> ival (ranges s ! i)"
proof -
  have wf: "rs_wf s" using assms(1) by (simp add: roomy_def)
  note wfD = rs_wfD [OF wf]
  obtain s1 where s1: "rs_remove_unwrap s i = Some s1" "idx s1 = idx s - 1" "rs_wf s1"
    and live: "(\<lambda>p. ranges s1 ! p) ` {..<idx s1} = (\<lambda>p. ranges s ! p) ` ({..<idx s} - {i})" "apart s \<Longrightarrow> apart s1"
    using rs_remove_unwrap_live [OF wf assms(2)] by metis
  have nth: "ranges s1 ! p = (if p < i then ranges s ! p else if Suc p < 8 then ranges s ! Suc p else ranges s ! i)"
    if "p < 8" for p
    using rs_remove_unwrap_ok [OF assms(2) wfD(3)] s1(1) wfD(1) that by (metis option.inject)
  let ?f = "\<lambda>p. if p < i then p else Suc p"
  have nth': "ranges s1 ! p = ranges s ! ?f p" if "p < 7" for p using nth that by simp
  have lt: "p < 7" "?f p < idx s" if "p < idx s1" for p using that s1(2) wfD(2) by auto
  have "apart s1" using assms(1) live(2) by (simp add: roomy_def)
  moreover have "2 \<le> range_start (ranges s1 ! p)" if "p < idx s1" for p
    using nth' [OF lt(1) [OF that]] lt(2) [OF that] assms(1) by (auto simp: roomy_def)
  moreover have "zeros_upto s1 (z - 1)"
    unfolding zeros_upto_def
  proof (intro allI impI)
    fix p assume p: "idx s1 \<le> p \<and> p < z - 1"
    then have "p < 7" "i \<le> p" "idx s \<le> Suc p" "Suc p < z"
      using assms s1(2) by (auto simp: roomy_def)
    then show "ranges s1 ! p = \<lparr>range_start = 0, range_end = 0\<rparr>"
      using nth' assms(1) by (simp add: roomy_def zeros_upto_def)
  qed
  ultimately have "roomy s1 (z - 1)" using s1(3) assms(1) by (auto simp: roomy_def)
  moreover have "rs_set s = rs_set s1 \<union> ival (ranges s ! i)"
  proof -
    have "rs_set s1 = (\<Union>q \<in> {..<idx s} - {i}. ival (ranges s ! q))"
      using rs_wfD(3) [OF s1(3)] arg_cong [OF live(1), of "\<lambda>X. \<Union>x\<in>X. ival x"] by (simp add: rs_set_alt)
    then show ?thesis using wfD(3) assms(2) by (auto simp: rs_set_alt)
  qed
  ultimately show thesis using that s1 by blast
qed

definition merged :: "range \<Rightarrow> rangeset \<Rightarrow> nat \<Rightarrow> range \<times> rangeset \<Rightarrow> bool" where
  "merged r s z x \<longleftrightarrow> (case x of (r', s') \<Rightarrow> idx s' \<le> idx s \<and> roomy s' (z - (idx s - idx s')) \<and>
     valid_range r' \<and> 2 \<le> range_start r' \<and> (\<forall>p<idx s'. \<not> touches r' (ranges s' ! p)) \<and>
     ival r' \<union> rs_set s' = ival r \<union> rs_set s)"

lemma zero_not_touched: "2 \<le> range_start r \<Longrightarrow> \<not> touches r \<lparr>range_start = 0, range_end = 0\<rparr>"
  by (auto simp: touches_iff word_le_nat_alt)

lemma merge_blocks_from_ok:
  assumes "roomy s z" "n + idx s \<le> z" "idx s \<le> n" "valid_range r" "2 \<le> range_start r"
    "\<forall>p<i. p < idx s \<longrightarrow> \<not> touches r (ranges s ! p)"
  shows "\<exists>x. merge_blocks_from r s i n = Some x \<and> merged r s z x"
  using assms
proof (induction "9 * idx s + (n - i)" arbitrary: r s i n z rule: less_induct)
  case less
  have wf: "rs_wf s" and z8: "z \<le> 8" using less.prems(1) by (auto simp: roomy_def)
  note wfD = rs_wfD [OF wf]
  consider (stop) "n \<le> i" | (skip) "i < n" "\<not> touches r (ranges s ! i)"
    | (touch) "i < n" "touches r (ranges s ! i)" by linarith
  then show ?case
  proof cases
    case stop
    then show ?thesis using less.prems by (simp add: merge_blocks_from_end merged_def)
  next
    case skip
    have "\<forall>p<Suc i. p < idx s \<longrightarrow> \<not> touches r (ranges s ! p)"
      using less.prems(6) skip(2) by (simp add: less_Suc_eq)
    moreover have "9 * idx s + (n - Suc i) < 9 * idx s + (n - i)" using skip(1) by linarith
    ultimately have "\<exists>x. merge_blocks_from r s (Suc i) n = Some x \<and> merged r s z x"
      using less.hyps less.prems(1-5) by blast
    then show ?thesis
      using skip less.prems(2) z8 wfD(1) by (simp add: merge_blocks_from_step)
  next
    case touch
    have i: "i < idx s"
    proof (rule ccontr)
      assume "\<not> i < idx s"
      then have "ranges s ! i = \<lparr>range_start = 0, range_end = 0\<rparr>"
        using less.prems(1,2) touch(1) by (simp add: roomy_def zeros_upto_def)
      then show False using touch(2) zero_not_touched [OF less.prems(5)] by simp
    qed
    let ?r = "hull r (ranges s ! i)"
    obtain s1 where s1: "rs_remove_unwrap s i = Some s1" "idx s1 = idx s - 1" "roomy s1 (z - 1)"
      and set1: "rs_set s = rs_set s1 \<union> ival (ranges s ! i)"
      using roomy_remove [OF less.prems(1) i] less.prems(2) by auto
    have r: "valid_range ?r" "2 \<le> range_start ?r" "ival ?r = ival r \<union> ival (ranges s ! i)"
      using valid_hull [OF less.prems(4) wfD(4) [OF i]] less.prems(1,5) i
        ival_hull [OF touch(2) less.prems(4) wfD(4) [OF i]] by (simp_all add: roomy_def hull_def)
    have "9 * idx s1 + (idx s1 - 0) < 9 * idx s + (n - i)" using s1(2) i wfD(2) by linarith
    then obtain r2 s2 where m2: "merge_blocks_from ?r s1 0 (idx s1) = Some (r2, s2)" "merged ?r s1 (z - 1) (r2, s2)"
      using less.hyps [of s1 "idx s1" 0 "z - 1" ?r] s1 r less.prems(2,3) i by fastforce
    have z2: "z - 1 - (idx s1 - idx s2) = z - (idx s - idx s2)" and le2: "idx s2 \<le> idx s1"
      using m2(2) s1(2) i by (auto simp: merged_def)
    have "\<exists>x. merge_blocks_from r2 s2 (Suc i) n = Some x \<and> merged r2 s2 (z - (idx s - idx s2)) x"
    proof (rule less.hyps)
      show "9 * idx s2 + (n - Suc i) < 9 * idx s + (n - i)" using le2 s1(2) i touch(1) by linarith
      show "n + idx s2 \<le> z - (idx s - idx s2)" "idx s2 \<le> n" using le2 s1(2) i less.prems(2,3) by linarith+
    qed (use m2(2) z2 in \<open>auto simp: merged_def\<close>)
    then obtain x where x: "merge_blocks_from r2 s2 (Suc i) n = Some x" "merged r2 s2 (z - (idx s - idx s2)) x"
      by blast
    have "merge_blocks_from r s i n = Some x"
      using touch less.prems(2) z8 wfD(1) s1(1) m2(1) x(1) by (simp add: merge_blocks_from_step)
    moreover have "merged r s z x"
      using x(2) m2(2) set1 r(3) le2 s1(2) by (auto simp: merged_def split: prod.splits)
    ultimately show ?thesis by blast
  qed
qed

lemma fresh_new: "fresh rs_new 0"
  by (auto simp: fresh_def roomy_def rs_wf_def rs_new_def RANGE_COUNT_def apart_def zeros_upto_def)

lemma rs_set_new: "rs_set rs_new = {}"
  by (simp add: rs_set_def as_slice_def rs_new_def)

lemma overlaps_touches: "overlaps a b \<Longrightarrow> touches a b"
  by (auto simp: touches_iff overlaps_def word_le_nat_alt)

lemma rs_wf_apart:
  assumes "length (ranges s) = 8" "idx s \<le> 8" "\<And>i. i < idx s \<Longrightarrow> valid_range (ranges s ! i)" "apart s"
  shows "rs_wf s"
  using assms overlaps_touches by (fastforce simp: rs_wf_def RANGE_COUNT_def apart_def)

lemma rs_wf_list:
  assumes "length rs = 8" "n \<le> 8" "list_all valid_range (take n rs)"
    "sorted_wrt (\<lambda>a b. \<not> overlaps a b \<and> \<not> overlaps b a) (take n rs)"
  shows "rs_wf \<lparr>ranges = rs, idx = n\<rparr>"
proof -
  have "\<not> overlaps (rs ! i) (rs ! j)" if "i < n" "j < n" "i \<noteq> j" for i j
    using sorted_wrt_nth_less [OF assms(4), of i j] sorted_wrt_nth_less [OF assms(4), of j i] that assms(1,2)
    by (cases "i < j") auto
  then show ?thesis using assms by (auto simp: rs_wf_def RANGE_COUNT_def list_all_length)
qed

lemma rs_insert_fresh:
  assumes "fresh s m" "m \<le> 4" "valid_range r" "2 \<le> range_start r"
  shows "\<exists>s'. rs_insert s r = Some (Ok (), s') \<and> fresh s' (Suc m) \<and> rs_set s' = rs_set s \<union> ival r"
proof -
  let ?z = "8 - (m - idx s)"
  obtain r1 s1 where m: "merge_blocks_from r s 0 (idx s) = Some (r1, s1)" "merged r s ?z (r1, s1)"
    using merge_blocks_from_ok [of s ?z "idx s" r 0] assms by (fastforce simp: fresh_def)
  have roomy1: "roomy s1 (?z - (idx s - idx s1))" and le: "idx s1 \<le> idx s"
    and r1: "valid_range r1" "2 \<le> range_start r1" "\<forall>p<idx s1. \<not> touches r1 (ranges s1 ! p)"
    and set1: "ival r1 \<union> rs_set s1 = ival r \<union> rs_set s"
    using m(2) by (auto simp: merged_def)
  have z: "?z - (idx s - idx s1) = 8 - (m - idx s1)" and idx1: "idx s1 < 8"
    using le assms(1,2) by (auto simp: fresh_def)
  have wf1: "rs_wf s1" using roomy1 by (simp add: roomy_def)
  note wfD = rs_wfD [OF wf1]
  let ?s = "s1\<lparr>ranges := (ranges s1)[idx s1 := r1], idx := Suc (idx s1)\<rparr>"
  have ins: "rs_insert s r = Some (Ok (), ?s)"
    using m(1) assms(3) wfD(1) idx1 by (simp add: rs_insert_def merge_blocks_def valid_range_def not_less)
  have nth: "ranges ?s ! p = (if p = idx s1 then r1 else ranges s1 ! p)" for p
    using wfD(1) idx1 by (simp add: nth_list_update)
  have "apart ?s"
    using roomy1 r1(3) nth by (auto simp: apart_def roomy_def less_Suc_eq touches_sym)
  moreover have "rs_wf ?s"
    using wfD(1) idx1 nth r1(1) wfD(4) by (intro rs_wf_apart [OF _ _ _ \<open>apart ?s\<close>]) (auto simp: less_Suc_eq)
  ultimately have "roomy ?s (8 - (Suc m - idx ?s))"
    using roomy1 z le r1(2) wfD(1) idx1 by (auto simp: roomy_def zeros_upto_def nth_list_update less_Suc_eq)
  then have "fresh ?s (Suc m)"
    using le assms(1,2) by (simp add: fresh_def)
  moreover have "rs_set ?s = rs_set s \<union> ival r"
  proof -
    have "rs_set ?s = rs_set s1 \<union> ival r1"
      using rs_wfD(3) [OF \<open>rs_wf ?s\<close>] wfD(3) nth by (auto simp: rs_set_alt lessThan_Suc)
    then show ?thesis using set1 by auto
  qed
  ultimately show ?thesis using ins by blast
qed

section \<open>The interface a client uses\<close>

text \<open>
  What \<open>pmem::init\<close> needs of a set of address ranges: insertion, while the number of insertions
  stays below a capacity, adds exactly the range; removal subtracts exactly the range.
\<close>

locale address_set =
  fixes empty :: "'s"
    and insert_op :: "'s \<Rightarrow> range \<Rightarrow> ((unit, 'e) result \<times> 's) option"
    and denote :: "'s \<Rightarrow> usize set"
    and usable :: "range \<Rightarrow> bool"
    and good :: "'s \<Rightarrow> nat \<Rightarrow> bool"
    and capacity :: nat
  assumes empty_good: "good empty 0"
    and empty_denote: "denote empty = {}"
    and insert_good: "good s m \<Longrightarrow> m < capacity \<Longrightarrow> usable r \<Longrightarrow>
      \<exists>s'. insert_op s r = Some (Ok (), s') \<and> good s' (Suc m) \<and> denote s' = denote s \<union> ival r"
begin

lemma insert_all_from:
  "\<lbrakk>good s m; m + length rs \<le> capacity; \<forall>r \<in> set rs. usable r\<rbrakk> \<Longrightarrow>
   \<exists>s'. try_for_each insert_op s rs = Some (Ok (), s') \<and> good s' (m + length rs) \<and>
        denote s' = denote s \<union> (\<Union>r \<in> set rs. ival r)"
proof (induction rs arbitrary: s m)
  case (Cons r rs)
  obtain s1 where s1: "insert_op s r = Some (Ok (), s1)" "good s1 (Suc m)" "denote s1 = denote s \<union> ival r"
    using insert_good [of s m r] Cons.prems by auto
  obtain s2 where "try_for_each insert_op s1 rs = Some (Ok (), s2)" "good s2 (Suc m + length rs)"
    "denote s2 = denote s1 \<union> (\<Union>r \<in> set rs. ival r)"
    using Cons.IH [OF s1(2)] Cons.prems by auto
  with s1 show ?case by (auto simp: Un_assoc)
qed simp

lemma insert_all:
  "\<lbrakk>length rs \<le> capacity; \<forall>r \<in> set rs. usable r\<rbrakk> \<Longrightarrow>
   \<exists>s'. try_for_each insert_op empty rs = Some (Ok (), s') \<and> good s' (length rs) \<and>
        denote s' = (\<Union>r \<in> set rs. ival r)"
  using insert_all_from [OF empty_good, of rs] by (simp add: empty_denote)

end

text \<open>
  Ranges that are taken out again after the insertions: each removal may use one more slot of a
  limited number.
\<close>

locale address_set_removal = address_set +
  fixes remove_op :: "'a \<Rightarrow> range \<Rightarrow> ((unit, 'b) result \<times> 'a) option"
    and shaped :: "'a \<Rightarrow> nat \<Rightarrow> bool"
    and slots :: nat
  assumes good_shaped: "good s m \<Longrightarrow> shaped s m"
    and remove_shaped: "shaped s n \<Longrightarrow> n < slots \<Longrightarrow> valid_range r \<Longrightarrow>
      \<exists>s'. remove_op s r = Some (Ok (), s') \<and> shaped s' (Suc n) \<and> denote s' = denote s - ival r"
begin

lemma remove_all_from:
  "\<lbrakk>shaped s n; n + length rs \<le> slots; \<forall>r \<in> set rs. valid_range r\<rbrakk> \<Longrightarrow>
   \<exists>s'. try_for_each remove_op s rs = Some (Ok (), s') \<and> shaped s' (n + length rs) \<and>
        denote s' = denote s - (\<Union>r \<in> set rs. ival r)"
proof (induction rs arbitrary: s n)
  case (Cons r rs)
  obtain s1 where s1: "remove_op s r = Some (Ok (), s1)" "shaped s1 (Suc n)" "denote s1 = denote s - ival r"
    using remove_shaped [of s n r] Cons.prems by auto
  obtain s2 where "try_for_each remove_op s1 rs = Some (Ok (), s2)" "shaped s2 (Suc n + length rs)"
    "denote s2 = denote s1 - (\<Union>r \<in> set rs. ival r)"
    using Cons.IH [OF s1(2)] Cons.prems by auto
  with s1 show ?case by (auto simp: Diff_Un Diff_Int_distrib)
qed simp

lemma insert_then_remove:
  assumes "length ins \<le> capacity" "\<forall>r \<in> set ins. usable r" "length ins + length rem \<le> slots" "\<forall>r \<in> set rem. valid_range r"
  shows "\<exists>s1 s2. try_for_each insert_op empty ins = Some (Ok (), s1) \<and> try_for_each remove_op s1 rem = Some (Ok (), s2) \<and>
    shaped s2 (length ins + length rem) \<and> denote s2 = (\<Union>r \<in> set ins. ival r) - (\<Union>r \<in> set rem. ival r)"
  using insert_all [OF assms(1,2)] remove_all_from [OF good_shaped _ assms(4)] assms(3) by fastforce

end

interpretation rangeset: address_set rs_new rs_insert rs_set
  "\<lambda>r. valid_range r \<and> 2 \<le> range_start r" fresh 5
proof unfold_locales
  show "\<exists>s'. rs_insert s r = Some (Ok (), s') \<and> fresh s' (Suc m) \<and> rs_set s' = rs_set s \<union> ival r"
    if "fresh s m" "m < 5" "valid_range r \<and> 2 \<le> range_start r" for s m r
    using rs_insert_fresh [of s m r] that by simp
qed (simp_all add: fresh_new rs_set_new)

interpretation rangeset: address_set_removal rs_new rs_insert rs_set
  "\<lambda>r. valid_range r \<and> 2 \<le> range_start r" fresh 5 remove_range "\<lambda>s n. rs_wf s \<and> apart s \<and> idx s \<le> n" 8
proof unfold_locales
  show "\<exists>s'. remove_range s r = Some (Ok (), s') \<and> (rs_wf s' \<and> apart s' \<and> idx s' \<le> Suc n) \<and> rs_set s' = rs_set s - ival r"
    if "rs_wf s \<and> apart s \<and> idx s \<le> n" "n < 8" "valid_range r" for s n r
  proof -
    have "\<exists>s'. remove_inner s r = Some s' \<and> rs_wf s' \<and> rs_set s' = rs_set s - ival r \<and> idx s' \<le> Suc (idx s) \<and> apart s'"
      using remove_inner_ok [of s r] that by fastforce
    then show ?thesis using that by (auto simp: remove_range_def valid_range_def not_less)
  qed
qed (simp add: fresh_def roomy_def)

section \<open>Properties\<close>



text \<open>C32: \<open>remove_range\<close> on a well-formed set. An inverted range is refused and changes nothing; otherwise
  the set loses exactly the addresses of the range and stays well formed, except that a full set
  panics when the range lies strictly inside one entry, because the split needs a ninth slot.\<close>

theorem remove_range_spec:
  assumes "rs_wf s"
  shows "(\<not> valid_range r \<longrightarrow> remove_range s r = Some (Err InvalidRange, s)) \<and>
    (valid_range r \<and> (rs_len s < 8 \<or> (\<forall>i < rs_len s. \<not> strictly_inside r (ranges s ! i))) \<longrightarrow>
      (\<exists>s'. remove_range s r = Some (Ok (), s') \<and> rs_wf s' \<and> rs_set s' = rs_set s - ival r)) \<and>
    (valid_range r \<and> rs_len s = 8 \<and> (\<exists>i < 8. strictly_inside r (ranges s ! i)) \<longrightarrow> remove_range s r = None)"
  using remove_inner_ok [OF assms, of r] remove_inner_full [OF assms, of r]
  by (auto simp: remove_range_def valid_range_def rs_len_def)

theorem remove_range_spec_witness:
  "\<exists>s'. remove_range \<lparr>ranges = range_new 0x80000000 0x9FFFFFFF # replicate 7 (range_new 0 0), idx = 1\<rparr>
          (range_new 0x80000000 0x801FFFFF) = Some (Ok (), s') \<and>
        rs_set s' = ival (range_new 0x80000000 0x9FFFFFFF) - ival (range_new 0x80000000 0x801FFFFF)"
proof -
  let ?s = "\<lparr>ranges = range_new 0x80000000 0x9FFFFFFF # replicate 7 (range_new 0 0), idx = 1\<rparr>"
  have wf: "rs_wf ?s"
    by (rule rs_wf_list) (simp_all add: valid_range_def range_new_def)
  have "rs_set ?s = ival (range_new 0x80000000 0x9FFFFFFF)"
    by (simp add: rs_set_def as_slice_def)
  then show ?thesis
    using remove_range_spec [OF wf, of "range_new 0x80000000 0x801FFFFF"]
    by (auto simp: valid_range_def range_new_def rs_len_def)
qed

text \<open>inserting into a full set a range that touches any entry but the last one panics instead of
  merging, although the merged set would need no more than eight slots.\<close>

theorem rs_insert_full_panics:
  assumes "rs_wf s" "rs_len s = 8" "valid_range r" "j < 7" "touches r (ranges s ! j)"
  shows "rs_insert s r = None"
proof -
  have "\<forall>x \<in> set (ranges s). valid_range x"
    using rs_wfD [OF assms(1)] assms(2) by (auto simp: in_set_conv_nth rs_len_def)
  then have "merge_blocks_from r s 0 8 = None"
    using merge_full_panics [of s r 0 j] rs_wfD(1) [OF assms(1)] assms by (simp add: rs_len_def)
  then show ?thesis
    using assms by (simp add: rs_insert_def merge_blocks_def valid_range_def rs_len_def not_less)
qed

theorem rs_insert_full_panics_witness:
  "rs_insert \<lparr>ranges = [range_new 0x10 0x17, range_new 0x20 0x27, range_new 0x30 0x37, range_new 0x40 0x47,
     range_new 0x50 0x57, range_new 0x60 0x67, range_new 0x70 0x77, range_new 0x80 0x87], idx = 8\<rparr>
     (range_new 0x14 0x1A) = None"
proof (rule rs_insert_full_panics [where j = 0])
  show "rs_wf \<lparr>ranges = [range_new 0x10 0x17, range_new 0x20 0x27, range_new 0x30 0x37, range_new 0x40 0x47,
     range_new 0x50 0x57, range_new 0x60 0x67, range_new 0x70 0x77, range_new 0x80 0x87], idx = 8\<rparr>"
    by (rule rs_wf_list) (simp_all add: valid_range_def overlaps_def range_new_def)
qed (simp_all add: rs_len_def valid_range_def range_new_def touches_iff)

end
