(* ===== verification/RangeSet_Shape.thy ===== *)
theory RangeSet_Shape
  imports RangeSet
begin

text \<open>
  The shape of a \<open>RangeSet\<close> (\<open>crates/kernel/src/allocator/rangeset.rs\<close>): the array keeps its eight entries and the number of entries in use never leaves the array, so
  the slices that the accessors take are always in bounds. This holds of every sequence of operations with any arguments, also of
  those that leave overlapping ranges behind.
\<close>

definition rs_shape :: "rangeset \<Rightarrow> bool" where
  "rs_shape s \<longleftrightarrow> length (ranges s) = RANGE_COUNT \<and> idx s \<le> RANGE_COUNT"

datatype rs_op = InsertOp range | RemoveOp nat | RemoveRangeOp range | ClearOp

fun rs_step :: "rangeset \<Rightarrow> rs_op \<Rightarrow> rangeset option" where
  "rs_step s (InsertOp r) = map_option snd (rs_insert s r)"
| "rs_step s (RemoveOp i) = map_option snd (rs_remove s i)"
| "rs_step s (RemoveRangeOp r) = map_option snd (remove_range s r)"
| "rs_step s ClearOp = Some (rs_clear s)"

fun rs_steps :: "rangeset \<Rightarrow> rs_op list \<Rightarrow> rangeset option" where
  "rs_steps s [] = Some s"
| "rs_steps s (x # xs) = do { s' \<leftarrow> rs_step s x; rs_steps s' xs }"

named_theorems shape_intros

lemma rs_shape_new: "rs_shape rs_new"
  by (simp add: rs_shape_def rs_new_def)

lemma rs_shape_remove [shape_intros]: "rs_remove s i = Some (r, s') \<Longrightarrow> rs_shape s \<Longrightarrow> rs_shape s'"
  by (auto simp: rs_remove_def rs_shape_def split: if_splits)

lemma rs_shape_unwrap [shape_intros]: "rs_remove_unwrap s i = Some s' \<Longrightarrow> rs_shape s \<Longrightarrow> rs_shape s'"
  by (auto simp: rs_remove_unwrap_def split: bind_splits result.splits intro: shape_intros)

lemma rs_shape_update [shape_intros]: "rs_shape s \<Longrightarrow> rs_shape (s\<lparr>ranges := (ranges s)[i := r]\<rparr>)"
  by (simp add: rs_shape_def)

text \<open>A write at \<open>idx\<close> is checked against the length of the array before \<open>idx\<close> grows.\<close>

lemma rs_shape_push [shape_intros]: "upd_chk (ranges s) (idx s) r = Some rs \<Longrightarrow> rs_shape s \<Longrightarrow> rs_shape (s\<lparr>ranges := rs, idx := Suc (idx s)\<rparr>)"
  by (auto simp: rs_shape_def upd_chk_def split: if_splits)

lemma rs_shape_split [shape_intros]:
  assumes "upd_chk (ranges s) (idx s) r = Some rs" "rs_shape s"
  shows "rs_shape (s\<lparr>ranges := rs[i := x], idx := Suc (idx s)\<rparr>)"
  using rs_shape_push [OF assms] by (simp add: rs_shape_def)

lemma rs_shape_remove_inner [shape_intros]:
  assumes "remove_inner_from r s i n = Some s'" "rs_shape s"
  shows "rs_shape s'"
proof -
  have "rs_shape s \<longrightarrow> rs_shape s'"
  proof (rule remove_inner_from.raw_induct [of "\<lambda>r s i n s'. rs_shape s \<longrightarrow> rs_shape s'", OF _ assms(1)], goal_cases)
    case (1 f r s i n s')
    have ih: "rs_shape s \<Longrightarrow> rs_shape s'" if "f r s i n = Some s'" for r s i n s' using 1(1) that by blast
    show ?case using 1(2) by (auto simp: Let_def split: if_splits bind_splits elim!: ih intro: shape_intros)
  qed
  then show ?thesis using assms(2) by blast
qed

lemma rs_shape_merge [shape_intros]:
  assumes "merge_blocks_from r s i n = Some (r', s')" "rs_shape s"
  shows "rs_shape s'"
proof -
  have "rs_shape s \<longrightarrow> rs_shape (snd (r', s'))"
  proof (rule merge_blocks_from.raw_induct [of "\<lambda>r s i n y. rs_shape s \<longrightarrow> rs_shape (snd y)", OF _ assms(1)], goal_cases)
    case (1 f r s i n y)
    have ih: "rs_shape s \<Longrightarrow> rs_shape (snd y)" if "f r s i n = Some y" for r s i n y using 1(1) that by blast
    show ?case using 1(2) by (fastforce simp: Let_def split: if_splits bind_splits prod.splits dest: ih intro: shape_intros)
  qed
  then show ?thesis using assms(2) by simp
qed

lemma rs_shape_step: "rs_step s x = Some s' \<Longrightarrow> rs_shape s \<Longrightarrow> rs_shape s'"
proof (cases x)
  case ClearOp
  then show "rs_step s x = Some s' \<Longrightarrow> rs_shape s \<Longrightarrow> rs_shape s'" by (auto simp: rs_clear_def rs_shape_def)
qed (auto simp: rs_insert_def merge_blocks_def remove_range_def remove_inner_def split: if_splits bind_splits prod.splits intro: shape_intros)

text \<open>C36: Whatever the arguments, every sequence of insertions, removals and clears of a new set that does not panic leaves the array of eight entries with a
  number of entries in use that is in the array, so \<open>as_slice\<close> takes a slice in bounds of just that many entries and \<open>is_empty\<close> tells whether it is empty.\<close>

theorem rangeset_shape:
  assumes "rs_steps rs_new xs = Some s"
  shows "length (ranges s) = 8 \<and> idx s \<le> 8 \<and> length (as_slice s) = rs_len s \<and> (rs_is_empty s \<longleftrightarrow> as_slice s = [])"
proof -
  have "rs_shape s" if "rs_steps s0 xs = Some s" "rs_shape s0" for s0
    using that by (induction xs arbitrary: s0) (auto split: bind_splits intro: rs_shape_step)
  then have "rs_shape s" using assms rs_shape_new by blast
  then show ?thesis by (auto simp: rs_shape_def RANGE_COUNT_def as_slice_def rs_len_def rs_is_empty_def)
qed

theorem rangeset_shape_witness:
  "\<exists>s. rs_steps rs_new [InsertOp (range_new 0x10 0x1F), RemoveOp 3, RemoveRangeOp (range_new 7 6)] = Some s \<and> idx s \<le> 8 \<and> length (as_slice s) = 1"
proof -
  let ?xs = "[InsertOp (range_new 0x10 0x1F), RemoveOp 3, RemoveRangeOp (range_new 7 6)]"
  obtain s where s: "rs_steps rs_new ?xs = Some s" "idx s = 1"
    by (simp add: rs_new_def RANGE_COUNT_def rs_insert_def range_new_def merge_blocks_def merge_blocks_from.simps [of _ _ 0 0] upd_chk_def rs_remove_def remove_range_def)
  show ?thesis using rangeset_shape [OF s(1)] s by (auto simp: rs_len_def)
qed

end
