(* ===== verification/Allocator.thy ===== *)
theory Allocator
  imports Prelude
begin

text \<open>
  \<open>crates/kernel/src/allocator.rs\<close> and the constants of \<open>crates/kernel/src/unit.rs\<close>: the page size,
  alignment, the error type and the statistics record shared by the allocators.
\<close>

definition KIB :: usize where "KIB = push_bit 10 1"
definition MIB :: usize where "MIB = push_bit 20 1"
definition GIB :: usize where "GIB = push_bit 30 1"
definition TIB :: usize where "TIB = push_bit 40 1"

definition PAGE_SIZE :: usize where
  "PAGE_SIZE = 4096"

text \<open>\<open>(addr + align - 1) & !(align - 1)\<close>, evaluated left to right with overflow checks.\<close>

definition align_up :: "usize \<Rightarrow> usize \<Rightarrow> usize option" where
  "align_up addr align =
     do { a \<leftarrow> add_chk addr align;
          b \<leftarrow> sub_chk a 1;
          m \<leftarrow> sub_chk align 1;
          Some (b AND NOT m) }"

datatype alloc_error =
    RegionTooSmall | InvalidRegion | OrderTooLarge | NoMemoryAvailable
  | AllocateZeroPages | NoSlabForLayout | NullPointer

record alloc_stats =
  name :: string
  allocated :: usize
  free :: usize
  total :: usize

definition with_name :: "string \<Rightarrow> alloc_stats" where
  "with_name n = \<lparr>name = n, allocated = 0, free = 0, total = 0\<rparr>"

lemma unat_units [simp]:
  "unat KIB = 2 ^ 10" "unat MIB = 2 ^ 20" "unat GIB = 2 ^ 30" "unat TIB = 2 ^ 40"
  by (simp_all add: KIB_def MIB_def GIB_def TIB_def)

lemma unat_PAGE_SIZE [simp]: "unat PAGE_SIZE = 4096"
  by (simp add: PAGE_SIZE_def)

text \<open>
  For a power of two \<open>align_up\<close> returns the least multiple that is not below the address, and it
  panics exactly when \<open>addr + align\<close> does not fit into 64 bits.
\<close>

lemma align_up_pow2:
  assumes "k < 64"
  shows "align_up addr (2 ^ k) =
    (if unat addr + 2 ^ k < 2 ^ 64 then Some ((addr + (2 ^ k - 1)) AND NOT (mask k)) else None)"
proof -
  have "sub_chk (addr + 2 ^ k) 1 = Some (addr + (2 ^ k - 1))" if "unat addr + 2 ^ k < 2 ^ 64"
    using that assms
    by (simp add: sub_chk_def word_le_nat_alt unat_add_lem [THEN iffD1] add_diff_eq Suc_le_eq)
  moreover have "sub_chk (2 ^ k :: usize) 1 = Some (mask k)"
    using assms by (simp add: sub_chk_def word_le_nat_alt mask_eq_decr_exp)
  ultimately show ?thesis
    using assms by (simp add: align_up_def add_chk_def)
qed

lemma unat_align_up:
  assumes "k < 64" "align_up addr (2 ^ k) = Some r"
  shows "unat r = (unat addr + (2 ^ k - 1)) div 2 ^ k * 2 ^ k"
proof -
  have fits: "unat addr + 2 ^ k < 2 ^ 64" and r: "r = (addr + (2 ^ k - 1)) AND NOT (mask k)"
    using assms by (auto simp: align_up_pow2 split: if_splits)
  have "unat (2 ^ k - 1 :: usize) = 2 ^ k - 1"
    using assms(1) by (simp add: unat_sub word_le_nat_alt)
  with fits have "unat (addr + (2 ^ k - 1)) = unat addr + (2 ^ k - 1)"
    by (subst unat_add_lem [THEN iffD1]) auto
  then show ?thesis by (simp add: r unat_and_not_mask)
qed

end
