(* ===== verification/Memmap.thy ===== *)
theory Memmap
  imports Allocator
begin

text \<open>
  \<open>crates/kernel/src/memmap.rs\<close>: the constants of the kernel's virtual memory map, and the state every
  other component shares. \<open>mem\<close> is memory as the kernel addresses it, one 64-bit cell per (8-aligned)
  virtual address; \<open>phys_off\<close> is the static \<open>PHYSICAL_MEMORY_OFFSET\<close>, 0 before paging is enabled.
  All memory accesses of the modelled code are aligned 64-bit accesses, so cells do not overlap.
\<close>

definition HIGHER_HALF_START :: usize where "HIGHER_HALF_START = 0x400000000000"
definition KERNEL_PHYS_MEM_BASE :: usize where "KERNEL_PHYS_MEM_BASE = HIGHER_HALF_START + 0x0A0000000000"
definition KERNEL_STACK_BASE :: usize where "KERNEL_STACK_BASE = HIGHER_HALF_START + 0x0B0000000000"
definition KERNEL_STACK_SIZE :: usize where "KERNEL_STACK_SIZE = 1024 * 1024"
definition KERNEL_VMEM_ALLOC_BASE :: usize where "KERNEL_VMEM_ALLOC_BASE = HIGHER_HALF_START + 0x0C0000000000"

record machine =
  mem :: "usize \<Rightarrow> u64"
  phys_off :: usize

definition set_phymem_offset :: "usize \<Rightarrow> 'a machine_scheme \<Rightarrow> 'a machine_scheme" where
  "set_phymem_offset offset m = m\<lparr>phys_off := offset\<rparr>"

definition phys2virt :: "'a machine_scheme \<Rightarrow> usize \<Rightarrow> usize option" where
  "phys2virt m paddr = add_chk paddr (phys_off m)"

lemma phys2virt_eq:
  "unat p + unat (phys_off m) < 2 ^ 64 \<Longrightarrow> phys2virt m p = Some (p + phys_off m)"
  by (simp add: phys2virt_def add_chk_def)

end
