(* ===== verification/Buddy.thy ===== *)
theory Buddy
  imports Memmap "HOL-Library.Log_Nat"
begin

text \<open>
  \<open>crates/kernel/src/allocator/buddy.rs\<close>, the definitions: a buddy allocator whose free lists are
  linked through the first word of every free block. \<open>Option<NonNull<ListNode>>\<close> is an \<open>option\<close> in the
  allocator's array and its niche encoding (0 for \<open>None\<close>) in memory. Orders are \<^typ>\<open>nat\<close>: the code
  only ever increments an order below \<open>MAX_ORDER\<close>. \<open>start.add(size)\<close> on raw pointers is a checked
  addition here: a pointer sum past the address space has no defined result in the source.
\<close>

definition MAX_ORDER :: nat where
  "MAX_ORDER = 12"

definition MIN_ORDER_SIZE :: usize where
  "MIN_ORDER_SIZE = PAGE_SIZE"

definition size_for_order :: "nat \<Rightarrow> usize option" where
  "size_for_order order = do { s \<leftarrow> shl_chk 1 order; mul_chk s MIN_ORDER_SIZE }"

text \<open>\<open>usize::next_power_of_two\<close> (panics when the power does not fit) and \<open>usize::trailing_zeros\<close>.\<close>

definition next_power_of_two :: "usize \<Rightarrow> usize option" where
  "next_power_of_two x = (let k = (if x = 0 then 0 else ceillog2 (unat x)) in if k < 64 then Some (2 ^ k) else None)"

definition trailing_zeros :: "usize \<Rightarrow> nat" where
  "trailing_zeros x = length (takeWhile (\<lambda>k. \<not> bit x k) [0..<64])"

definition order_for_size :: "usize \<Rightarrow> nat option" where
  "order_for_size sz =
     do { let size1 = max sz MIN_ORDER_SIZE;
          p \<leftarrow> next_power_of_two size1;
          Some (trailing_zeros (p div MIN_ORDER_SIZE)) }"

definition buddy_of :: "usize \<Rightarrow> nat \<Rightarrow> (usize, alloc_error) result option" where
  "buddy_of block order =
     do { size \<leftarrow> size_for_order order;
          let buddy = block XOR size;
          Some (if buddy = 0 then Err NullPointer else Ok buddy) }"

text \<open>The allocator, on top of the machine whose memory holds its list nodes.\<close>

record pmem = machine +
  orders :: "usize option list"
  stats :: alloc_stats

definition buddy_new :: "'a machine_scheme \<Rightarrow> pmem" where
  "buddy_new m = \<lparr>mem = mem m, phys_off = phys_off m,
     orders = replicate MAX_ORDER None, stats = with_name ''Physical Memory''\<rparr>"

definition enc_ptr :: "usize option \<Rightarrow> u64" where
  "enc_ptr p = (case p of None \<Rightarrow> 0 | Some a \<Rightarrow> a)"

definition dec_ptr :: "u64 \<Rightarrow> usize option" where
  "dec_ptr w = (if w = 0 then None else Some w)"

section \<open>Free lists\<close>

definition order_push :: "'a pmem_scheme \<Rightarrow> nat \<Rightarrow> usize \<Rightarrow> 'a pmem_scheme option" where
  "order_push s order ptr =
     do { head \<leftarrow> nth_chk (orders s) order;
          vptr \<leftarrow> phys2virt s ptr;
          let s1 = s\<lparr>mem := (mem s)(vptr := enc_ptr head)\<rparr>;
          Some (s1\<lparr>orders := (orders s)[order := Some ptr]\<rparr>) }"

definition order_pop :: "'a pmem_scheme \<Rightarrow> nat \<Rightarrow> (usize option \<times> 'a pmem_scheme) option" where
  "order_pop s order =
     do { h \<leftarrow> nth_chk (orders s) order;
          (case h of
             None \<Rightarrow> Some (None, s)
           | Some head \<Rightarrow> do {
               vhead \<leftarrow> phys2virt s head;
               Some (Some head, s\<lparr>orders := (orders s)[order := dec_ptr (mem s vhead)]\<rparr>) }) }"

text \<open>The cursor of \<open>order_remove\<close> points to a slot of the array or to the \<open>next\<close> field of a node.\<close>

datatype cursor = Slot nat | Next usize

fun read_cursor :: "'a pmem_scheme \<Rightarrow> cursor \<Rightarrow> usize option" where
  "read_cursor s (Slot k) = orders s ! k"
| "read_cursor s (Next v) = dec_ptr (mem s v)"

fun write_cursor :: "'a pmem_scheme \<Rightarrow> cursor \<Rightarrow> usize option \<Rightarrow> 'a pmem_scheme" where
  "write_cursor s (Slot k) p = s\<lparr>orders := (orders s)[k := p]\<rparr>"
| "write_cursor s (Next v) p = s\<lparr>mem := (mem s)(v := enc_ptr p)\<rparr>"

partial_function (option) order_walk :: "'a pmem_scheme \<Rightarrow> cursor \<Rightarrow> usize \<Rightarrow> (bool \<times> 'a pmem_scheme) option" where
  "order_walk s cur to_remove =
     (case read_cursor s cur of
        None \<Rightarrow> Some (False, s)
      | Some ptr \<Rightarrow> do {
          vptr \<leftarrow> phys2virt s ptr;
          if ptr = to_remove then Some (True, write_cursor s cur (dec_ptr (mem s vptr)))
          else order_walk s (Next vptr) to_remove })"

declare order_walk.simps [code]

definition order_remove :: "'a pmem_scheme \<Rightarrow> nat \<Rightarrow> usize \<Rightarrow> (bool \<times> 'a pmem_scheme) option" where
  "order_remove s order to_remove =
     (if order < length (orders s) then order_walk s (Slot order) to_remove else Some (False, s))"

section \<open>Statistics\<close>

definition alloc_stats_upd :: "'a pmem_scheme \<Rightarrow> usize \<Rightarrow> 'a pmem_scheme option" where
  "alloc_stats_upd s sz =
     do { f \<leftarrow> sub_chk (free (stats s)) sz;
          a \<leftarrow> add_chk (allocated (stats s)) sz;
          Some (s\<lparr>stats := (stats s)\<lparr>free := f, allocated := a\<rparr>\<rparr>) }"

definition dealloc_stats_upd :: "'a pmem_scheme \<Rightarrow> usize \<Rightarrow> 'a pmem_scheme option" where
  "dealloc_stats_upd s sz =
     do { f \<leftarrow> add_chk (free (stats s)) sz;
          a \<leftarrow> sub_chk (allocated (stats s)) sz;
          Some (s\<lparr>stats := (stats s)\<lparr>free := f, allocated := a\<rparr>\<rparr>) }"

section \<open>Adding regions\<close>

text \<open>The loop of \<open>add_single_region\<close> that looks for the largest order.\<close>

function single_order :: "usize \<Rightarrow> usize \<Rightarrow> nat \<Rightarrow> (nat, alloc_error) result option" where
  "single_order start stop order =
     (if order < MAX_ORDER - 1 then do {
        size \<leftarrow> size_for_order (order + 1);
        (case add_chk start size of
           None \<Rightarrow> Some (Ok order)
         | Some new_end \<Rightarrow>
             if new_end \<le> stop then
               (if start = 0 then None
                else do {
                  b \<leftarrow> buddy_of start (order + 1);
                  (case b of
                     Err e \<Rightarrow> Some (Err e)
                   | Ok buddy \<Rightarrow>
                       if new_end \<le> stop \<and> start \<le> buddy \<and> buddy \<le> stop
                       then single_order start stop (order + 1) else Some (Ok order)) })
             else Some (Ok order)) }
      else Some (Ok order))"
  by pat_completeness auto
termination
  by (relation "measure (\<lambda>(start, stop, order). MAX_ORDER - order)") auto

declare single_order.simps [simp del]

definition add_single_region :: "'a pmem_scheme \<Rightarrow> usize \<Rightarrow> usize \<Rightarrow> ((nat, alloc_error) result \<times> 'a pmem_scheme) option" where
  "add_single_region s start stop =
     do { r \<leftarrow> single_order start stop 0;
          (case r of
             Err e \<Rightarrow> Some (Err e, s)
           | Ok order \<Rightarrow>
               if start = 0 then None
               else do {
                 s1 \<leftarrow> order_push s order start;
                 size \<leftarrow> size_for_order order;
                 t \<leftarrow> add_chk (total (stats s1)) size;
                 f \<leftarrow> add_chk (free (stats s1)) size;
                 Some (Ok order, s1\<lparr>stats := (stats s1)\<lparr>total := t, free := f\<rparr>\<rparr>) }) }"

partial_function (option) add_region_loop ::
  "'a pmem_scheme \<Rightarrow> usize \<Rightarrow> usize \<Rightarrow> usize \<Rightarrow> ((usize, alloc_error) result \<times> 'a pmem_scheme) option" where
  "add_region_loop s start stop tot =
     (if MIN_ORDER_SIZE \<le> saturating_sub stop start then do {
        (r, s1) \<leftarrow> add_single_region s start stop;
        (case r of
           Err e \<Rightarrow> Some (Err e, s1)
         | Ok order \<Rightarrow> do {
             size \<leftarrow> size_for_order order;
             start' \<leftarrow> add_chk start size;
             tot' \<leftarrow> add_chk tot size;
             add_region_loop s1 start' stop tot' }) }
      else Some (Ok tot, s))"

declare add_region_loop.simps [code]

definition add_region :: "'a pmem_scheme \<Rightarrow> usize \<Rightarrow> usize \<Rightarrow> ((usize, alloc_error) result \<times> 'a pmem_scheme) option" where
  "add_region s start0 stop =
     do { start \<leftarrow> align_up start0 MIN_ORDER_SIZE;
          if saturating_sub stop start < MIN_ORDER_SIZE then Some (Err RegionTooSmall, s)
          else if stop < start then Some (Err InvalidRegion, s)
          else add_region_loop s start stop 0 }"

section \<open>Allocation\<close>

function allocate :: "'a pmem_scheme \<Rightarrow> nat \<Rightarrow> ((usize, alloc_error) result \<times> 'a pmem_scheme) option" where
  "allocate s order =
     (if MAX_ORDER \<le> order then Some (Err OrderTooLarge, s)
      else do {
        (popped, s1) \<leftarrow> order_pop s order;
        (case popped of
           Some block \<Rightarrow> do {
             size \<leftarrow> size_for_order order;
             s2 \<leftarrow> alloc_stats_upd s1 size;
             Some (if block = 0 then Err NullPointer else Ok block, s2) }
         | None \<Rightarrow> do {
             (r, s2) \<leftarrow> allocate s1 (order + 1);
             (case r of
                Err _ \<Rightarrow> Some (Err NoMemoryAvailable, s2)
              | Ok block \<Rightarrow> do {
                  b \<leftarrow> buddy_of block order;
                  (case b of
                     Err e \<Rightarrow> Some (Err e, s2)
                   | Ok buddy \<Rightarrow> do {
                       s3 \<leftarrow> order_push s2 order buddy;
                       size \<leftarrow> size_for_order order;
                       s4 \<leftarrow> dealloc_stats_upd s3 size;
                       Some (Ok block, s4) }) }) }) })"
  by pat_completeness auto
termination
  by (relation "measure (\<lambda>(s, order). MAX_ORDER - order)") auto

declare allocate.simps [simp del]

section \<open>Deallocation\<close>

function deallocate :: "'a pmem_scheme \<Rightarrow> usize \<Rightarrow> nat \<Rightarrow> ((unit, alloc_error) result \<times> 'a pmem_scheme) option" where
  "deallocate s block order =
     do { b \<leftarrow> buddy_of block order;
          (case b of
             Err e \<Rightarrow> Some (Err e, s)
           | Ok buddy_addr \<Rightarrow> do {
               (removed, s1) \<leftarrow> order_remove s order buddy_addr;
               if removed then do {
                 size \<leftarrow> size_for_order order;
                 s2 \<leftarrow> alloc_stats_upd s1 size;
                 let new_block = min buddy_addr block;
                 let new_order = order + 1;
                 if MAX_ORDER \<le> new_order then do {
                   s3 \<leftarrow> order_push s2 order buddy_addr;
                   s4 \<leftarrow> order_push s3 order block;
                   size2 \<leftarrow> mul_chk size 2;
                   s5 \<leftarrow> dealloc_stats_upd s4 size2;
                   Some (Ok (), s5) }
                 else deallocate s2 new_block new_order }
               else do {
                 s2 \<leftarrow> order_push s1 order block;
                 size \<leftarrow> size_for_order order;
                 s3 \<leftarrow> dealloc_stats_upd s2 size;
                 Some (Ok (), s3) } }) }"
  by pat_completeness auto
termination
  by (relation "measure (\<lambda>(s, block, order). MAX_ORDER - order)") auto

declare deallocate.simps [simp del]

definition buddy_stats :: "'a pmem_scheme \<Rightarrow> alloc_stats" where
  "buddy_stats s = stats s"

lemmas [exec_defs] = align_up_def PAGE_SIZE_def MIN_ORDER_SIZE_def MAX_ORDER_def phys2virt_def
  size_for_order_def buddy_of_def order_push_def order_pop_def order_walk.simps order_remove_def
  alloc_stats_upd_def dealloc_stats_upd_def single_order.simps add_single_region_def
  add_region_loop.simps add_region_def allocate.simps deallocate.simps enc_ptr_def dec_ptr_def
  buddy_new_def with_name_def

section \<open>Sizes and orders\<close>

lemma size_for_order_eq: "k < 52 \<Longrightarrow> size_for_order k = Some (2 ^ (k + 12))"
proof -
  assume k: "k < 52"
  have "unat (2 ^ k :: usize) * 4096 = 2 ^ (k + 12)"
    using k by (simp add: power_add)
  moreover have "(2::nat) ^ (k + 12) < 2 ^ 64"
    using k by (intro power_strict_increasing) auto
  ultimately show ?thesis
    using k by (simp add: size_for_order_def shl_chk_def mul_chk_def MIN_ORDER_SIZE_def PAGE_SIZE_def
        push_bit_eq_mult power_add)
qed

lemma size_for_order_panics: "52 \<le> k \<Longrightarrow> size_for_order k = None"
proof (cases "k < 64")
  case True
  assume "52 \<le> k"
  then have "(2::nat) ^ 64 \<le> 2 ^ (k + 12)" by (intro power_increasing) auto
  then show ?thesis
    using True by (simp add: size_for_order_def shl_chk_def mul_chk_def MIN_ORDER_SIZE_def PAGE_SIZE_def
        push_bit_eq_mult power_add)
qed (simp add: size_for_order_def shl_chk_def)

lemma unat_size_pow: "k < 52 \<Longrightarrow> unat (2 ^ (k + 12) :: usize) = 2 ^ (k + 12)"
  by (rule unat_pow2) simp

lemma trailing_zeros_pow2: "k < 64 \<Longrightarrow> trailing_zeros (2 ^ k) = k"
proof -
  assume k: "k < 64"
  have "[0..<k + (64 - k)] = [0..<k] @ [k..<k + (64 - k)]"
    by (rule upt_add_eq_append) simp
  then have "[0..<64] = [0..<k] @ k # [Suc k..<64]"
    using k by (simp add: upt_conv_Cons)
  moreover have "takeWhile (\<lambda>j. \<not> bit (2 ^ k :: usize) j) ([0..<k] @ k # [Suc k..<64]) = [0..<k]"
    using k by (subst takeWhile_append2) (auto simp: bit_simps)
  ultimately have "takeWhile (\<lambda>j. \<not> bit (2 ^ k :: usize) j) [0..<64] = [0..<k]" by simp
  then show ?thesis by (simp add: trailing_zeros_def)
qed

lemma order_for_size_spec:
  "(if unat sz \<le> 2 ^ 63
    then \<exists>k. order_for_size sz = Some k \<and> unat sz \<le> 2 ^ (k + 12) \<and> (\<forall>j<k. 2 ^ (j + 12) < unat sz)
    else order_for_size sz = None)"
proof -
  let ?n = "unat (max sz MIN_ORDER_SIZE)"
  let ?l = "ceillog2 ?n"
  have n: "?n = max (unat sz) 4096" "0 < ?n"
    by (auto simp: max_def MIN_ORDER_SIZE_def word_le_nat_alt)
  then have nz: "max sz MIN_ORDER_SIZE \<noteq> 0" by (metis less_irrefl unat_0)
  have le_iff: "?l \<le> l \<longleftrightarrow> ?n \<le> 2 ^ l" for l using ceillog2_le_iff n(2) by simp
  have l12: "12 \<le> ?l" using le_iff [of 11] n by simp
  show ?thesis
  proof (cases "unat sz \<le> 2 ^ 63")
    case True
    then have "?l < 64" using le_iff [of 63] n by simp
    moreover have "unat (2 ^ ?l div MIN_ORDER_SIZE :: usize) = unat (2 ^ (?l - 12) :: usize)"
      using \<open>?l < 64\<close> l12 by (simp add: unat_div MIN_ORDER_SIZE_def power_diff)
    then have "2 ^ ?l div MIN_ORDER_SIZE = (2 ^ (?l - 12) :: usize)" by (simp add: word_unat_eq_iff)
    ultimately have "order_for_size sz = Some (?l - 12)"
      using nz by (simp add: order_for_size_def next_power_of_two_def trailing_zeros_pow2)
    moreover have "unat sz \<le> 2 ^ (?l - 12 + 12)" using le_iff [of ?l] n l12 by simp
    moreover have "2 ^ (j + 12) < unat sz" if "j < ?l - 12" for j
      using le_iff [of "j + 12"] that n by (auto simp: max_def power_add split: if_splits)
    ultimately show ?thesis using True by auto
  next
    case False
    then have "64 \<le> ?l" using le_iff [of 63] n by simp
    then show ?thesis using False nz by (simp add: order_for_size_def next_power_of_two_def)
  qed
qed

text \<open>\<open>order_for_size\<close> is the least order whose blocks hold the requested size, for every size up to
  \<open>2 ^ 63\<close>; above that the rounding to a power of two overflows and panics.\<close>

theorem order_for_size_least:
  "(if unat sz \<le> 2 ^ 63
    then \<exists>k. order_for_size sz = Some k \<and> unat sz \<le> 2 ^ (k + 12) \<and> (\<forall>j<k. 2 ^ (j + 12) < unat sz)
    else order_for_size sz = None)"
  by (rule order_for_size_spec)

theorem order_for_size_least_witness:
  "\<exists>k. order_for_size 5000 = Some k \<and> 5000 \<le> (2::nat) ^ (k + 12)"
  using order_for_size_least [of 5000] by auto

end
