(* ===== verification/Buddy_Lists.thy ===== *)
theory Buddy_Lists
  imports Buddy
begin

text \<open>
  The free lists of the buddy allocator: each linked list threaded through memory represents an
  abstract list of block addresses, and \<open>order_push\<close>, \<open>order_pop\<close> and \<open>order_remove\<close> implement
  consing, taking the head and deleting on these lists. \<open>order_remove\<close> is shown to return.
\<close>

section \<open>Linked lists in memory\<close>

primrec chain :: "(usize \<Rightarrow> u64) \<Rightarrow> usize \<Rightarrow> usize option \<Rightarrow> usize list \<Rightarrow> bool" where
  "chain h off p [] \<longleftrightarrow> p = None"
| "chain h off p (x # xs) \<longleftrightarrow>
     p = Some x \<and> x \<noteq> 0 \<and> unat x + unat off < 2 ^ 64 \<and> chain h off (dec_ptr (h (x + off))) xs"

lemma chain_None [simp]: "chain h off None xs \<longleftrightarrow> xs = []"
  by (cases xs) auto

lemma chain_Some: "chain h off (Some x) xs \<longleftrightarrow>
    (\<exists>ys. xs = x # ys \<and> x \<noteq> 0 \<and> unat x + unat off < 2 ^ 64 \<and> chain h off (dec_ptr (h (x + off))) ys)"
  by (cases xs) auto

lemma chain_frame: "x \<notin> set xs \<Longrightarrow> chain (h(x + off := v)) off p xs \<longleftrightarrow> chain h off p xs"
  by (induction xs arbitrary: p) auto

lemma chain_elem: "chain h off p xs \<Longrightarrow> x \<in> set xs \<Longrightarrow> x \<noteq> 0 \<and> unat x + unat off < 2 ^ 64"
  by (induction xs arbitrary: p) auto

lemma dec_enc_ptr [simp]: "p \<noteq> Some 0 \<Longrightarrow> dec_ptr (enc_ptr p) = p"
  by (auto simp: dec_ptr_def enc_ptr_def split: option.splits)

lemma chain_head: "chain h off p xs \<Longrightarrow> p \<noteq> Some 0"
  by (cases xs) auto

lemma dec_ptr_not_0 [simp]: "dec_ptr w \<noteq> Some 0"
  by (simp add: dec_ptr_def)

text \<open>All free lists at once.\<close>

definition free_lists :: "'a pmem_scheme \<Rightarrow> usize list list \<Rightarrow> bool" where
  "free_lists s fl \<longleftrightarrow> length (orders s) = 12 \<and> length fl = 12 \<and>
     (\<forall>k<12. chain (mem s) (phys_off s) (orders s ! k) (fl ! k)) \<and> distinct (concat fl)"

lemma free_listsD:
  assumes "free_lists s fl"
  shows "length (orders s) = 12" "length fl = 12"
    "k < 12 \<Longrightarrow> chain (mem s) (phys_off s) (orders s ! k) (fl ! k)" "k < 12 \<Longrightarrow> distinct (fl ! k)"
    "distinct (concat fl)"
  using assms by (auto simp: free_lists_def distinct_concat_iff)

lemma free_lists_disjoint:
  assumes "free_lists s fl" "j < 12" "k < 12" "j \<noteq> k" "x \<in> set (fl ! j)"
  shows "x \<notin> set (fl ! k)"
proof -
  have fl: "fl = take (max j k) fl @ fl ! max j k # drop (Suc (max j k)) fl"
    using assms(2,3) free_listsD(2) [OF assms(1)] by (intro id_take_nth_drop) simp
  have "distinct (concat (take (max j k) fl) @ fl ! max j k)"
    using free_listsD(5) [OF assms(1)] by (subst (asm) fl) auto
  moreover have "fl ! min j k \<in> set (take (max j k) fl)"
    using assms free_listsD(2) [OF assms(1)] by (auto simp: in_set_conv_nth intro!: exI [of _ "min j k"])
  ultimately have "set (fl ! min j k) \<inter> set (fl ! max j k) = {}" by auto
  then show ?thesis using assms(4,5) by (auto simp: min_def max_def split: if_splits)
qed

lemma distinct_concat_update:
  assumes "distinct (concat fl)" "k < length fl" "distinct xs"
    "\<And>x j. x \<in> set xs \<Longrightarrow> x \<in> set (fl ! k) \<or> x \<notin> set (concat fl)"
  shows "distinct (concat (fl[k := xs]))"
proof -
  have fl: "fl = take k fl @ fl ! k # drop (Suc k) fl"
    using assms(2) by (rule id_take_nth_drop)
  have upd: "fl[k := xs] = take k fl @ xs # drop (Suc k) fl"
    using assms(2) by (rule upd_conv_take_nth_drop)
  have eq: "concat fl = concat (take k fl) @ fl ! k @ concat (drop (Suc k) fl)"
    by (subst fl) simp
  then have "set xs \<inter> set (concat (take k fl)) = {}" "set xs \<inter> set (concat (drop (Suc k) fl)) = {}"
    using assms(1,4) by (auto simp del: set_concat)
  then show ?thesis
    unfolding upd using assms(1,3) eq by (auto simp del: set_concat)
qed

section \<open>The three list operations\<close>

lemma order_push_lists:
  assumes "free_lists s fl" "k < 12" "x \<noteq> 0" "unat x + unat (phys_off s) < 2 ^ 64" "x \<notin> set (concat fl)"
  obtains s' where "order_push s k x = Some s'" "free_lists s' (fl[k := x # fl ! k])"
    "s' = s\<lparr>mem := (mem s)(x + phys_off s := enc_ptr (orders s ! k)), orders := (orders s)[k := Some x]\<rparr>"
proof -
  note fl = free_listsD [OF assms(1)]
  let ?s = "s\<lparr>mem := (mem s)(x + phys_off s := enc_ptr (orders s ! k)), orders := (orders s)[k := Some x]\<rparr>"
  have push: "order_push s k x = Some ?s"
    using assms fl(1) by (simp add: order_push_def phys2virt_eq)
  have notin: "x \<notin> set (fl ! j)" if "j < 12" for j
    using assms(5) fl(2) that by auto
  have "chain (mem ?s) (phys_off ?s) (orders ?s ! j) (fl[k := x # fl ! k] ! j)" if "j < 12" for j
    using that assms(2-4) fl(1-3) chain_head [OF fl(3) [OF assms(2)]]
    by (cases "j = k") (simp_all add: chain_frame [OF notin])
  moreover have "distinct (concat (fl[k := x # fl ! k]))"
    using assms fl notin by (intro distinct_concat_update) auto
  ultimately have "free_lists ?s (fl[k := x # fl ! k])"
    using fl(1,2) by (simp add: free_lists_def)
  with push that show thesis by blast
qed

lemma order_pop_lists:
  assumes "free_lists s fl" "k < 12"
  shows "fl ! k = [] \<Longrightarrow> order_pop s k = Some (None, s)"
    and "fl ! k = x # xs \<Longrightarrow> \<exists>p. order_pop s k = Some (Some x, s\<lparr>orders := (orders s)[k := p]\<rparr>) \<and>
          free_lists (s\<lparr>orders := (orders s)[k := p]\<rparr>) (fl[k := xs])"
proof -
  note fl = free_listsD [OF assms(1)]
  show "order_pop s k = Some (None, s)" if "fl ! k = []"
    using fl(1) fl(3) [OF assms(2)] assms(2) that by (simp add: order_pop_def)
  show "\<exists>p. order_pop s k = Some (Some x, s\<lparr>orders := (orders s)[k := p]\<rparr>) \<and>
      free_lists (s\<lparr>orders := (orders s)[k := p]\<rparr>) (fl[k := xs])" if eq: "fl ! k = x # xs"
  proof -
    have c: "orders s ! k = Some x" "unat x + unat (phys_off s) < 2 ^ 64"
      "chain (mem s) (phys_off s) (dec_ptr (mem s (x + phys_off s))) xs"
      using fl(3) [OF assms(2)] eq by auto
    have "order_pop s k = Some (Some x, s\<lparr>orders := (orders s)[k := dec_ptr (mem s (x + phys_off s))]\<rparr>)"
      using c fl(1) assms(2) by (simp add: order_pop_def phys2virt_eq)
    moreover have "distinct (concat (fl[k := xs]))"
      using fl assms(2) eq by (intro distinct_concat_update) (auto dest: fl(4))
    then have "free_lists (s\<lparr>orders := (orders s)[k := dec_ptr (mem s (x + phys_off s))]\<rparr>) (fl[k := xs])"
      using fl(1-3) assms(2) c(3) by (auto simp: free_lists_def nth_list_update)
    ultimately show ?thesis by blast
  qed
qed

text \<open>
  The walk of \<open>order_remove\<close>: it returns, and where it finds the block it unlinks it by one write to
  the slot or to the \<open>next\<close> field of the predecessor, which is a block of the same list.
\<close>

lemma order_walk_absent:
  "chain (mem s) (phys_off s) (read_cursor s cur) xs \<Longrightarrow> x \<notin> set xs \<Longrightarrow>
    order_walk s cur x = Some (False, s)"
  by (induction xs arbitrary: cur; subst order_walk.simps) (auto simp: phys2virt_eq)

lemma order_walk_found:
  assumes "chain (mem s) (phys_off s) (read_cursor s cur) (xs @ x # ys)" "x \<notin> set xs"
  shows "order_walk s cur x = Some (True,
    write_cursor s (if xs = [] then cur else Next (last xs + phys_off s)) (dec_ptr (mem s (x + phys_off s))))"
  using assms
  by (induction xs arbitrary: cur; subst order_walk.simps) (auto simp: phys2virt_eq)

lemma chain_unlink:
  assumes "chain h off p (xs @ x # ys)" "distinct (xs @ x # ys)"
  shows "chain (if xs = [] then h else h(last xs + off := h (x + off))) off
    (if xs = [] then dec_ptr (h (x + off)) else p) (xs @ ys)"
  using assms
proof (induction xs arbitrary: p)
  case (Cons z zs)
  show ?case
  proof (cases "zs = []")
    case True
    then show ?thesis using Cons.prems by (simp add: chain_frame del: fun_upd_apply) simp
  next
    case False
    then have "last zs \<in> set zs" by simp
    then have "last zs \<noteq> z" using Cons.prems(2) by auto
    then show ?thesis using Cons.IH [of "dec_ptr (h (z + off))"] Cons.prems False by auto
  qed
qed simp

lemma enc_dec_ptr [simp]: "enc_ptr (dec_ptr w) = w"
  by (simp add: dec_ptr_def enc_ptr_def)

lemma order_remove_absent:
  assumes "free_lists s fl" "k < 12" "x \<notin> set (fl ! k)"
  shows "order_remove s k x = Some (False, s)"
  using free_listsD(1) [OF assms(1)] free_listsD(3) [OF assms(1,2)] assms(2,3)
  by (simp add: order_remove_def order_walk_absent [of s "Slot k" "fl ! k"])

lemma order_remove_lists:
  assumes "free_lists s fl" "k < 12" "x \<in> set (fl ! k)"
  obtains s' where "order_remove s k x = Some (True, s')" "free_lists s' (fl[k := remove1 x (fl ! k)])"
    "phys_off s' = phys_off s" "stats s' = stats s" "pmem.more s' = pmem.more s"
    "\<And>a. (\<forall>b\<in>set (fl ! k). a \<noteq> b + phys_off s) \<Longrightarrow> mem s' a = mem s a"
proof -
  note fl = free_listsD [OF assms(1)]
  obtain xs ys where eq: "fl ! k = xs @ x # ys" and x: "x \<notin> set xs"
    using split_list_first [OF assms(3)] by blast
  let ?p = "dec_ptr (mem s (x + phys_off s))"
  let ?s = "write_cursor s (if xs = [] then Slot k else Next (last xs + phys_off s)) ?p"
  have ch: "chain (mem s) (phys_off s) (orders s ! k) (xs @ x # ys)" and d: "distinct (xs @ x # ys)"
    using fl(3,4) [OF assms(2)] eq by simp_all
  have rem: "order_remove s k x = Some (True, ?s)"
    using order_walk_found [of s "Slot k"] ch x fl(1) assms(2) by (simp add: order_remove_def)
  have rm: "remove1 x (fl ! k) = xs @ ys" using eq x by (simp add: remove1_append)
  have off: "phys_off ?s = phys_off s" by simp
  have k: "chain (mem ?s) (phys_off ?s) (orders ?s ! k) (xs @ ys)"
    using chain_unlink [OF ch d] fl(1) assms(2) by (cases "xs = []") simp_all
  have other: "chain (mem ?s) (phys_off ?s) (orders ?s ! j) (fl ! j)" if "j < 12" "j \<noteq> k" for j
  proof (cases "xs = []")
    case False
    then have "last xs \<in> set (fl ! k)" using eq by simp
    then have "last xs \<notin> set (fl ! j)" using free_lists_disjoint [OF assms(1)] that assms(2) by metis
    then show ?thesis using fl(3) [OF that(1)] False by (simp add: chain_frame)
  qed (use fl(3) that in simp)
  have "distinct (concat (fl[k := xs @ ys]))"
    using fl assms(2) d eq by (intro distinct_concat_update) auto
  then have lists: "free_lists ?s (fl[k := remove1 x (fl ! k)])"
    unfolding rm free_lists_def using fl(1,2) k other assms(2) by (auto simp: nth_list_update)
  have frame: "mem ?s a = mem s a" if "\<forall>b\<in>set (fl ! k). a \<noteq> b + phys_off s" for a
  proof (cases "xs = []")
    case False
    then have "last xs \<in> set (fl ! k)" using eq by simp
    then show ?thesis using that False by auto
  qed simp
  show thesis using rem lists frame by (intro that [of ?s]) auto
qed

end
