(* ===== verification/Buddy_Inv.thy ===== *)
theory Buddy_Inv
  imports Buddy_Lists
begin

text \<open>
  The invariant of the buddy allocator. Every free block is aligned to its size, lies above
  \<open>2 ^ 24\<close> (so that no buddy is the null pointer) and below the end of the mapped address space; free
  blocks are pairwise disjoint; and the statistics count exactly the free bytes. The list operations
  keep it, adding or removing the bytes of one block.
\<close>

definition block_bytes :: "nat \<Rightarrow> usize \<Rightarrow> nat set" where
  "block_bytes k b = {unat b ..< unat b + 2 ^ (k + 12)}"

definition free_bytes :: "usize list list \<Rightarrow> nat set" where
  "free_bytes fl = (\<Union>k<12. \<Union>b\<in>set (fl ! k). block_bytes k b)"

definition block_ok :: "usize \<Rightarrow> nat \<Rightarrow> usize \<Rightarrow> bool" where
  "block_ok off k b \<longleftrightarrow> 2 ^ (k + 12) dvd unat b \<and> 2 ^ 24 \<le> unat b \<and> unat b + 2 ^ (k + 12) + unat off \<le> 2 ^ 64"

definition blocks_inv :: "'a pmem_scheme \<Rightarrow> usize list list \<Rightarrow> bool" where
  "blocks_inv s fl \<longleftrightarrow> free_lists s fl \<and> (\<forall>k<12. \<forall>b\<in>set (fl ! k). block_ok (phys_off s) k b) \<and>
     (\<forall>j<12. \<forall>k<12. \<forall>a\<in>set (fl ! j). \<forall>b\<in>set (fl ! k). (j, a) \<noteq> (k, b) \<longrightarrow> block_bytes j a \<inter> block_bytes k b = {})"

definition stats_inv :: "alloc_stats \<Rightarrow> nat set \<Rightarrow> bool" where
  "stats_inv st F \<longleftrightarrow> unat (free st) = card F \<and> unat (allocated st) + unat (free st) = unat (total st)"

definition buddy_inv :: "'a pmem_scheme \<Rightarrow> usize list list \<Rightarrow> bool" where
  "buddy_inv s fl \<longleftrightarrow> blocks_inv s fl \<and> stats_inv (stats s) (free_bytes fl)"

text \<open>Only the first word of blocks within \<open>F\<close> may have been written.\<close>

definition frame :: "nat set \<Rightarrow> 'a pmem_scheme \<Rightarrow> 'a pmem_scheme \<Rightarrow> bool" where
  "frame F s s' \<longleftrightarrow> phys_off s' = phys_off s \<and> pmem.more s' = pmem.more s \<and>
     (\<forall>x. unat x \<notin> F \<longrightarrow> mem s' (x + phys_off s) = mem s (x + phys_off s))"

lemma frame_refl [simp]: "frame F s s"
  by (simp add: frame_def)

lemma frame_trans: "frame F s s' \<Longrightarrow> frame G s' s'' \<Longrightarrow> F \<subseteq> H \<Longrightarrow> G \<subseteq> H \<Longrightarrow> frame H s s''"
  unfolding frame_def by (metis subsetD)

lemma frame_mono: "frame F s s' \<Longrightarrow> F \<subseteq> G \<Longrightarrow> frame G s s'"
  by (auto simp: frame_def)

lemma frame_stats [simp]: "frame F s (s'\<lparr>stats := st\<rparr>) \<longleftrightarrow> frame F s s'"
  "frame F (s\<lparr>stats := st\<rparr>) s' \<longleftrightarrow> frame F s s'"
  by (simp_all add: frame_def)

section \<open>Spans\<close>

lemma block_bytes_card [simp]: "card (block_bytes k b) = 2 ^ (k + 12)"
  by (simp add: block_bytes_def)

lemma block_bytes_finite [simp]: "finite (block_bytes k b)"
  by (simp add: block_bytes_def)

lemma block_bytes_start [simp]: "unat b \<in> block_bytes k b"
  by (simp add: block_bytes_def)

lemma free_bytes_finite [simp]: "finite (free_bytes fl)"
  by (simp add: free_bytes_def)

lemma in_free_bytes: "k < 12 \<Longrightarrow> b \<in> set (fl ! k) \<Longrightarrow> block_bytes k b \<subseteq> free_bytes fl"
  by (auto simp: free_bytes_def)

lemma free_bytes_cons:
  "k < 12 \<Longrightarrow> length fl = 12 \<Longrightarrow> free_bytes (fl[k := b # fl ! k]) = free_bytes fl \<union> block_bytes k b"
  unfolding free_bytes_def
  by (rule set_eqI) (simp add: nth_list_update Bex_def, metis)

lemma blocks_invD:
  assumes "blocks_inv s fl"
  shows "free_lists s fl" "length fl = 12"
    "k < 12 \<Longrightarrow> b \<in> set (fl ! k) \<Longrightarrow> block_ok (phys_off s) k b"
    "j < 12 \<Longrightarrow> k < 12 \<Longrightarrow> a \<in> set (fl ! j) \<Longrightarrow> b \<in> set (fl ! k) \<Longrightarrow> (j, a) \<noteq> (k, b) \<Longrightarrow>
      block_bytes j a \<inter> block_bytes k b = {}"
  using assms free_listsD(2) unfolding blocks_inv_def by blast+

text \<open>Taking one block out of its list takes exactly its bytes out of the free bytes.\<close>

lemma free_bytes_remove:
  assumes "blocks_inv s fl" "k < 12" "b \<in> set (fl ! k)" "set bs = set (fl ! k) - {b}"
  shows "free_bytes (fl[k := bs]) = free_bytes fl - block_bytes k b"
proof -
  note inv = blocks_invD [OF assms(1)]
  have sp: "block_bytes j a \<inter> block_bytes k b = {}" if "j < 12" "a \<in> set (fl ! j)" "(j, a) \<noteq> (k, b)" for j a
    using inv(4) [OF that(1) assms(2) that(2) assms(3) that(3)] .
  have upd: "set (fl[k := bs] ! j) = (if j = k then set (fl ! k) - {b} else set (fl ! j))" for j
    using assms(2,4) inv(2) by (auto simp: nth_list_update)
  show ?thesis
  proof (rule set_eqI)
    fix x
    have "(\<exists>j<12. \<exists>a. a \<in> set (fl[k := bs] ! j) \<and> x \<in> block_bytes j a) \<longleftrightarrow>
        (\<exists>j<12. \<exists>a. (a \<in> set (fl ! j) \<and> (j, a) \<noteq> (k, b)) \<and> x \<in> block_bytes j a)"
      unfolding upd by auto
    also have "\<dots> \<longleftrightarrow> (\<exists>j<12. \<exists>a. a \<in> set (fl ! j) \<and> x \<in> block_bytes j a) \<and> x \<notin> block_bytes k b"
      using sp by blast
    finally have "(\<exists>j<12. \<exists>a\<in>set (fl[k := bs] ! j). x \<in> block_bytes j a) \<longleftrightarrow>
        (\<exists>j<12. \<exists>a\<in>set (fl ! j). x \<in> block_bytes j a) \<and> x \<notin> block_bytes k b"
      by (simp add: Bex_def)
    then show "x \<in> free_bytes (fl[k := bs]) \<longleftrightarrow> x \<in> free_bytes fl - block_bytes k b"
      by (simp add: free_bytes_def Bex_def)
  qed
qed

lemma blocks_inv_shrink:
  assumes "blocks_inv s fl" "free_lists s' (fl[k := bs])" "set bs \<subseteq> set (fl ! k)" "phys_off s' = phys_off s"
  shows "blocks_inv s' (fl[k := bs])"
proof -
  have sub: "set (fl[k := bs] ! j) \<subseteq> set (fl ! j)" if "j < 12" for j
    using assms(3) that blocks_invD(2) [OF assms(1)] by (cases "j = k") auto
  then show ?thesis
    using assms(1,2) unfolding blocks_inv_def assms(4) by (meson subsetD)
qed

lemma block_ok_start: "block_ok off k b \<Longrightarrow> b \<noteq> 0 \<and> unat b + unat off < 2 ^ 64"
proof -
  have pos: "0 < (2::nat) ^ (k + 12)" by simp
  assume "block_ok off k b"
  then have b: "2 ^ 24 \<le> unat b" "unat b + 2 ^ (k + 12) + unat off \<le> 2 ^ 64"
    unfolding block_ok_def by blast+
  have "unat b + unat off < 2 ^ 64" using b(2) pos by linarith
  then show ?thesis using b(1) by auto
qed

section \<open>The list operations keep the invariant\<close>

lemma push_inv:
  assumes "blocks_inv s fl" "k < 12" "block_ok (phys_off s) k b" "block_bytes k b \<inter> free_bytes fl = {}"
  obtains s' where "order_push s k b = Some s'" "blocks_inv s' (fl[k := b # fl ! k])"
    "free_bytes (fl[k := b # fl ! k]) = free_bytes fl \<union> block_bytes k b" "frame (block_bytes k b) s s'" "stats s' = stats s"
proof -
  note inv = blocks_invD [OF assms(1)]
  have nz: "b \<noteq> 0" "unat b + unat (phys_off s) < 2 ^ 64"
    using block_ok_start [OF assms(3)] by auto
  have disj: "block_bytes j a \<inter> block_bytes k b = {}" if "j < 12" "a \<in> set (fl ! j)" for j a
    using in_free_bytes [OF that] assms(4) by auto
  have new: "b \<notin> set (fl ! j)" if "j < 12" for j
    using disj [OF that, of b] block_bytes_start by blast
  have "b \<notin> set (concat fl)"
    using new inv(2) by (auto simp: in_set_conv_nth [of _ fl])
  then obtain s' where s': "order_push s k b = Some s'" "free_lists s' (fl[k := b # fl ! k])"
    "s' = s\<lparr>mem := (mem s)(b + phys_off s := enc_ptr (orders s ! k)), orders := (orders s)[k := Some b]\<rparr>"
    using order_push_lists [OF inv(1) assms(2) nz] by blast
  have upd: "fl[k := b # fl ! k] ! j = (if j = k then b # fl ! k else fl ! j)" for j
    using assms(2) inv(2) by (auto simp: nth_list_update)
  have "blocks_inv s' (fl[k := b # fl ! k])"
    unfolding blocks_inv_def upd using s'(2,3) assms(2,3) inv disj
    by (auto split: if_splits simp: Int_commute)
  moreover have "frame (block_bytes k b) s s'"
    using s'(3) by (auto simp: frame_def)
  ultimately show thesis
    using s' free_bytes_cons [OF assms(2) inv(2)] by (intro that [of s']) auto
qed

lemma pop_inv:
  assumes "blocks_inv s fl" "k < 12" "fl ! k = b # bs"
  obtains s' where "order_pop s k = Some (Some b, s')" "blocks_inv s' (fl[k := bs])"
    "free_bytes (fl[k := bs]) = free_bytes fl - block_bytes k b" "frame {} s s'" "stats s' = stats s"
proof -
  note inv = blocks_invD [OF assms(1)]
  obtain p where p: "order_pop s k = Some (Some b, s\<lparr>orders := (orders s)[k := p]\<rparr>)"
    "free_lists (s\<lparr>orders := (orders s)[k := p]\<rparr>) (fl[k := bs])"
    using order_pop_lists(2) [OF inv(1) assms(2,3)] by blast
  have "b \<notin> set bs" using free_listsD(4) [OF inv(1) assms(2)] assms(3) by simp
  then have "free_bytes (fl[k := bs]) = free_bytes fl - block_bytes k b"
    using assms(3) by (intro free_bytes_remove [OF assms(1,2)]) auto
  moreover have "blocks_inv (s\<lparr>orders := (orders s)[k := p]\<rparr>) (fl[k := bs])"
    using blocks_inv_shrink [OF assms(1) p(2)] assms(3) by auto
  ultimately show thesis using p(1) 
    by (intro that [of "s\<lparr>orders := (orders s)[k := p]\<rparr>"]) (auto simp: frame_def)
qed

lemma remove_inv:
  assumes "blocks_inv s fl" "k < 12" "b \<in> set (fl ! k)"
  obtains s' where "order_remove s k b = Some (True, s')" "blocks_inv s' (fl[k := remove1 b (fl ! k)])"
    "free_bytes (fl[k := remove1 b (fl ! k)]) = free_bytes fl - block_bytes k b"
    "frame (free_bytes fl) s s'" "stats s' = stats s"
proof -
  note inv = blocks_invD [OF assms(1)]
  obtain s' where s': "order_remove s k b = Some (True, s')" "free_lists s' (fl[k := remove1 b (fl ! k)])"
    "phys_off s' = phys_off s" "stats s' = stats s" "pmem.more s' = pmem.more s"
    "\<And>a. (\<forall>b\<in>set (fl ! k). a \<noteq> b + phys_off s) \<Longrightarrow> mem s' a = mem s a"
    using order_remove_lists [OF inv(1) assms(2,3)] by blast
  have set: "set (remove1 b (fl ! k)) = set (fl ! k) - {b}"
    using free_listsD(4) [OF inv(1) assms(2)] by (rule set_remove1_eq)
  have "mem s' (x + phys_off s) = mem s (x + phys_off s)" if "unat x \<notin> free_bytes fl" for x
    using s'(6) in_free_bytes [OF assms(2)] that block_bytes_start by (metis (no_types, lifting) add_right_cancel subsetD)
  then have "frame (free_bytes fl) s s'" using s'(3,5) by (simp add: frame_def)
  moreover have "blocks_inv s' (fl[k := remove1 b (fl ! k)])"
    using blocks_inv_shrink [OF assms(1) s'(2) _ s'(3)] set by auto
  ultimately show thesis
    using s'(1,4) free_bytes_remove [OF assms set] by (intro that)
qed

end
