(* ===== verification/Buddy_Correct.thy ===== *)
theory Buddy_Correct
  imports Buddy_Inv
begin

text \<open>
  Correctness of \<open>allocate\<close> and \<open>deallocate\<close> of the buddy allocator on every state that satisfies the
  invariant: the block handed out is aligned, was free and is no longer; freeing gives exactly its
  bytes back, merging buddies; both return, keep the statistics exact, and write to memory only
  inside free blocks.
\<close>

lemma bit_unat_odd: "bit b n \<longleftrightarrow> odd (unat b div 2 ^ n)" for b :: "'a::len word"
  using bit_imp_le_length [of b n] bit_iff_odd [of "unat b" n] by (auto simp: bit_unsigned_iff)

section \<open>Buddies\<close>

lemma pow_Suc_12: "2 ^ (Suc k + 12) = 2 * (2::nat) ^ (k + 12)"
  by (simp only: add_Suc power_Suc)

lemma unat_buddy:
  "k < 52 \<Longrightarrow> unat (b XOR 2 ^ (k + 12) :: usize) =
    (if odd (unat b div 2 ^ (k + 12)) then unat b - 2 ^ (k + 12) else unat b + 2 ^ (k + 12))"
  by (simp add: unat_xor_pow2 bit_unat_odd)

lemma buddy_aligned:
  assumes "2 ^ n dvd (x::nat)"
  shows "odd (x div 2 ^ n) \<Longrightarrow> 2 ^ n \<le> x \<and> 2 * 2 ^ n dvd x - 2 ^ n"
    and "even (x div 2 ^ n) \<Longrightarrow> 2 * 2 ^ n dvd x"
proof -
  obtain q where q: "x = 2 ^ n * q" using assms by (elim dvdE)
  then have d: "x div 2 ^ n = q" by simp
  show "2 ^ n \<le> x \<and> 2 * 2 ^ n dvd x - 2 ^ n" if "odd (x div 2 ^ n)"
    using that unfolding d q by (elim oddE) (auto simp: algebra_simps)
  show "2 * 2 ^ n dvd x" if "even (x div 2 ^ n)"
    using that unfolding d q by (elim evenE) auto
qed

lemma even_div_aligned: "2 * 2 ^ n dvd (x::nat) \<Longrightarrow> even (x div 2 ^ n)"
  by (elim dvdE) simp

lemma high_block:
  assumes "2 ^ n dvd (x::nat)" "2 ^ 24 \<le> x" "n < 24"
  shows "2 ^ 24 + (if odd (x div 2 ^ n) then 2 ^ n else 0) \<le> x"
proof (cases "odd (x div 2 ^ n)")
  case True
  have ne: "x div 2 ^ n \<noteq> 2 ^ (24 - n)" using True assms(3) by auto
  have e: "(2::nat) ^ 24 = 2 ^ (24 - n) * 2 ^ n" using assms(3) by (simp flip: power_add)
  obtain q where q: "x = 2 ^ n * q" using assms by (elim dvdE)
  then have d: "x div 2 ^ n = q" by simp
  have "2 ^ (24 - n) \<le> q" using assms(2) unfolding e q by simp
  with ne d have "2 ^ (24 - n) + 1 \<le> q" by simp
  then have "(2 ^ (24 - n) + 1) * 2 ^ n \<le> q * 2 ^ n" by (rule mult_le_mono1)
  then show ?thesis using True unfolding e q by (simp add: algebra_simps)
qed (use assms in simp)

lemma buddy_of_ok:
  assumes "k < 12" "2 ^ (k + 12) dvd unat b" "2 ^ 24 \<le> unat b"
  shows "buddy_of b k = Some (Ok (b XOR 2 ^ (k + 12)))" "2 ^ 24 \<le> unat (b XOR 2 ^ (k + 12))"
proof -
  show ge: "2 ^ 24 \<le> unat (b XOR 2 ^ (k + 12))"
    using assms(1,3) high_block [OF assms(2,3)] by (auto simp: unat_buddy split: if_splits)
  then have "b XOR 2 ^ (k + 12) \<noteq> 0" by (intro notI) simp
  then show "buddy_of b k = Some (Ok (b XOR 2 ^ (k + 12)))"
    using assms(1) by (simp add: buddy_of_def size_for_order_eq)
qed

lemma buddy_split:
  assumes "k < 11" "block_ok off (Suc k) b"
  shows "block_ok off k b" "block_ok off k (b XOR 2 ^ (k + 12))"
    "block_bytes (Suc k) b = block_bytes k b \<union> block_bytes k (b XOR 2 ^ (k + 12))"
    "block_bytes k b \<inter> block_bytes k (b XOR 2 ^ (k + 12)) = {}"
proof -
  let ?d = "2 ^ (k + 12) :: nat"
  have b: "2 * ?d dvd unat b" "2 ^ 24 \<le> unat b" "unat b + 2 * ?d + unat off \<le> 2 ^ 64"
    using assms(2) unfolding block_ok_def pow_Suc_12 by blast+
  have c: "unat (b XOR 2 ^ (k + 12)) = unat b + ?d"
    using b(1) assms(1) even_div_aligned [of "k + 12"] by (simp add: unat_buddy)
  have d: "?d dvd unat b" using b(1) by (rule dvd_mult_right)
  show "block_ok off k b" "block_ok off k (b XOR 2 ^ (k + 12))"
    unfolding block_ok_def c using b d by auto
  show "block_bytes (Suc k) b = block_bytes k b \<union> block_bytes k (b XOR 2 ^ (k + 12))"
    "block_bytes k b \<inter> block_bytes k (b XOR 2 ^ (k + 12)) = {}"
    unfolding block_bytes_def c pow_Suc_12 by auto
qed

lemma buddy_merge:
  assumes "k < 11" "block_ok off k b" "block_ok off k (b XOR 2 ^ (k + 12))"
  defines "m \<equiv> min (b XOR 2 ^ (k + 12)) b"
  shows "block_ok off (Suc k) m"
    "block_bytes (Suc k) m = block_bytes k b \<union> block_bytes k (b XOR 2 ^ (k + 12))"
proof -
  let ?d = "2 ^ (k + 12) :: nat" and ?c = "b XOR 2 ^ (k + 12)"
  have b: "?d dvd unat b" "2 ^ 24 \<le> unat b" "unat b + ?d + unat off \<le> 2 ^ 64"
    and c: "2 ^ 24 \<le> unat ?c" "unat ?c + ?d + unat off \<le> 2 ^ 64"
    using assms(2,3) unfolding block_ok_def by blast+
  have pos: "0 < ?d" by simp
  note al = buddy_aligned [OF b(1)]
  have m: "unat m = min (unat ?c) (unat b)" by (simp add: m_def min_def word_le_nat_alt)
  have "unat m = (if odd (unat b div ?d) then unat b - ?d else unat b)"
    unfolding m using unat_buddy [of k b] assms(1) by auto
  then have "2 * ?d dvd unat m \<and> 2 ^ 24 \<le> unat m \<and> unat m + 2 * ?d + unat off \<le> 2 ^ 64 \<and>
    {unat m ..< unat m + 2 * ?d} = {unat b ..< unat b + ?d} \<union> {unat ?c ..< unat ?c + ?d}"
    using al b(2,3) c unat_buddy [of k b] assms(1) by (cases "odd (unat b div ?d)") auto
  then show "block_ok off (Suc k) m" "block_bytes (Suc k) m = block_bytes k b \<union> block_bytes k ?c"
    unfolding block_ok_def block_bytes_def pow_Suc_12 by blast+
qed

section \<open>Statistics\<close>

lemma alloc_stats_ok:
  assumes "stats_inv (stats s) F" "k < 52" "block_bytes k b \<subseteq> F" "finite F"
  obtains s' where "alloc_stats_upd s (2 ^ (k + 12)) = Some s'" "s' = s\<lparr>stats := stats s'\<rparr>"
    "stats_inv (stats s') (F - block_bytes k b)" "total (stats s') = total (stats s)"
proof -
  let ?st = "stats s"
  have size: "2 ^ (k + 12) = unat (2 ^ (k + 12) :: usize)" using assms(2) by (simp add: unat_size_pow)
  have le: "2 ^ (k + 12) \<le> unat (free ?st)"
    using card_mono [OF assms(4,3)] assms(1) by (simp add: stats_inv_def)
  obtain f where f: "sub_chk (free ?st) (2 ^ (k + 12)) = Some f" "unat f = unat (free ?st) - 2 ^ (k + 12)"
    using le size by (simp add: sub_chk_def word_le_nat_alt unat_sub)
  have sum: "unat (allocated ?st) + 2 ^ (k + 12) < 2 ^ 64"
    using le assms(1) unat_less_2p [of "total ?st"] by (simp add: stats_inv_def)
  then obtain a where a: "add_chk (allocated ?st) (2 ^ (k + 12)) = Some a" "unat a = unat (allocated ?st) + 2 ^ (k + 12)"
    using size by (simp add: add_chk_def unat_add_lem [THEN iffD1])
  have "card (F - block_bytes k b) = card F - 2 ^ (k + 12)"
    using card_Diff_subset [OF block_bytes_finite assms(3)] by simp
  then show thesis
    using f a le assms(1)
    by (intro that [of "s\<lparr>stats := ?st\<lparr>free := f, allocated := a\<rparr>\<rparr>"]) (simp_all add: alloc_stats_upd_def stats_inv_def)
qed

lemma dealloc_stats_ok:
  assumes "stats_inv (stats s) F" "k < 52" "B \<inter> F = {}" "finite F" "finite B" "card B = 2 ^ (k + 12)"
    "2 ^ (k + 12) \<le> unat (allocated (stats s))"
  obtains s' where "dealloc_stats_upd s (2 ^ (k + 12)) = Some s'" "s' = s\<lparr>stats := stats s'\<rparr>"
    "stats_inv (stats s') (F \<union> B)" "total (stats s') = total (stats s)"
proof -
  let ?st = "stats s"
  have size: "2 ^ (k + 12) = unat (2 ^ (k + 12) :: usize)" using assms(2) by (simp add: unat_size_pow)
  obtain a where a: "sub_chk (allocated ?st) (2 ^ (k + 12)) = Some a" "unat a = unat (allocated ?st) - 2 ^ (k + 12)"
    using assms(7) size by (simp add: sub_chk_def word_le_nat_alt unat_sub)
  have sum: "unat (free ?st) + 2 ^ (k + 12) < 2 ^ 64"
    using assms(1,7) unat_less_2p [of "total ?st"] by (simp add: stats_inv_def)
  then obtain f where f: "add_chk (free ?st) (2 ^ (k + 12)) = Some f" "unat f = unat (free ?st) + 2 ^ (k + 12)"
    using size by (simp add: add_chk_def unat_add_lem [THEN iffD1])
  have "card (F \<union> B) = card F + 2 ^ (k + 12)"
    using card_Un_disjoint [of F B] assms(3-6) by (simp add: Int_commute)
  then show thesis
    using f a assms(1,7)
    by (intro that [of "s\<lparr>stats := ?st\<lparr>free := f, allocated := a\<rparr>\<rparr>"]) (simp_all add: dealloc_stats_upd_def stats_inv_def)
qed

lemma stats_inv_allocated:
  assumes "stats_inv st F" "stats_inv st' (F - B)" "total st' = total st" "B \<subseteq> F" "finite F"
  shows "unat (allocated st') = unat (allocated st) + card B"
proof -
  have "card (F - B) + card B = card F"
    using card_Diff_subset [OF finite_subset [OF assms(4,5)] assms(4)] card_mono [OF assms(5,4)] by simp
  then show ?thesis using assms(1-3) by (simp add: stats_inv_def)
qed

lemma blocks_inv_stats [simp]: "blocks_inv (s\<lparr>stats := st\<rparr>) fl \<longleftrightarrow> blocks_inv s fl"
  by (simp add: blocks_inv_def free_lists_def)

section \<open>Allocation\<close>

text \<open>What a successful allocation promises.\<close>

definition allocates :: "'a pmem_scheme \<Rightarrow> usize list list \<Rightarrow> nat \<Rightarrow> usize \<Rightarrow> 'a pmem_scheme \<Rightarrow> usize list list \<Rightarrow> bool" where
  "allocates s fl k b s' fl' \<longleftrightarrow> buddy_inv s' fl' \<and> block_ok (phys_off s) k b \<and> block_bytes k b \<subseteq> free_bytes fl \<and>
     free_bytes fl' = free_bytes fl - block_bytes k b \<and> frame (free_bytes fl) s s' \<and>
     total (stats s') = total (stats s)"

lemma allocate_pop:
  assumes "buddy_inv s fl" "k < 12" "fl ! k = b # bs"
  shows "\<exists>s'. allocate s k = Some (Ok b, s') \<and> allocates s fl k b s' (fl[k := bs])"
proof -
  have inv: "blocks_inv s fl" "stats_inv (stats s) (free_bytes fl)" using assms(1) by (simp_all add: buddy_inv_def)
  obtain s1 where s1: "order_pop s k = Some (Some b, s1)" "blocks_inv s1 (fl[k := bs])"
    "free_bytes (fl[k := bs]) = free_bytes fl - block_bytes k b" "frame {} s s1" "stats s1 = stats s"
    using pop_inv [OF inv(1) assms(2,3)] by blast
  have ok: "block_ok (phys_off s) k b" and sub: "block_bytes k b \<subseteq> free_bytes fl"
    using blocks_invD(3) [OF inv(1)] in_free_bytes assms(2,3) by auto
  obtain s2 where s2: "alloc_stats_upd s1 (2 ^ (k + 12)) = Some s2" "s2 = s1\<lparr>stats := stats s2\<rparr>"
    "stats_inv (stats s2) (free_bytes fl - block_bytes k b)" "total (stats s2) = total (stats s1)"
    using alloc_stats_ok [of s1 "free_bytes fl" k b] inv(2) s1(5) sub assms(2) by auto
  have "allocate s k = Some (Ok b, s2)"
    using s1(1) s2(1) assms(2) block_ok_start [OF ok]
    by (subst allocate.simps) (simp add: MAX_ORDER_def size_for_order_eq)
  moreover have "blocks_inv s2 (fl[k := bs])" "frame {} s s2" using s1(2,4) s2(2) by (metis blocks_inv_stats frame_stats(1))+
  ultimately show ?thesis
    using s2(3,4) s1(3,5) ok sub by (auto simp: allocates_def buddy_inv_def intro: frame_mono)
qed

lemma allocate_split:
  assumes "k < 11" "buddy_inv s fl" "fl ! k = []" "allocate s (Suc k) = Some (Ok b, s1)"
    "allocates s fl (Suc k) b s1 fl1"
  shows "\<exists>s' fl'. allocate s k = Some (Ok b, s') \<and> allocates s fl k b s' fl'"
proof -
  have inv: "blocks_inv s fl" "stats_inv (stats s) (free_bytes fl)" using assms(2) by (simp_all add: buddy_inv_def)
  have a: "blocks_inv s1 fl1" "stats_inv (stats s1) (free_bytes fl1)" "block_ok (phys_off s) (Suc k) b"
    "block_bytes (Suc k) b \<subseteq> free_bytes fl" "free_bytes fl1 = free_bytes fl - block_bytes (Suc k) b"
    "frame (free_bytes fl) s s1" "total (stats s1) = total (stats s)" "phys_off s1 = phys_off s"
    using assms(5) by (auto simp: allocates_def buddy_inv_def frame_def)
  let ?c = "b XOR 2 ^ (k + 12)"
  note split = buddy_split [OF assms(1) a(3)]
  obtain s2 where s2: "order_push s1 k ?c = Some s2" "blocks_inv s2 (fl1[k := ?c # fl1 ! k])"
    "free_bytes (fl1[k := ?c # fl1 ! k]) = free_bytes fl1 \<union> block_bytes k ?c" "frame (block_bytes k ?c) s1 s2"
    "stats s2 = stats s1"
    using push_inv [OF a(1), of k ?c] assms(1) split(2,3) a(5,8) by auto
  have "unat (allocated (stats s1)) = unat (allocated (stats s)) + 2 ^ (Suc k + 12)"
    using stats_inv_allocated [OF inv(2), of "stats s1" "block_bytes (Suc k) b"] a(2,4,5,7) by simp
  then have "2 ^ (k + 12) \<le> unat (allocated (stats s2))" unfolding s2(5) pow_Suc_12 by simp
  then obtain s3 where s3: "dealloc_stats_upd s2 (2 ^ (k + 12)) = Some s3" "s3 = s2\<lparr>stats := stats s3\<rparr>"
    "stats_inv (stats s3) (free_bytes fl1 \<union> block_bytes k ?c)" "total (stats s3) = total (stats s2)"
    using dealloc_stats_ok [of s2 "free_bytes fl1" k "block_bytes k ?c"] a(2,5) s2(5) assms(1) split(3) by auto
  have "buddy_of b k = Some (Ok ?c)" using buddy_of_ok(1) [of k b] assms(1) split(1) by (simp add: block_ok_def)
  then have alloc: "allocate s k = Some (Ok b, s3)"
    using s2(1) s3(1) assms(1,4) order_pop_lists(1) [OF blocks_invD(1) [OF inv(1)] _ assms(3)]
    by (subst allocate.simps) (simp add: MAX_ORDER_def size_for_order_eq)
  have "blocks_inv s3 (fl1[k := ?c # fl1 ! k])" "frame (block_bytes k ?c) s1 s3"
    using s2(2,4) s3(2) by (metis blocks_inv_stats frame_stats(1))+
  moreover have "free_bytes fl1 \<union> block_bytes k ?c = free_bytes fl - block_bytes k b"
    "block_bytes k b \<subseteq> free_bytes fl" "block_bytes k ?c \<subseteq> free_bytes fl"
    using a(4,5) split(3,4) by auto
  moreover have "frame (free_bytes fl) s s3"
    using frame_trans [OF a(6) \<open>frame _ s1 s3\<close>] \<open>block_bytes k ?c \<subseteq> _\<close> by simp
  ultimately show ?thesis
    using alloc s2(3,5) s3(3,4) a(7) split(1) by (auto simp: allocates_def buddy_inv_def)
qed

lemma allocate_ok:
  assumes "buddy_inv s fl" "k \<le> j" "j < 12" "fl ! j \<noteq> []"
  shows "\<exists>b s' fl'. allocate s k = Some (Ok b, s') \<and> allocates s fl k b s' fl'"
  using assms(2)
proof (induction k rule: inc_induct)
  case base
  obtain b bs where "fl ! j = b # bs" using assms(4) by (meson neq_Nil_conv)
  then show ?case using allocate_pop [OF assms(1,3)] by blast
next
  case (step k)
  show ?case
  proof (cases "fl ! k")
    case Nil
    obtain b s1 fl1 where "allocate s (Suc k) = Some (Ok b, s1)" "allocates s fl (Suc k) b s1 fl1"
      using step.IH by blast
    then show ?thesis using allocate_split [OF _ assms(1) Nil] step.hyps assms(3) by fastforce
  next
    case (Cons b bs)
    then show ?thesis using allocate_pop [OF assms(1) _ Cons] step(2) assms(3) by fastforce
  qed
qed

lemma allocate_none:
  assumes "buddy_inv s fl" "k < 12" "\<And>j. k \<le> j \<Longrightarrow> j < 12 \<Longrightarrow> fl ! j = []"
  shows "allocate s k = Some (Err NoMemoryAvailable, s)"
proof -
  have inv: "blocks_inv s fl" using assms(1) by (simp add: buddy_inv_def)
  have pop: "order_pop s j = Some (None, s)" if "k \<le> j" "j < 12" for j
    using order_pop_lists(1) [OF blocks_invD(1) [OF inv]] that assms(3) by blast
  have "k \<le> 11" using assms(2) by simp
  then show ?thesis
  proof (induction k rule: inc_induct)
    case base
    show ?case using pop [of 11] assms(2) by (subst allocate.simps, subst allocate.simps) (simp add: MAX_ORDER_def)
  next
    case (step n)
    then show ?case using pop [of n] by (subst allocate.simps) (simp add: MAX_ORDER_def)
  qed
qed

lemma allocate_too_large: "12 \<le> k \<Longrightarrow> allocate s k = Some (Err OrderTooLarge, s)"
  by (subst allocate.simps) (simp add: MAX_ORDER_def)

lemma allocate_cases:
  assumes "buddy_inv s fl"
  obtains (fails) e where "allocate s k = Some (Err e, s)"
  | (block) b s' fl' where "k < 12" "allocate s k = Some (Ok b, s')" "allocates s fl k b s' fl'"
  using allocate_too_large [of k s] allocate_ok [OF assms, of k] allocate_none [OF assms, of k] not_less by metis

section \<open>Deallocation\<close>

definition deallocates :: "'a pmem_scheme \<Rightarrow> usize list list \<Rightarrow> nat \<Rightarrow> usize \<Rightarrow> 'a pmem_scheme \<Rightarrow> usize list list \<Rightarrow> bool" where
  "deallocates s fl k b s' fl' \<longleftrightarrow> buddy_inv s' fl' \<and> free_bytes fl' = free_bytes fl \<union> block_bytes k b \<and>
     frame (free_bytes fl \<union> block_bytes k b) s s' \<and> total (stats s') = total (stats s)"

text \<open>The buddy is not free: the block goes to the free list.\<close>

lemma deallocate_push:
  assumes "buddy_inv s fl" "k < 12" "block_ok (phys_off s) k b" "block_bytes k b \<inter> free_bytes fl = {}"
    "2 ^ (k + 12) \<le> unat (allocated (stats s))" "b XOR 2 ^ (k + 12) \<notin> set (fl ! k)"
  shows "\<exists>s' fl'. deallocate s b k = Some (Ok (), s') \<and> deallocates s fl k b s' fl'"
proof -
  have inv: "blocks_inv s fl" "stats_inv (stats s) (free_bytes fl)" using assms(1) by (simp_all add: buddy_inv_def)
  obtain s1 where s1: "order_push s k b = Some s1" "blocks_inv s1 (fl[k := b # fl ! k])"
    "free_bytes (fl[k := b # fl ! k]) = free_bytes fl \<union> block_bytes k b" "frame (block_bytes k b) s s1" "stats s1 = stats s"
    using push_inv [OF inv(1) assms(2-4)] by blast
  obtain s2 where s2: "dealloc_stats_upd s1 (2 ^ (k + 12)) = Some s2" "s2 = s1\<lparr>stats := stats s2\<rparr>"
    "stats_inv (stats s2) (free_bytes fl \<union> block_bytes k b)" "total (stats s2) = total (stats s1)"
    using dealloc_stats_ok [of s1 "free_bytes fl" k "block_bytes k b"] inv(2) s1(5) assms(2,4,5) by auto
  have "deallocate s b k = Some (Ok (), s2)"
    using buddy_of_ok(1) [of k b] order_remove_absent [OF blocks_invD(1) [OF inv(1)] assms(2,6)] s1(1) s2(1) assms(2,3)
    by (subst deallocate.simps) (simp add: block_ok_def size_for_order_eq)
  moreover have "blocks_inv s2 (fl[k := b # fl ! k])" "frame (block_bytes k b) s s2"
    using s1(2,4) s2(2) by (metis blocks_inv_stats frame_stats(1))+
  ultimately show ?thesis
    using s1(3,5) s2(3,4) by (auto simp: deallocates_def buddy_inv_def intro: frame_mono)
qed

text \<open>The buddy is free: it is taken out of its list before the two are merged (or put back).\<close>

lemma deallocate_buddy:
  assumes "buddy_inv s fl" "k < 12" "c \<in> set (fl ! k)"
  obtains s1 s2 fl2 where "order_remove s k c = Some (True, s1)" "alloc_stats_upd s1 (2 ^ (k + 12)) = Some s2"
    "buddy_inv s2 fl2" "free_bytes fl2 = free_bytes fl - block_bytes k c" "frame (free_bytes fl) s s2"
    "total (stats s2) = total (stats s)" "unat (allocated (stats s2)) = unat (allocated (stats s)) + 2 ^ (k + 12)"
proof -
  have inv: "blocks_inv s fl" "stats_inv (stats s) (free_bytes fl)" using assms(1) by (simp_all add: buddy_inv_def)
  obtain s1 where s1: "order_remove s k c = Some (True, s1)" "blocks_inv s1 (fl[k := remove1 c (fl ! k)])"
    "free_bytes (fl[k := remove1 c (fl ! k)]) = free_bytes fl - block_bytes k c"
    "frame (free_bytes fl) s s1" "stats s1 = stats s"
    using remove_inv [OF inv(1) assms(2,3)] by blast
  have sub: "block_bytes k c \<subseteq> free_bytes fl" using in_free_bytes assms(2,3) .
  obtain s2 where s2: "alloc_stats_upd s1 (2 ^ (k + 12)) = Some s2" "s2 = s1\<lparr>stats := stats s2\<rparr>"
    "stats_inv (stats s2) (free_bytes fl - block_bytes k c)" "total (stats s2) = total (stats s1)"
    using alloc_stats_ok [of s1 "free_bytes fl" k c] inv(2) s1(5) sub assms(2) by auto
  have "blocks_inv s2 (fl[k := remove1 c (fl ! k)])" "frame (free_bytes fl) s s2"
    using s1(2,4) s2(2) by (metis blocks_inv_stats frame_stats(1))+
  moreover have "unat (allocated (stats s2)) = unat (allocated (stats s)) + 2 ^ (k + 12)"
    using stats_inv_allocated [OF inv(2) s2(3)] s2(4) s1(5) sub by simp
  ultimately show thesis
    using s1 s2 by (intro that [of s1 s2 "fl[k := remove1 c (fl ! k)]"]) (simp_all add: buddy_inv_def)
qed

lemma buddy_disjoint:
  assumes "k < 12" "2 ^ (k + 12) dvd unat b"
  shows "block_bytes k b \<inter> block_bytes k (b XOR 2 ^ (k + 12)) = {}"
  using unat_buddy [of k b] buddy_aligned(1) [OF assms(2)] assms(1) by (auto simp: block_bytes_def split: if_splits)

text \<open>At the largest order both blocks go back to the list.\<close>

lemma deallocate_top:
  assumes "buddy_inv s fl" "block_ok (phys_off s) 11 b" "block_bytes 11 b \<inter> free_bytes fl = {}"
    "2 ^ 23 \<le> unat (allocated (stats s))" "b XOR 2 ^ (11 + 12) \<in> set (fl ! 11)"
  shows "\<exists>s' fl'. deallocate s b 11 = Some (Ok (), s') \<and> deallocates s fl 11 b s' fl'"
proof -
  let ?c = "b XOR 2 ^ (11 + 12)"
  have k: "(11::nat) < 12" "(11::nat) < 52" by simp_all
  have inv: "blocks_inv s fl" using assms(1) by (simp add: buddy_inv_def)
  have ok: "block_ok (phys_off s) 11 ?c" "block_bytes 11 ?c \<subseteq> free_bytes fl"
    using blocks_invD(3) [OF inv k(1) assms(5)] in_free_bytes [OF k(1) assms(5)] by auto
  have disj: "block_bytes 11 b \<inter> block_bytes 11 ?c = {}" using ok(2) assms(3) by auto
  obtain s1 s2 fl2 where s2: "order_remove s 11 ?c = Some (True, s1)" "alloc_stats_upd s1 (2 ^ (11 + 12)) = Some s2"
    "buddy_inv s2 fl2" "free_bytes fl2 = free_bytes fl - block_bytes 11 ?c" "frame (free_bytes fl) s s2"
    "total (stats s2) = total (stats s)" "unat (allocated (stats s2)) = unat (allocated (stats s)) + 2 ^ (11 + 12)"
    using deallocate_buddy [OF assms(1) k(1) assms(5)] by blast
  have off: "phys_off s2 = phys_off s" using s2(5) by (simp add: frame_def)
  have inv2: "blocks_inv s2 fl2" "stats_inv (stats s2) (free_bytes fl2)" using s2(3) by (simp_all add: buddy_inv_def)
  obtain s3 where s3: "order_push s2 11 ?c = Some s3" "blocks_inv s3 (fl2[11 := ?c # fl2 ! 11])"
    "free_bytes (fl2[11 := ?c # fl2 ! 11]) = free_bytes fl" "frame (block_bytes 11 ?c) s2 s3" "stats s3 = stats s2"
    using push_inv [OF inv2(1) k(1), of ?c] ok s2(4) off by (auto simp: Un_absorb2)
  have pre3: "block_ok (phys_off s3) 11 b" "block_bytes 11 b \<inter> free_bytes (fl2[11 := ?c # fl2 ! 11]) = {}"
    using s3(3,4) off assms(2,3) by (simp_all add: frame_def)
  obtain s4 fl4 where s4: "order_push s3 11 b = Some s4" "blocks_inv s4 fl4"
    "free_bytes fl4 = free_bytes fl \<union> block_bytes 11 b" "frame (block_bytes 11 b) s3 s4" "stats s4 = stats s2"
    using push_inv [OF s3(2) k(1) pre3] s3(3,5) by metis
  have st: "stats_inv (stats s4) (free_bytes fl - block_bytes 11 ?c)" using inv2(2) s2(4) s4(5) by simp
  have "card (block_bytes 11 ?c \<union> block_bytes 11 b) = 2 ^ (12 + 12)"
    using disj by (subst card_Un_disjoint) (auto simp: Int_commute)
  then obtain s5 where s5: "dealloc_stats_upd s4 (2 ^ (12 + 12)) = Some s5" "s5 = s4\<lparr>stats := stats s5\<rparr>"
    "stats_inv (stats s5) ((free_bytes fl - block_bytes 11 ?c) \<union> (block_bytes 11 ?c \<union> block_bytes 11 b))"
    "total (stats s5) = total (stats s4)"
    using dealloc_stats_ok [OF st, of 12 "block_bytes 11 ?c \<union> block_bytes 11 b"] assms(3,4) s2(7) s4(5) by auto
  have "buddy_of b 11 = Some (Ok ?c)" using buddy_of_ok(1) [of 11 b] assms(2) by (simp add: block_ok_def)
  then have dealloc: "deallocate s b 11 = Some (Ok (), s5)"
    using s2(1,2) s3(1) s4(1) s5(1)
    by (subst deallocate.simps) (simp add: MAX_ORDER_def size_for_order_eq mul_chk_def)
  have "(free_bytes fl - block_bytes 11 ?c) \<union> (block_bytes 11 ?c \<union> block_bytes 11 b) = free_bytes fl4"
    using ok(2) s4(3) by auto
  moreover have "blocks_inv s5 fl4" "frame (block_bytes 11 b) s3 s5"
    using s4(2,4) s5(2) by (metis blocks_inv_stats frame_stats(1))+
  moreover have "frame (free_bytes fl \<union> block_bytes 11 b) s s5"
    by (rule frame_trans [OF frame_trans [OF s2(5) s3(4) order.refl ok(2)] \<open>frame _ s3 s5\<close>]) auto
  ultimately show ?thesis
    using dealloc s2(6) s4(3,5) s5(3,4) by (auto simp: deallocates_def buddy_inv_def)
qed

lemma deallocate_merge:
  fixes s :: "'a pmem_scheme"
  assumes "buddy_inv s fl" "k < 11" "block_ok (phys_off s) k b" "block_bytes k b \<inter> free_bytes fl = {}"
    "2 ^ (k + 12) \<le> unat (allocated (stats s))" "b XOR 2 ^ (k + 12) \<in> set (fl ! k)"
    and IH: "\<And>(s :: 'a pmem_scheme) fl b. buddy_inv s fl \<Longrightarrow> block_ok (phys_off s) (Suc k) b \<Longrightarrow> block_bytes (Suc k) b \<inter> free_bytes fl = {} \<Longrightarrow>
      2 ^ (Suc k + 12) \<le> unat (allocated (stats s)) \<Longrightarrow>
      \<exists>s' fl'. deallocate s b (Suc k) = Some (Ok (), s') \<and> deallocates s fl (Suc k) b s' fl'"
  shows "\<exists>s' fl'. deallocate s b k = Some (Ok (), s') \<and> deallocates s fl k b s' fl'"
proof -
  let ?c = "b XOR 2 ^ (k + 12)" and ?m = "min (b XOR 2 ^ (k + 12)) b"
  have k: "k < 12" using assms(2) by simp
  have inv: "blocks_inv s fl" using assms(1) by (simp add: buddy_inv_def)
  have ok: "block_ok (phys_off s) k ?c" "block_bytes k ?c \<subseteq> free_bytes fl"
    using blocks_invD(3) [OF inv k assms(6)] in_free_bytes [OF k assms(6)] by auto
  note merge = buddy_merge [OF assms(2,3) ok(1)]
  obtain s1 s2 fl2 where s2: "order_remove s k ?c = Some (True, s1)" "alloc_stats_upd s1 (2 ^ (k + 12)) = Some s2"
    "buddy_inv s2 fl2" "free_bytes fl2 = free_bytes fl - block_bytes k ?c" "frame (free_bytes fl) s s2"
    "total (stats s2) = total (stats s)" "unat (allocated (stats s2)) = unat (allocated (stats s)) + 2 ^ (k + 12)"
    using deallocate_buddy [OF assms(1) k assms(6)] by blast
  have off: "phys_off s2 = phys_off s" using s2(5) by (simp add: frame_def)
  have "block_bytes (Suc k) ?m \<inter> free_bytes fl2 = {}" using merge(2) s2(4) assms(4) by auto
  moreover have "2 ^ (Suc k + 12) \<le> unat (allocated (stats s2))" unfolding s2(7) pow_Suc_12 using assms(5) by simp
  ultimately obtain s' fl' where s': "deallocate s2 ?m (Suc k) = Some (Ok (), s')" "deallocates s2 fl2 (Suc k) ?m s' fl'"
    using IH [OF s2(3), unfolded off, OF merge(1)] by blast
  have "buddy_of b k = Some (Ok ?c)" using buddy_of_ok(1) [of k b] k assms(3) by (simp add: block_ok_def)
  then have "deallocate s b k = Some (Ok (), s')"
    using s2(1,2) s'(1) assms(2) by (subst deallocate.simps) (simp add: MAX_ORDER_def size_for_order_eq)
  moreover have "free_bytes fl2 \<union> block_bytes (Suc k) ?m = free_bytes fl \<union> block_bytes k b"
    using merge(2) s2(4) ok(2) by auto
  then have "deallocates s fl k b s' fl'"
    using s'(2) s2(6) frame_trans [OF s2(5), of "free_bytes fl \<union> block_bytes k b" s'] by (simp add: deallocates_def)
  ultimately show ?thesis by blast
qed

lemma deallocate_ok:
  assumes "k < 12" "buddy_inv s fl" "block_ok (phys_off s) k b" "block_bytes k b \<inter> free_bytes fl = {}"
    "2 ^ (k + 12) \<le> unat (allocated (stats s))"
  shows "\<exists>s' fl'. deallocate s b k = Some (Ok (), s') \<and> deallocates s fl k b s' fl'"
proof -
  have "k \<le> 11" using assms(1) by simp
  then show ?thesis using assms(2-5)
  proof (induction arbitrary: s fl b rule: inc_induct)
    case base
    then show ?case
      using deallocate_top [of s fl b] deallocate_push [of s fl 11 b] by (cases "b XOR 2 ^ (11 + 12) \<in> set (fl ! 11)") auto
  next
    case (step n)
    show ?case
    proof (cases "b XOR 2 ^ (n + 12) \<in> set (fl ! n)")
      case True
      show ?thesis
        by (rule deallocate_merge [OF step.prems(1) step.hyps(2) step.prems(2-4) True step.IH])
    next
      case False
      then show ?thesis using deallocate_push [OF step.prems(1) _ step.prems(2-4)] step.hyps by simp
    qed
  qed
qed

section \<open>The two operations, on every branch\<close>

text \<open>C6: From every state that satisfies the invariant \<open>allocate\<close> returns. An order that is too large is
  refused; where no list of this or a larger order has a block, \<open>NoMemoryAvailable\<close> is returned, both
  with the state unchanged; otherwise the block returned is aligned to its size, was free, and exactly its bytes
  leave the free bytes. The invariant (exact statistics included) holds again, and memory outside the
  free blocks is untouched.\<close>

theorem allocate_correct:
  assumes "buddy_inv s fl"
  shows "if 12 \<le> k then allocate s k = Some (Err OrderTooLarge, s)
    else if \<exists>j. k \<le> j \<and> j < 12 \<and> fl ! j \<noteq> []
    then \<exists>b s' fl'. allocate s k = Some (Ok b, s') \<and> buddy_inv s' fl' \<and> block_ok (phys_off s) k b \<and>
      block_bytes k b \<subseteq> free_bytes fl \<and> free_bytes fl' = free_bytes fl - block_bytes k b \<and>
      frame (free_bytes fl) s s' \<and> total (stats s') = total (stats s)
    else allocate s k = Some (Err NoMemoryAvailable, s)"
proof -
  have "\<exists>b s' fl'. allocate s k = Some (Ok b, s') \<and> allocates s fl k b s' fl'" if "k \<le> j" "j < 12" "fl ! j \<noteq> []" for j
    using allocate_ok [OF assms that] .
  moreover have "allocate s k = Some (Err NoMemoryAvailable, s)" if "k < 12" "\<not> (\<exists>j. k \<le> j \<and> j < 12 \<and> fl ! j \<noteq> [])"
    using allocate_none [OF assms that(1)] that(2) by blast
  ultimately show ?thesis using allocate_too_large [of k s] by (auto simp: allocates_def)
qed


text \<open>A small allocator: one free block of two pages at \<open>0x80000000\<close>, two pages behind it allocated.\<close>

definition example_pmem :: pmem where
  "example_pmem = \<lparr>mem = (\<lambda>_. 0), phys_off = 0, orders = [None, Some 0x80000000] @ replicate 10 None,
     stats = \<lparr>name = [], allocated = 0x2000, free = 0x2000, total = 0x4000\<rparr>\<rparr>"

definition example_lists :: "usize list list" where
  "example_lists = [[], [0x80000000]] @ replicate 10 []"

lemma example_lists_nth: "k < 12 \<Longrightarrow> example_lists ! k = (if k = 1 then [0x80000000] else [])"
  by (simp add: example_lists_def nth_append nth_Cons' split: if_splits)

lemma example_pmem_inv: "buddy_inv example_pmem example_lists"
proof -
  have "orders example_pmem ! k = (if k = 1 then Some 0x80000000 else None)" if "k < 12" for k
    using that by (simp add: example_pmem_def nth_append nth_Cons' split: if_splits)
  then have "free_lists example_pmem example_lists"
    unfolding free_lists_def
    by (auto simp: example_lists_nth) (simp_all add: example_pmem_def example_lists_def dec_ptr_def)
  moreover have "free_bytes example_lists = block_bytes 1 0x80000000"
    by (auto simp: free_bytes_def example_lists_nth split: if_splits)
  ultimately show ?thesis
    by (auto simp: buddy_inv_def blocks_inv_def stats_inv_def example_lists_nth split: if_splits)
      (simp_all add: example_pmem_def block_ok_def)
qed

theorem allocate_correct_witness:
  "\<exists>b s' fl'. allocate example_pmem 0 = Some (Ok b, s') \<and> buddy_inv s' fl' \<and>
    free_bytes fl' = free_bytes example_lists - block_bytes 0 b"
  using allocate_correct [OF example_pmem_inv, of 0] by (auto simp: example_lists_nth split: if_splits)


end
