(* ===== verification/Buddy_Region.thy ===== *)
theory Buddy_Region
  imports Buddy_Correct
begin

text \<open>
  \<open>add_region\<close>: the region is cut into blocks that are pushed to the free lists. The cut is right, and
  the loop returns, for every start address whose page number is not 1 modulo 4; for the others the
  first block can be misaligned, and the allocator then hands out memory outside the region.
\<close>

section \<open>The order of one block\<close>

lemma buddy_of_nonneg:
  assumes "k < 52" "2 ^ 24 \<le> unat b" "k < 12"
  shows "\<exists>c. buddy_of b k = Some (Ok c) \<and> c = b XOR 2 ^ (k + 12)"
proof -
  have "b \<noteq> 2 ^ (k + 12)"
  proof
    assume "b = 2 ^ (k + 12)"
    then have "unat b = 2 ^ (k + 12)" using assms(1) by (simp add: unat_size_pow)
    moreover have "(2::nat) ^ (k + 12) < 2 ^ 24" using assms(3) by (intro power_strict_increasing) auto
    ultimately show False using assms(2) by simp
  qed
  moreover have "(b XOR 2 ^ (k + 12)) XOR 2 ^ (k + 12) = b" by (simp add: xor.assoc)
  ultimately have "b XOR 2 ^ (k + 12) \<noteq> 0" by (intro notI) simp
  then show ?thesis using assms by (simp add: buddy_of_def size_for_order_eq)
qed

text \<open>
  The loop returns an order whose block fits, and every tested bit of the start address is clear. Bit
  12 is never tested: only an aligned start, or one with bit 13 set as well, gives an aligned block.
\<close>

lemma single_order_ok:
  assumes "2 ^ 24 \<le> unat start" "n \<le> 11" "unat start + 2 ^ (n + 12) \<le> unat stop"
    "\<And>i. 0 < i \<Longrightarrow> i \<le> n \<Longrightarrow> even (unat start div 2 ^ (i + 12))"
  shows "\<exists>k. single_order start stop n = Some (Ok k) \<and> k \<le> 11 \<and> unat start + 2 ^ (k + 12) \<le> unat stop \<and> n \<le> k \<and>
    (\<forall>i. 0 < i \<longrightarrow> i \<le> k \<longrightarrow> even (unat start div 2 ^ (i + 12))) \<and>
    (k < 11 \<longrightarrow> unat stop < unat start + 2 ^ (Suc k + 12) \<or> odd (unat start div 2 ^ (Suc k + 12)))"
  using assms(2-4)
proof (induction n rule: inc_induct)
  case base
  then show ?case by (subst single_order.simps) (auto simp: MAX_ORDER_def)
next
  case (step n)
  let ?sz = "2 ^ (Suc n + 12) :: usize"
  have n: "Suc n < 52" "Suc n < 12" using step.hyps by simp_all
  have sz: "unat ?sz = 2 ^ (Suc n + 12)" using n(1) by (rule unat_size_pow)
  have nz: "start \<noteq> 0" using assms(1) by auto
  show ?case
  proof (cases "unat start + 2 ^ (Suc n + 12) \<le> unat stop")
    case False
    then have "single_order start stop n = Some (Ok n)"
      using n sz step.hyps(2) by (subst single_order.simps)
        (auto simp: MAX_ORDER_def size_for_order_eq add_chk_def word_le_nat_alt unat_add_lem [THEN iffD1] simp del: add_Suc power_Suc)
    then show ?thesis using False step by auto
  next
    case True
    then have lt: "unat start + unat ?sz < 2 ^ 64" using sz unat_less_2p [of stop] by simp
    then have ne: "unat (start + ?sz) = unat start + 2 ^ (Suc n + 12)" using sz by (simp add: unat_add_lem [THEN iffD1] del: add_Suc power_Suc)
    let ?c = "start XOR ?sz"
    have c: "buddy_of start (Suc n) = Some (Ok ?c)" using buddy_of_nonneg [OF n(1) assms(1) n(2)] by blast
    have uc: "unat ?c = (if odd (unat start div 2 ^ (Suc n + 12)) then unat start - 2 ^ (Suc n + 12) else unat start + 2 ^ (Suc n + 12))"
      using unat_buddy [OF n(1)] .
    have step_eq: "single_order start stop n =
      (if even (unat start div 2 ^ (Suc n + 12)) then single_order start stop (Suc n) else Some (Ok n))"
    proof -
      have "unat start - 2 ^ (Suc n + 12) < unat start" using assms(1) by (intro diff_less) auto
      then have "start \<le> ?c \<and> ?c \<le> stop \<longleftrightarrow> even (unat start div 2 ^ (Suc n + 12))"
        unfolding word_le_nat_alt uc using True by (cases "odd (unat start div 2 ^ (Suc n + 12))") (simp_all only: if_True if_False not_le simp_thms, auto)
      then show ?thesis
        using n step.hyps(2) c nz lt ne True
        by (subst single_order.simps)
          (auto simp: MAX_ORDER_def size_for_order_eq add_chk_def word_le_nat_alt simp del: add_Suc power_Suc)
    qed
    show ?thesis
    proof (cases "even (unat start div 2 ^ (Suc n + 12))")
      case True
      then have "even (unat start div 2 ^ (i + 12))" if "0 < i" "i \<le> Suc n" for i
        using step.prems(2) that by (cases "i = Suc n") auto
      then show ?thesis using step.IH \<open>unat start + 2 ^ (Suc n + 12) \<le> unat stop\<close> True step_eq by auto
    next
      case False
      then show ?thesis using step step_eq by auto
    qed
  qed
qed


lemma aligned_bits:
  "2 ^ 12 dvd (x::nat) \<Longrightarrow> (\<And>i. i < k \<Longrightarrow> even (x div 2 ^ (i + 12))) \<Longrightarrow> 2 ^ (k + 12) dvd x"
proof (induction k)
  case (Suc k)
  then have "2 ^ (k + 12) dvd x" by simp
  then show ?case unfolding pow_Suc_12 using buddy_aligned(2) [of "k + 12" x] Suc.prems(2) by simp
qed simp

text \<open>The condition under which \<open>add_single_region\<close> picks an aligned block.\<close>

definition start_ok :: "nat \<Rightarrow> nat \<Rightarrow> bool" where
  "start_ok start stop \<longleftrightarrow> 4096 dvd start \<and> (start mod 0x4000 = 0x1000 \<longrightarrow> stop - start < 0x2000)"

lemma page_mod_cases:
  assumes "4096 dvd (x::nat)"
  shows "x mod 0x4000 = 0x1000 * (x div 0x1000 mod 4)"
  using assms by (auto elim!: dvdE simp: mult_mod_right)

lemma mod4_cases:
  fixes q :: nat
  shows "q mod 4 \<noteq> 1 \<Longrightarrow> even (q div 2) \<Longrightarrow> q mod 4 = 0" "q mod 4 = 0 \<Longrightarrow> even q"
    "odd (q div 2) \<Longrightarrow> (q + 1) mod 4 \<noteq> 1"
  by presburger+

lemma start_ok_block:
  assumes "start_ok x stop" "k \<le> 11" "x + 2 ^ (k + 12) \<le> stop"
    "\<And>i. 0 < i \<Longrightarrow> i \<le> k \<Longrightarrow> even (x div 2 ^ (i + 12))"
    "k < 11 \<longrightarrow> stop < x + 2 ^ (Suc k + 12) \<or> odd (x div 2 ^ (Suc k + 12))"
  shows "2 ^ (k + 12) dvd x" "start_ok (x + 2 ^ (k + 12)) stop"
proof -
  have page: "4096 dvd x" using assms(1) by (simp add: start_ok_def)
  have d13: "x div 2 ^ 13 = x div 0x1000 div 2" by (simp flip: div_mult2_eq)
  note md = page_mod_cases [OF page]
  have big: "x div 0x1000 mod 4 = 0" if "0 < k"
  proof -
    have "(2::nat) ^ 13 \<le> 2 ^ (k + 12)" using that by (intro power_increasing) auto
    then have "x mod 0x4000 \<noteq> 0x1000" using assms(1,3) by (auto simp: start_ok_def)
    then have "x div 0x1000 mod 4 \<noteq> 1" using md by auto
    moreover have "even (x div 0x1000 div 2)" using assms(4) [of 1] that d13 by simp
    ultimately show ?thesis by (rule mod4_cases)
  qed
  have "even (x div 2 ^ (i + 12))" if "i < k" for i
  proof (cases "i = 0")
    case True
    have "even (x div 0x1000)" using big that by (intro mod4_cases(2)) simp
    then show ?thesis using True by simp
  qed (use assms(4) that in simp)
  then show "2 ^ (k + 12) dvd x" using page by (intro aligned_bits) auto
  show "start_ok (x + 2 ^ (k + 12)) stop"
  proof (cases "k = 0")
    case True
    have "stop < x + 0x2000 \<or> odd (x div 0x1000 div 2)" using assms(5) True d13 by simp
    moreover have "(x + 0x1000) mod 0x4000 = 0x1000 * ((x div 0x1000 + 1) mod 4)"
      using page page_mod_cases [of "x + 0x1000"] by simp
    moreover have "(x div 0x1000 + 1) mod 4 \<noteq> 1" if "odd (x div 0x1000 div 2)" using that by (rule mod4_cases(3))
    ultimately have "(x + 0x1000) mod 0x4000 = 0x1000 \<longrightarrow> stop < x + 0x2000" by fastforce
    then show ?thesis using True page by (auto simp: start_ok_def)
  next
    case False
    then obtain j where k: "k = Suc j" by (cases k) auto
    have "(x + 2 ^ (k + 12)) mod 0x4000 = 2 ^ (k + 12) mod 0x4000"
      using big False md mod_add_left_eq [of x "0x4000" "2 ^ (k + 12)"] by simp
    also have "\<dots> = (if j = 0 then 0x2000 else 0)"
    proof (cases j)
      case (Suc i)
      have "2 ^ (k + 12) = 0x4000 * (2::nat) ^ i" unfolding k Suc by (simp add: power_add)
      then show ?thesis using Suc by simp
    qed (simp add: k)
    finally show ?thesis
      using page by (auto simp: start_ok_def k power_add split: if_splits)
  qed
qed

section \<open>Pushing one block\<close>

lemma add_single_region_ok:
  assumes "buddy_inv s fl" "start_ok (unat start) (unat stop)" "2 ^ 24 \<le> unat start" "unat start + 4096 \<le> unat stop"
    "unat stop + unat (phys_off s) \<le> 2 ^ 64" "{unat start..<unat stop} \<inter> free_bytes fl = {}"
    "unat (total (stats s)) + (unat stop - unat start) < 2 ^ 64"
  shows "\<exists>k s' fl'. add_single_region s start stop = Some (Ok k, s') \<and> k < 12 \<and> unat start + 2 ^ (k + 12) \<le> unat stop \<and>
    start_ok (unat start + 2 ^ (k + 12)) (unat stop) \<and> buddy_inv s' fl' \<and>
    free_bytes fl' = free_bytes fl \<union> block_bytes k start \<and> frame (block_bytes k start) s s' \<and>
    unat (total (stats s')) = unat (total (stats s)) + 2 ^ (k + 12)"
proof -
  have inv: "blocks_inv s fl" "stats_inv (stats s) (free_bytes fl)" using assms(1) by (simp_all add: buddy_inv_def)
  obtain k where k: "single_order start stop 0 = Some (Ok k)" "k \<le> 11" "unat start + 2 ^ (k + 12) \<le> unat stop"
    "\<And>i. 0 < i \<Longrightarrow> i \<le> k \<Longrightarrow> even (unat start div 2 ^ (i + 12))"
    "k < 11 \<longrightarrow> unat stop < unat start + 2 ^ (Suc k + 12) \<or> odd (unat start div 2 ^ (Suc k + 12))"
    using single_order_ok [OF assms(3), of 0 stop] assms(4) by auto
  note al = start_ok_block [OF assms(2) k(2-5)]
  have k12: "k < 12" "k < 52" using k(2) by simp_all
  have "block_bytes k start \<subseteq> {unat start..<unat stop}" using k(3) by (auto simp: block_bytes_def)
  then have disj: "block_bytes k start \<inter> free_bytes fl = {}" using assms(6) by blast
  have "block_ok (phys_off s) k start" using al(1) assms(3,5) k(3) unfolding block_ok_def by simp
  then obtain s1 where s1: "order_push s k start = Some s1" "blocks_inv s1 (fl[k := start # fl ! k])"
    "free_bytes (fl[k := start # fl ! k]) = free_bytes fl \<union> block_bytes k start"
    "frame (block_bytes k start) s s1" "stats s1 = stats s"
    using push_inv [OF inv(1) k12(1) _ disj] by blast
  let ?st = "stats s" and ?sz = "2 ^ (k + 12) :: usize"
  have sz: "unat ?sz = 2 ^ (k + 12)" using k12(2) by (rule unat_size_pow)
  have bound: "unat (total ?st) + 2 ^ (k + 12) < 2 ^ 64" "unat (free ?st) + 2 ^ (k + 12) < 2 ^ 64"
    using assms(7) k(3) inv(2) unfolding stats_inv_def by linarith+
  obtain t where t: "add_chk (total ?st) ?sz = Some t" "unat t = unat (total ?st) + 2 ^ (k + 12)"
    using bound(1) sz by (simp add: add_chk_def unat_add_lem [THEN iffD1])
  obtain f where f: "add_chk (free ?st) ?sz = Some f" "unat f = unat (free ?st) + 2 ^ (k + 12)"
    using bound(2) sz by (simp add: add_chk_def unat_add_lem [THEN iffD1])
  let ?s = "s1\<lparr>stats := ?st\<lparr>total := t, free := f\<rparr>\<rparr>"
  have "start \<noteq> 0" using assms(3) by auto
  then have "add_single_region s start stop = Some (Ok k, ?s)"
    using k(1) s1(1,5) t(1) f(1) k12(2) by (simp add: add_single_region_def size_for_order_eq)
  moreover have "card (free_bytes fl \<union> block_bytes k start) = card (free_bytes fl) + 2 ^ (k + 12)"
    using disj by (subst card_Un_disjoint) (auto simp: Int_commute)
  then have "buddy_inv ?s (fl[k := start # fl ! k])"
    using s1(2,3) inv(2) t(2) f(2) by (simp add: buddy_inv_def stats_inv_def)
  ultimately show ?thesis using s1(3,4) k(3) al(2) k12(1) t(2) by (intro exI conjI) (assumption | simp)+
qed

section \<open>The loop\<close>

lemma unat_saturating_sub: "unat (saturating_sub a b) = unat a - unat b"
  by (simp add: saturating_sub_def word_le_nat_alt unat_sub)

lemma page_floor_step:
  "2 ^ (k + 12) \<le> n \<Longrightarrow> 2 ^ (k + 12) + (n - 2 ^ (k + 12)) div 4096 * 4096 = n div 4096 * (4096::nat)"
proof -
  assume le: "2 ^ (k + 12) \<le> n"
  have e: "2 ^ (k + 12) = 4096 * (2::nat) ^ k" by (simp add: power_add)
  have "(n - 4096 * 2 ^ k) div 4096 = n div 4096 - 2 ^ k" using div_diff by simp
  moreover have "2 ^ k \<le> n div 4096" using le unfolding e by (simp add: less_eq_div_iff_mult_less_eq mult.commute)
  ultimately show ?thesis unfolding e by (simp add: algebra_simps diff_mult_distrib)
qed

lemma add_region_loop_ok:
  assumes "buddy_inv s fl" "start_ok (unat start) (unat stop)" "2 ^ 24 \<le> unat start" "unat start \<le> unat stop"
    "unat stop + unat (phys_off s) \<le> 2 ^ 64" "{unat start..<unat stop} \<inter> free_bytes fl = {}"
    "unat (total (stats s)) + (unat stop - unat start) < 2 ^ 64" "unat tot + (unat stop - unat start) < 2 ^ 64"
  shows "\<exists>n s' fl'. add_region_loop s start stop tot = Some (Ok n, s') \<and>
    unat n = unat tot + (unat stop - unat start) div 4096 * 4096 \<and> buddy_inv s' fl' \<and>
    free_bytes fl' = free_bytes fl \<union> {unat start..<unat start + (unat stop - unat start) div 4096 * 4096} \<and>
    frame {unat start..<unat stop} s s' \<and>
    unat (total (stats s')) = unat (total (stats s)) + (unat stop - unat start) div 4096 * 4096"
  using assms
proof (induction "unat stop - unat start" arbitrary: s fl start tot rule: less_induct)
  case less
  show ?case
  proof (cases "unat start + 4096 \<le> unat stop")
    case False
    then have "\<not> MIN_ORDER_SIZE \<le> saturating_sub stop start"
      by (simp add: word_le_nat_alt unat_saturating_sub MIN_ORDER_SIZE_def)
    moreover have "(unat stop - unat start) div 4096 = 0" using False by simp
    ultimately show ?thesis using less.prems(1) by (subst add_region_loop.simps) auto
  next
    case True
    obtain k s1 fl1 where s1: "add_single_region s start stop = Some (Ok k, s1)" "k < 12"
      "unat start + 2 ^ (k + 12) \<le> unat stop" "start_ok (unat start + 2 ^ (k + 12)) (unat stop)" "buddy_inv s1 fl1"
      "free_bytes fl1 = free_bytes fl \<union> block_bytes k start" "frame (block_bytes k start) s s1"
      "unat (total (stats s1)) = unat (total (stats s)) + 2 ^ (k + 12)"
      using add_single_region_ok [OF less.prems(1-3) True less.prems(5-7)] by blast
    let ?sz = "2 ^ (k + 12) :: usize"
    have sz: "unat ?sz = 2 ^ (k + 12)" using s1(2) by (intro unat_size_pow) simp
    have pos: "0 < (2::nat) ^ (k + 12)" by simp
    have st: "add_chk start ?sz = Some (start + ?sz)" "unat (start + ?sz) = unat start + 2 ^ (k + 12)"
      using s1(3) unat_less_2p [of stop] sz by (simp_all add: add_chk_def unat_add_lem [THEN iffD1])
    have tt: "add_chk tot ?sz = Some (tot + ?sz)" "unat (tot + ?sz) = unat tot + 2 ^ (k + 12)"
      using s1(3) less.prems(8) sz by (simp_all add: add_chk_def unat_add_lem [THEN iffD1])
    have off: "phys_off s1 = phys_off s" using s1(7) by (simp add: frame_def)
    have "{unat start + 2 ^ (k + 12)..<unat stop} \<subseteq> {unat start..<unat stop}"
      "{unat start + 2 ^ (k + 12)..<unat stop} \<inter> block_bytes k start = {}" by (auto simp: block_bytes_def)
    then have disj: "{unat start + 2 ^ (k + 12)..<unat stop} \<inter> free_bytes fl1 = {}"
      using less.prems(6) unfolding s1(6) by blast
    have m: "unat stop - (unat start + 2 ^ (k + 12)) < unat stop - unat start" "2 ^ 24 \<le> unat start + 2 ^ (k + 12)"
      "unat (total (stats s1)) + (unat stop - (unat start + 2 ^ (k + 12))) < 2 ^ 64"
      "unat tot + 2 ^ (k + 12) + (unat stop - (unat start + 2 ^ (k + 12))) < 2 ^ 64"
      using s1(3,8) pos less.prems(3,5,7,8) by linarith+
    obtain n s' fl' where s': "add_region_loop s1 (start + ?sz) stop (tot + ?sz) = Some (Ok n, s')"
      "unat n = unat tot + 2 ^ (k + 12) + (unat stop - (unat start + 2 ^ (k + 12))) div 4096 * 4096" "buddy_inv s' fl'"
      "free_bytes fl' = free_bytes fl1 \<union> {unat start + 2 ^ (k + 12)..<unat start + 2 ^ (k + 12) + (unat stop - (unat start + 2 ^ (k + 12))) div 4096 * 4096}"
      "frame {unat start + 2 ^ (k + 12)..<unat stop} s1 s'"
      "unat (total (stats s')) = unat (total (stats s1)) + (unat stop - (unat start + 2 ^ (k + 12))) div 4096 * 4096"
      using less.hyps [of "start + ?sz" s1 fl1 "tot + ?sz", unfolded st(2) tt(2) off, OF m(1) s1(5,4) m(2) s1(3) less.prems(5) disj m(3,4)]
      by blast
    have fl: "2 ^ (k + 12) + (unat stop - (unat start + 2 ^ (k + 12))) div 4096 * 4096 = (unat stop - unat start) div 4096 * 4096"
      using page_floor_step [of k "unat stop - unat start"] s1(3) by (simp add: diff_diff_left)
    have "add_region_loop s start stop tot = Some (Ok n, s')"
      using True s1(1,2) st(1) tt(1) s'(1)
      by (subst add_region_loop.simps) (auto simp: word_le_nat_alt unat_saturating_sub MIN_ORDER_SIZE_def size_for_order_eq)
    moreover have "frame {unat start..<unat stop} s s'"
      using s1(3) by (intro frame_trans [OF s1(7) s'(5)]) (auto simp: block_bytes_def)
    moreover have "free_bytes fl' = free_bytes fl \<union> {unat start..<unat start + (unat stop - unat start) div 4096 * 4096}"
      unfolding s'(4) s1(6) block_bytes_def fl [symmetric] by auto
    ultimately show ?thesis using s'(2,3,6) s1(8) fl by auto
  qed
qed

section \<open>add_region\<close>

definition page_ceil :: "nat \<Rightarrow> nat" where
  "page_ceil n = (n + 4095) div 4096 * 4096"

lemma align_up_page:
  "align_up a MIN_ORDER_SIZE = Some r \<Longrightarrow> unat r = page_ceil (unat a)"
  "unat a + 4096 < 2 ^ 64 \<Longrightarrow> \<exists>r. align_up a MIN_ORDER_SIZE = Some r"
  using unat_align_up [of 12 a r] align_up_pow2 [of 12 a]
  by (simp_all add: MIN_ORDER_SIZE_def PAGE_SIZE_def page_ceil_def)

lemma add_region_spec:
  assumes "buddy_inv s fl" "unat start + 4096 < 2 ^ 64" "unat stop + unat (phys_off s) \<le> 2 ^ 64"
    "2 ^ 24 \<le> unat start" "page_ceil (unat start) mod 0x4000 \<noteq> 0x1000"
    "{unat start..<unat stop} \<inter> free_bytes fl = {}" "unat (total (stats s)) + (unat stop - unat start) < 2 ^ 64"
  shows "let p = page_ceil (unat start); n = (unat stop - p) div 4096 * 4096 in
    if n = 0 then add_region s start stop = Some (Err RegionTooSmall, s)
    else \<exists>t s' fl'. add_region s start stop = Some (Ok t, s') \<and> unat t = n \<and> buddy_inv s' fl' \<and>
      free_bytes fl' = free_bytes fl \<union> {p..<p + n} \<and> frame {p..<unat stop} s s' \<and>
      unat (total (stats s')) = unat (total (stats s)) + n"
proof -
  obtain st where st: "align_up start MIN_ORDER_SIZE = Some st" "unat st = page_ceil (unat start)"
    using align_up_page [of start] assms(2) by blast
  have le: "unat start \<le> unat st" unfolding st(2) page_ceil_def by (simp add: minus_mod_eq_div_mult [symmetric])
  have sub: "{unat st..<unat stop} \<subseteq> {unat start..<unat stop}" using le by auto
  show ?thesis
  proof (cases "unat stop - unat st < 4096")
    case True
    then have "add_region s start stop = Some (Err RegionTooSmall, s)"
      using st(1) by (simp add: add_region_def word_less_nat_alt unat_saturating_sub MIN_ORDER_SIZE_def)
    then show ?thesis using True st(2) by (simp add: Let_def)
  next
    case False
    then have "add_region s start stop = add_region_loop s st stop 0"
      using st(1) by (auto simp add: add_region_def word_less_nat_alt unat_saturating_sub MIN_ORDER_SIZE_def)
    moreover have "start_ok (unat st) (unat stop)" using st(2) assms(5) by (simp add: start_ok_def page_ceil_def)
    moreover have "{unat st..<unat stop} \<inter> free_bytes fl = {}" using sub assms(6) by blast
    moreover have "(unat stop - unat st) div 4096 * 4096 \<noteq> 0" using False by simp
    ultimately show ?thesis
      using add_region_loop_ok [OF assms(1), of st stop 0] le assms(3,4,7) False unat_less_2p [of stop] st(2)
      by (simp add: Let_def)
  qed
qed



section \<open>A misaligned region\<close>

text \<open>The buddy test of \<open>add_single_region\<close> looks at bit \<open>order + 13\<close> of the start address only, so a region
  that starts one page behind a multiple of 16 KiB gets a two-page block that is not aligned: three
  pages are added at \<open>0x80001000\<close>, and the third page handed out is the one in front of the region.\<close>

theorem add_region_misaligned:
  "\<exists>s1 s2 s3 s4.
     add_region (buddy_new \<lparr>mem = (\<lambda>_. 0), phys_off = 0\<rparr>) 0x80001000 0x80004000 = Some (Ok 0x3000, s1) \<and>
     allocate s1 0 = Some (Ok 0x80003000, s2) \<and> allocate s2 0 = Some (Ok 0x80001000, s3) \<and>
     allocate s3 0 = Some (Ok 0x80000000, s4)"
  by (simp add: exec_defs cong: eval_cong)

end
