(* ===== verification/Buddy_Client.thy ===== *)
theory Buddy_Client
  imports Buddy_Correct
begin

text \<open>
  The interface the rest of the kernel uses of the buddy allocator, as a locale, and what a client
  that follows it can rely on: whatever sequence of allocations and frees it performs (freeing only
  what it holds), nothing panics, the blocks it holds never overlap, and no memory is lost.
\<close>

section \<open>A client of a block allocator\<close>

datatype client_op = Allocate nat | Deallocate nat

type_synonym 's block_alloc = "'s \<Rightarrow> nat \<Rightarrow> ((usize, alloc_error) result \<times> 's) option"
type_synonym 's block_free = "'s \<Rightarrow> usize \<Rightarrow> nat \<Rightarrow> ((unit, alloc_error) result \<times> 's) option"

text \<open>The client records the blocks it holds; \<open>Deallocate i\<close> frees the \<open>i\<close>-th of them.\<close>

fun client_step :: "'s block_alloc \<Rightarrow> 's block_free \<Rightarrow> 's \<times> (usize \<times> nat) list \<Rightarrow> client_op \<Rightarrow> ('s \<times> (usize \<times> nat) list) option" where
  "client_step al de (s, held) (Allocate k) =
     do { (r, s') \<leftarrow> al s k;
          Some (s', case r of Ok b \<Rightarrow> (b, k) # held | Err _ \<Rightarrow> held) }"
| "client_step al de (s, held) (Deallocate i) =
     (if i < length held then do {
        (_, s') \<leftarrow> de s (fst (held ! i)) (snd (held ! i));
        Some (s', take i held @ drop (Suc i) held) }
      else Some (s, held))"

fun client_run :: "'s block_alloc \<Rightarrow> 's block_free \<Rightarrow> 's \<times> (usize \<times> nat) list \<Rightarrow> client_op list \<Rightarrow> ('s \<times> (usize \<times> nat) list) option" where
  "client_run al de c [] = Some c"
| "client_run al de c (x # xs) = do { c' \<leftarrow> client_step al de c x; client_run al de c' xs }"

definition held_bytes :: "(usize \<times> nat) list \<Rightarrow> nat set" where
  "held_bytes held = (\<Union>(b, k)\<in>set held. block_bytes k b)"

definition held_disjoint :: "(usize \<times> nat) list \<Rightarrow> bool" where
  "held_disjoint held = sorted_wrt (\<lambda>(b, k) (c, j). block_bytes k b \<inter> block_bytes j c = {}) held"

definition held_size :: "(usize \<times> nat) list \<Rightarrow> nat" where
  "held_size held = (\<Sum>(b, k)\<leftarrow>held. 2 ^ (k + 12))"

lemma held_Nil [simp]: "held_bytes [] = {}" "held_disjoint []" "held_size [] = 0"
  by (simp_all add: held_bytes_def held_disjoint_def held_size_def)

lemma held_Cons [simp]:
  "held_bytes ((b, k) # held) = block_bytes k b \<union> held_bytes held"
  "held_disjoint ((b, k) # held) \<longleftrightarrow> block_bytes k b \<inter> held_bytes held = {} \<and> held_disjoint held"
  "held_size ((b, k) # held) = 2 ^ (k + 12) + held_size held"
  by (auto simp: held_bytes_def held_disjoint_def held_size_def)

lemma held_append:
  "held_bytes (xs @ ys) = held_bytes xs \<union> held_bytes ys"
  "held_disjoint (xs @ ys) \<longleftrightarrow> held_disjoint xs \<and> held_disjoint ys \<and> held_bytes xs \<inter> held_bytes ys = {}"
  "held_size (xs @ ys) = held_size xs + held_size ys"
  unfolding held_bytes_def held_disjoint_def held_size_def sorted_wrt_append by (auto, fastforce)

section \<open>The interface\<close>

locale block_allocator =
  fixes inv :: "'s \<Rightarrow> 'f \<Rightarrow> bool" and avail :: "'f \<Rightarrow> nat set" and used :: "'s \<Rightarrow> nat" and fits :: "'s \<Rightarrow> nat \<Rightarrow> usize \<Rightarrow> bool"
    and al :: "'s block_alloc" and de :: "'s block_free"
  assumes al_returns: "inv s f \<Longrightarrow> al s k \<noteq> None"
    and al_ok: "inv s f \<Longrightarrow> al s k = Some (Ok b, s') \<Longrightarrow>
      k < 12 \<and> fits s' k b \<and> block_bytes k b \<subseteq> avail f \<and> used s' = used s + 2 ^ (k + 12) \<and> fits s' = fits s \<and>
      (\<exists>f'. inv s' f' \<and> avail f' = avail f - block_bytes k b)"
    and al_err: "inv s f \<Longrightarrow> al s k = Some (Err e, s') \<Longrightarrow> s' = s"
    and de_ok: "inv s f \<Longrightarrow> k < 12 \<Longrightarrow> fits s k b \<Longrightarrow> block_bytes k b \<inter> avail f = {} \<Longrightarrow> 2 ^ (k + 12) \<le> used s \<Longrightarrow>
      \<exists>s' f'. de s b k = Some (Ok (), s') \<and> inv s' f' \<and> avail f' = avail f \<union> block_bytes k b \<and>
        used s' = used s - 2 ^ (k + 12) \<and> fits s' = fits s"
begin

definition client_inv :: "nat set \<Rightarrow> nat \<Rightarrow> 's \<times> (usize \<times> nat) list \<Rightarrow> 'f \<Rightarrow> bool" where
  "client_inv pool base c f \<longleftrightarrow> inv (fst c) f \<and> (\<forall>(b, k)\<in>set (snd c). k < 12 \<and> fits (fst c) k b) \<and>
     held_disjoint (snd c) \<and> avail f \<inter> held_bytes (snd c) = {} \<and> avail f \<union> held_bytes (snd c) = pool \<and>
     used (fst c) = base + held_size (snd c)"

lemma client_alloc:
  assumes "client_inv pool base (s, held) f"
  shows "\<exists>c f'. client_step al de (s, held) (Allocate k) = Some c \<and> client_inv pool base c f'"
proof -
  have inv: "inv s f" using assms by (simp add: client_inv_def)
  obtain r s' where al: "al s k = Some (r, s')" using al_returns [OF inv] by (metis not_None_eq prod.exhaust)
  show ?thesis
  proof (cases r)
    case (Ok b)
    obtain f' where f': "k < 12" "fits s' k b" "block_bytes k b \<subseteq> avail f" "used s' = used s + 2 ^ (k + 12)"
      "fits s' = fits s" "inv s' f'" "avail f' = avail f - block_bytes k b"
      using al_ok [OF inv al [unfolded Ok]] by blast
    then have "client_inv pool base (s', (b, k) # held) f'" using assms by (auto simp: client_inv_def)
    then show ?thesis using al Ok by auto
  next
    case (Err e)
    then show ?thesis using al al_err [OF inv, of k e s'] assms by auto
  qed
qed

lemma client_free:
  assumes "client_inv pool base (s, held) f"
  shows "\<exists>c f'. client_step al de (s, held) (Deallocate i) = Some c \<and> client_inv pool base c f'"
proof (cases "i < length held")
  case True
  obtain b k where bk: "held ! i = (b, k)" by fastforce
  have held: "held = take i held @ (b, k) # drop (Suc i) held" using id_take_nth_drop [OF True] bk by simp
  let ?xs = "take i held" and ?ys = "drop (Suc i) held"
  have c: "inv s f" "\<forall>(b, k)\<in>set (?xs @ (b, k) # ?ys). k < 12 \<and> fits s k b" "held_disjoint (?xs @ (b, k) # ?ys)"
    "avail f \<inter> held_bytes (?xs @ (b, k) # ?ys) = {}" "avail f \<union> held_bytes (?xs @ (b, k) # ?ys) = pool"
    "used s = base + held_size (?xs @ (b, k) # ?ys)"
    using assms held by (simp_all add: client_inv_def)
  then obtain s' f' where f': "de s b k = Some (Ok (), s')" "inv s' f'" "avail f' = avail f \<union> block_bytes k b"
    "used s' = used s - 2 ^ (k + 12)" "fits s' = fits s"
    using de_ok [OF c(1), of k b] by (auto simp: held_append)
  then have "client_inv pool base (s', ?xs @ ?ys) f'"
    using c by (auto simp: client_inv_def held_append)
  then show ?thesis using True bk f'(1) by auto
qed (use assms in auto)

lemma client_run_ok:
  "client_inv pool base c f \<Longrightarrow> \<exists>c' f'. client_run al de c ops = Some c' \<and> client_inv pool base c' f'"
proof (induction ops arbitrary: c f)
  case (Cons x ops)
  obtain s held where c: "c = (s, held)" by fastforce
  obtain c1 f1 where "client_step al de c x = Some c1" "client_inv pool base c1 f1"
    using client_alloc client_free Cons.prems unfolding c by (cases x) blast+
  then show ?case using Cons.IH by auto
qed auto

end

section \<open>The buddy allocator provides it\<close>

interpretation buddy: block_allocator buddy_inv free_bytes "\<lambda>s. unat (allocated (stats s))" "\<lambda>s. block_ok (phys_off s)" allocate deallocate
proof (unfold_locales, goal_cases)
  case (1 s f k)
  then show ?case by (rule allocate_cases [of s f k]) simp_all
next
  case (2 s f k b s')
  then show ?case
  proof (cases rule: allocate_cases [OF 2(1), of k, case_names fails block])
    case (block b1 s1 fl1)
    then have eq: "b1 = b" "s1 = s'" and a: "allocates s f k b s' fl1" using 2(2) by auto
    have "unat (allocated (stats s')) = unat (allocated (stats s)) + card (block_bytes k b)"
      using a 2(1) by (intro stats_inv_allocated [of _ "free_bytes f"]) (auto simp: allocates_def buddy_inv_def)
    then show ?thesis using a block(1) by (auto simp: allocates_def frame_def)
  qed (use 2(2) in simp)
next
  case (3 s f k e s')
  show ?case by (cases rule: allocate_cases [OF 3(1), of k]) (use 3(2) in simp_all)
next
  case (4 s f k b)
  obtain s' fl' where d: "deallocate s b k = Some (Ok (), s')" "deallocates s f k b s' fl'"
    using deallocate_ok [OF 4(2,1,3-5)] by blast
  have "stats_inv (stats s) (free_bytes fl' - block_bytes k b)"
    using d(2) 4(1,4) by (auto simp: deallocates_def buddy_inv_def Un_Diff Diff_triv Int_commute)
  then have "unat (allocated (stats s)) = unat (allocated (stats s')) + card (block_bytes k b)"
    using d(2) by (intro stats_inv_allocated [of _ "free_bytes fl'"]) (auto simp: deallocates_def buddy_inv_def)
  then show ?case using d by (auto simp: deallocates_def frame_def)
qed

text \<open>C1: For every sequence of allocations and frees by a client that frees only blocks it holds, the
  allocator never panics; at the end the blocks held are aligned to their size and pairwise disjoint,
  they do not overlap the free memory, and together with it they are exactly the memory that was free at the
  start: nothing is lost, nothing appears. The \<open>allocated\<close> statistic is the sum of the held sizes.\<close>

theorem buddy_client_safe:
  assumes "buddy_inv s fl"
  shows "\<exists>s' held fl'. client_run allocate deallocate (s, []) ops = Some (s', held) \<and> buddy_inv s' fl' \<and>
    held_disjoint held \<and> (\<forall>(b, k)\<in>set held. block_ok (phys_off s') k b) \<and>
    free_bytes fl' \<inter> held_bytes held = {} \<and> free_bytes fl' \<union> held_bytes held = free_bytes fl \<and>
    unat (allocated (stats s')) = unat (allocated (stats s)) + held_size held"
proof -
  have "buddy.client_inv (free_bytes fl) (unat (allocated (stats s))) (s, []) fl"
    using assms by (simp add: buddy.client_inv_def)
  then obtain c' f' where "client_run allocate deallocate (s, []) ops = Some c'"
    "buddy.client_inv (free_bytes fl) (unat (allocated (stats s))) c' f'"
    using buddy.client_run_ok by blast
  then show ?thesis by (cases c') (auto simp: buddy.client_inv_def)
qed

theorem buddy_client_safe_witness:
  "\<exists>s' held. client_run allocate deallocate (example_pmem, []) [Allocate 0, Allocate 0, Allocate 3, Deallocate 1] = Some (s', held) \<and>
    held_disjoint held \<and> unat (allocated (stats s')) = unat (allocated (stats example_pmem)) + held_size held"
  using buddy_client_safe [OF example_pmem_inv] by blast

end
