(* ===== verification/Page_Types.thy ===== *)
theory Page_Types
  imports Memmap
begin

text \<open>
  \<open>crates/kernel/src/page/types.rs\<close>, \<open>page/modes.rs\<close> and the entry format of \<open>page.rs\<close>: page sizes, the
  paging modes Sv39 and Sv48, flags, page table entries and virtual page numbers. \<open>VirtAddr\<close> and
  \<open>PhysAddr\<close> are transparent wrappers of \<open>usize\<close>. A \<open>Flags\<close> value is its bits; the declared flags
  are the bits 1 to 7, and \<open>from_bits_truncate\<close> drops the others.
\<close>

section \<open>Page sizes\<close>

datatype page_size = Kilopage | Megapage | Gigapage | Terapage

fun size_bytes :: "page_size \<Rightarrow> usize" where
  "size_bytes Kilopage = 4 * KIB"
| "size_bytes Megapage = 2 * MIB"
| "size_bytes Gigapage = 1 * GIB"
| "size_bytes Terapage = 512 * GIB"

definition is_aligned :: "page_size \<Rightarrow> usize \<Rightarrow> bool" where
  "is_aligned sz addr \<longleftrightarrow> addr mod size_bytes sz = 0"

fun vpn_idx :: "page_size \<Rightarrow> nat" where
  "vpn_idx Kilopage = 0"
| "vpn_idx Megapage = 1"
| "vpn_idx Gigapage = 2"
| "vpn_idx Terapage = 3"

fun step :: "page_size \<Rightarrow> page_size option" where
  "step Kilopage = None"
| "step Megapage = Some Kilopage"
| "step Gigapage = Some Megapage"
| "step Terapage = Some Gigapage"

text \<open>\<open>offset\<close> of both address types wraps.\<close>

definition addr_offset :: "usize \<Rightarrow> usize \<Rightarrow> usize" where
  "addr_offset a off = a + off"

section \<open>Paging modes\<close>

datatype satp_mode = Bare | Sv39 | Sv48

record paging_mode =
  LEVELS :: nat
  TOP_LEVEL_SIZE :: page_size
  SATP_MODE :: satp_mode
  MAX_ADDRESS :: usize

definition mode_Sv39 :: paging_mode where
  "mode_Sv39 = \<lparr>LEVELS = 3, TOP_LEVEL_SIZE = Gigapage, SATP_MODE = Sv39, MAX_ADDRESS = 0x7FFFFFFFFF\<rparr>"

definition mode_Sv48 :: paging_mode where
  "mode_Sv48 = \<lparr>LEVELS = 4, TOP_LEVEL_SIZE = Terapage, SATP_MODE = Sv48, MAX_ADDRESS = 0xFFFFFFFFFFFF\<rparr>"

section \<open>Flags and entries\<close>

definition FLAG_READ :: u8 where "FLAG_READ = push_bit 1 1"
definition FLAG_WRITE :: u8 where "FLAG_WRITE = push_bit 2 1"
definition FLAG_EXEC :: u8 where "FLAG_EXEC = push_bit 3 1"
definition FLAG_USER :: u8 where "FLAG_USER = push_bit 4 1"
definition FLAG_GLOBAL :: u8 where "FLAG_GLOBAL = push_bit 5 1"
definition FLAG_ACCESSED :: u8 where "FLAG_ACCESSED = push_bit 6 1"
definition FLAG_DIRTY :: u8 where "FLAG_DIRTY = push_bit 7 1"

definition from_bits_truncate :: "u8 \<Rightarrow> u8" where
  "from_bits_truncate b = b AND (FLAG_READ OR FLAG_WRITE OR FLAG_EXEC OR FLAG_USER OR FLAG_GLOBAL OR FLAG_ACCESSED OR FLAG_DIRTY)"

definition VALID :: u64 where "VALID = push_bit 0 1"

datatype entry_kind = Branch usize | Leaf

text \<open>\<open>self.0 as u8 >> 1 << 1\<close>: the cast keeps the low eight bits.\<close>

definition entry_flags :: "u64 \<Rightarrow> u8" where
  "entry_flags e = from_bits_truncate (push_bit 1 (drop_bit 1 (ucast e :: u8)))"

definition entry_kind_of :: "u64 \<Rightarrow> entry_kind option" where
  "entry_kind_of e =
     (let valid = e AND VALID \<noteq> 0 in
      if valid \<and> entry_flags e = 0 then Some (Branch (push_bit 12 (drop_bit 10 e AND 0x0FFFFFFFFFFF)))
      else if valid then Some Leaf else None)"

text \<open>The values \<open>map\<close> writes: a branch to a new table and a leaf.\<close>

definition branch_entry :: "usize \<Rightarrow> u64" where
  "branch_entry table_ptr = drop_bit 2 table_ptr OR VALID"

definition leaf_entry :: "usize \<Rightarrow> u8 \<Rightarrow> u64" where
  "leaf_entry paddr flags = push_bit 10 (drop_bit 12 paddr) OR ucast flags OR VALID"

section \<open>Virtual page numbers\<close>

definition vpn :: "usize \<Rightarrow> nat \<Rightarrow> nat" where
  "vpn vaddr idx = unat (drop_bit (12 + idx * 9) vaddr AND 0x1FF)"

text \<open>\<open>set_vpn\<close> is only called with the \<open>vpn_idx\<close> of a page size, so its shifts are in range.\<close>

definition set_vpn :: "usize \<Rightarrow> nat \<Rightarrow> usize \<Rightarrow> usize option" where
  "set_vpn vaddr idx val =
     do { m0 \<leftarrow> shl_chk 1 9;
          m \<leftarrow> sub_chk m0 1;
          let shamt = idx * 9;
          v \<leftarrow> shl_chk (val AND m) (shamt + 12);
          m' \<leftarrow> shl_chk m (shamt + 12);
          Some ((vaddr AND NOT m') OR v) }"

text \<open>The page offset \<open>translate\<close> keeps of the virtual address.\<close>

fun page_off :: "page_size \<Rightarrow> usize \<Rightarrow> usize" where
  "page_off Kilopage off = off AND 0xFFF"
| "page_off Megapage off = off AND 0x1FFFFF"
| "page_off Gigapage off = off AND 0x3FFFFFFF"
| "page_off Terapage off = off AND 0x7FFFFFFFFF"

lemmas [exec_defs] = is_aligned_def mode_Sv39_def mode_Sv48_def FLAG_READ_def FLAG_WRITE_def FLAG_EXEC_def
  FLAG_USER_def FLAG_GLOBAL_def FLAG_ACCESSED_def FLAG_DIRTY_def from_bits_truncate_def VALID_def
  entry_flags_def entry_kind_of_def branch_entry_def leaf_entry_def vpn_def set_vpn_def addr_offset_def
  KIB_def MIB_def GIB_def TIB_def

section \<open>Arithmetic of sizes and offsets\<close>

lemma unat_size_bytes: "unat (size_bytes sz) = 2 ^ (12 + 9 * vpn_idx sz)"
  by (cases sz) (simp_all add: KIB_def MIB_def GIB_def)

lemma size_bytes_pow: "size_bytes sz = 2 ^ (12 + 9 * vpn_idx sz)"
  by (cases sz) (simp_all add: KIB_def MIB_def GIB_def)

lemma page_off_mask: "page_off sz v = take_bit (12 + 9 * vpn_idx sz) v"
  by (cases sz) (simp_all add: take_bit_eq_mask mask_numeral)

lemma is_aligned_iff: "is_aligned sz a \<longleftrightarrow> 2 ^ (12 + 9 * vpn_idx sz) dvd unat a"
  by (simp add: is_aligned_def word_unat_eq_iff unat_mod unat_size_bytes dvd_eq_mod_eq_0 del: size_bytes.simps)

lemma vpn_eq: "vpn v i = unat v div 2 ^ (12 + 9 * i) mod 512"
proof -
  have "vpn v i = unat (take_bit 9 (drop_bit (12 + i * 9) v))"
    by (simp add: vpn_def take_bit_eq_mask mask_numeral)
  also have "\<dots> = take_bit 9 (unat v div 2 ^ (12 + i * 9))"
    by (simp only: unsigned_take_bit_eq unat_drop_bit_eq drop_bit_nat_def)
  finally show ?thesis by (simp add: take_bit_nat_def mult.commute)
qed

lemma vpn_less [simp]: "vpn v i < 512"
  by (simp add: vpn_eq)

section \<open>Entries\<close>

lemma bit_0xFE: "bit (0xFE :: u8) n \<longleftrightarrow> 1 \<le> n \<and> n < 8"
proof -
  have eq: "(0xFE :: u8) = push_bit 1 (mask 7)" by (simp add: mask_numeral push_bit_eq_mult)
  show ?thesis unfolding eq bit_push_bit_iff bit_mask_iff by auto
qed

lemma bit_0x0FFFFFFFFFFF: "bit (0x0FFFFFFFFFFF :: u64) n \<longleftrightarrow> n < 44"
proof -
  have eq: "(0x0FFFFFFFFFFF :: u64) = mask 44" by (simp add: mask_numeral)
  show ?thesis unfolding eq bit_mask_iff by auto
qed

lemma from_bits_truncate_eq: "from_bits_truncate b = b AND 0xFE"
  by (simp add: from_bits_truncate_def FLAG_READ_def FLAG_WRITE_def FLAG_EXEC_def FLAG_USER_def FLAG_GLOBAL_def
      FLAG_ACCESSED_def FLAG_DIRTY_def)

lemma bit_entry_flags: "bit (entry_flags e) n \<longleftrightarrow> 1 \<le> n \<and> n < 8 \<and> bit e n"
  unfolding entry_flags_def from_bits_truncate_eq bit_and_iff bit_push_bit_iff bit_drop_bit_eq bit_0xFE
  by (auto simp: bit_unsigned_iff)

lemma and_VALID: "e AND VALID \<noteq> 0 \<longleftrightarrow> bit e 0"
  by (simp add: VALID_def and_one_eq mod_2_eq_odd bit_0)

text \<open>A \<open>Flags\<close> value never has bit 0.\<close>

definition flags_ok :: "u8 \<Rightarrow> bool" where
  "flags_ok f \<longleftrightarrow> \<not> bit f 0"

lemma nat_12_cases: obtains "n < (12::nat)" | m where "n = 12 + m"
  using le_Suc_ex [of 12 n] not_less by blast

lemma bit_leaf_entry:
  "bit (leaf_entry p f) n \<longleftrightarrow> n < 64 \<and> (10 \<le> n \<and> bit p (n + 2) \<or> bit f n \<or> n = 0)"
  by (auto simp: leaf_entry_def VALID_def bit_simps bit_0 dest: bit_imp_le_length)

lemma bit_branch_entry: "bit (branch_entry t) n \<longleftrightarrow> n < 64 \<and> (bit t (n + 2) \<or> n = 0)"
  by (auto simp: branch_entry_def VALID_def bit_simps bit_0 dest: bit_imp_le_length)

lemma page_aligned_bits: "4096 dvd unat a \<Longrightarrow> n < 12 \<Longrightarrow> \<not> bit a n"
proof -
  assume d: "4096 dvd unat a" and n: "n < 12"
  have "take_bit 12 (unat a) = 0" using d by (simp add: take_bit_nat_def dvd_eq_mod_eq_0)
  then have "\<not> bit (take_bit 12 (unat a)) n" by simp
  then show ?thesis using n by (simp add: bit_take_bit_iff bit_unsigned_iff)
qed

lemma high_bits_clear: "unat a < 2 ^ k \<Longrightarrow> k \<le> n \<Longrightarrow> \<not> bit a n"
proof -
  assume "unat a < 2 ^ k" "k \<le> n"
  then have "take_bit k (unat a) = unat a" by (simp add: take_bit_nat_eq_self)
  then have "\<not> bit (unat a) n" using \<open>k \<le> n\<close> by (metis bit_take_bit_iff not_le)
  then show ?thesis by (auto simp: bit_unsigned_iff dest: bit_imp_le_length)
qed

lemma kind_leaf [simp]: "flags_ok f \<Longrightarrow> f \<noteq> 0 \<Longrightarrow> entry_kind_of (leaf_entry p f) = Some Leaf"
proof -
  assume f: "flags_ok f" "f \<noteq> 0"
  then obtain n where n: "bit f n" by (metis bit_eqI bit_0_eq bot_apply bot_bool_def)
  then have "n \<noteq> 0" "n < 8" using f(1) bit_imp_le_length [OF n] unfolding flags_ok_def by (metis, simp)
  then have "bit (entry_flags (leaf_entry p f)) n" using n by (simp add: bit_entry_flags bit_leaf_entry)
  then have "entry_flags (leaf_entry p f) \<noteq> 0" by auto
  then show ?thesis by (simp add: entry_kind_of_def and_VALID bit_leaf_entry Let_def)
qed

lemma flags_leaf [simp]: "flags_ok f \<Longrightarrow> entry_flags (leaf_entry p f) = f"
  by (rule bit_eqI) (auto simp: bit_entry_flags bit_leaf_entry flags_ok_def Suc_le_eq dest: bit_imp_le_length
      intro: gr0I)

lemma addr_leaf [simp]:
  assumes "4096 dvd unat p"
  shows "push_bit 12 (drop_bit 10 (leaf_entry p f)) = p"
proof (rule bit_eqI)
  fix n
  show "bit (push_bit 12 (drop_bit 10 (leaf_entry p f))) n = bit p n"
    unfolding bit_push_bit_iff bit_drop_bit_eq comp_apply bit_leaf_entry
    by (rule nat_12_cases [of n]) (use page_aligned_bits [OF assms, of n] in \<open>auto dest: bit_imp_le_length\<close>)
qed

lemma kind_branch [simp]:
  "4096 dvd unat t \<Longrightarrow> unat t < 2 ^ 56 \<Longrightarrow> entry_kind_of (branch_entry t) = Some (Branch t)"
proof -
  assume t: "4096 dvd unat t" "unat t < 2 ^ 56"
  have "entry_flags (branch_entry t) = 0"
    by (rule bit_eqI) (auto simp: bit_entry_flags bit_branch_entry page_aligned_bits [OF t(1)])
  moreover have "push_bit 12 (drop_bit 10 (branch_entry t) AND 0x0FFFFFFFFFFF) = t"
  proof (rule bit_eqI)
    fix n
    show "bit (push_bit 12 (drop_bit 10 (branch_entry t) AND 0x0FFFFFFFFFFF)) n = bit t n"
      unfolding bit_push_bit_iff bit_and_iff bit_drop_bit_eq comp_apply bit_branch_entry bit_0x0FFFFFFFFFFF
      by (rule nat_12_cases [of n]) (use page_aligned_bits [OF t(1), of n] high_bits_clear [OF t(2), of n] in \<open>auto simp: not_less intro: ccontr\<close>)
  qed
  ultimately show ?thesis by (simp add: entry_kind_of_def and_VALID bit_branch_entry Let_def)
qed

lemma kind_zero [simp]: "entry_kind_of 0 = None"
  by (simp add: entry_kind_of_def)

end
