(* ===== verification/Page_Walk.thy ===== *)
theory Page_Walk
  imports Page_Types Buddy
begin

text \<open>
  The read side of \<open>crates/kernel/src/page.rs\<close>: the \<open>PageTable\<close> structure, \<open>traverse\<close>, \<open>translate\<close> and
  \<open>unmap\<close>, and the state of the kernel that physical memory and paging share. A reference to a table is the virtual
  address of its first entry; entry \<open>i\<close> is the cell at \<open>table + 8 * i\<close>. The \<open>subtables\<close> vector is its
  pointer, capacity and elements; the elements are kept as a list instead of in the buffer's memory.
  The outer \<open>option\<close> is panicking, the inner one is the \<open>Option\<close> of the source.
\<close>

datatype page_error = UnsupportedPageSize | InvalidAddress | UnalignedAddress | AlreadyMapped | AllocErr alloc_error

record page_table =
  entries :: usize
  sub_ptr :: usize
  sub_cap :: nat
  subtables :: "usize list"

text \<open>
  The physical memory allocator \<open>PHYS_MEM\<close> with the global \<open>PAGE_TABLE\<close>, whether its mutex is held, and
  the addresses passed to \<open>sfence.vma\<close>, latest first.
\<close>

record kernel = pmem +
  root_table :: "page_table option"
  root_locked :: bool
  fences :: "usize list"

definition sfence :: "usize \<Rightarrow> 'a kernel_scheme \<Rightarrow> 'a kernel_scheme" where
  "sfence vaddr s = s\<lparr>fences := vaddr # fences s\<rparr>"

record mapping =
  table_mib :: "usize option"
  table_kib :: "usize option"
  map_entry :: usize
  map_size :: page_size

definition entry_addr :: "usize \<Rightarrow> usize \<Rightarrow> nat \<Rightarrow> usize" where
  "entry_addr table vaddr idx = table + 8 * of_nat (vpn vaddr idx)"

fun size_of_idx :: "nat \<Rightarrow> page_size option" where
  "size_of_idx idx = (if idx = 0 then Some Kilopage else if idx = 1 then Some Megapage
     else if idx = 2 then Some Gigapage else None)"

function traverse_loop :: "'a machine_scheme \<Rightarrow> usize \<Rightarrow> usize \<Rightarrow> nat \<Rightarrow> usize option \<Rightarrow> usize option \<Rightarrow> mapping option option" where
  "traverse_loop s vaddr table idx mib kib =
     (let entry = entry_addr table vaddr idx in
      case entry_kind_of (mem s entry) of
        None \<Rightarrow> Some None
      | Some Leaf \<Rightarrow> do {
          size \<leftarrow> size_of_idx idx;
          Some (Some \<lparr>table_mib = mib, table_kib = kib, map_entry = entry, map_size = size\<rparr>) }
      | Some (Branch new_table_ptr) \<Rightarrow> do {
          new_table \<leftarrow> phys2virt s new_table_ptr;
          if new_table = 0 then None
          else (let kib' = (if idx = 1 then Some new_table_ptr else kib);
                    mib' = (if idx = 2 then Some new_table_ptr else mib) in
                if idx = 0 then Some None else traverse_loop s vaddr new_table (idx - 1) mib' kib') })"
  by pat_completeness auto
termination
  by (relation "measure (\<lambda>(s, vaddr, table, idx, mib, kib). idx)") auto

declare traverse_loop.simps [simp del]

definition traverse :: "paging_mode \<Rightarrow> 'a machine_scheme \<Rightarrow> page_table \<Rightarrow> usize \<Rightarrow> mapping option option" where
  "traverse m s pt vaddr = traverse_loop s vaddr (entries pt) (LEVELS m - 1) None None"

definition translate :: "paging_mode \<Rightarrow> 'a machine_scheme \<Rightarrow> page_table \<Rightarrow> usize \<Rightarrow> (usize \<times> page_size \<times> u8) option option" where
  "translate m s pt vaddr =
     do { r \<leftarrow> traverse m s pt vaddr;
          Some (case r of
            None \<Rightarrow> None
          | Some mp \<Rightarrow>
              let entry = mem s (map_entry mp);
                  off = page_off (map_size mp) vaddr;
                  ppn = push_bit 12 (drop_bit 10 entry)
              in Some (addr_offset ppn off, map_size mp, entry_flags entry)) }"

definition unmap :: "paging_mode \<Rightarrow> 'a machine_scheme \<Rightarrow> page_table \<Rightarrow> usize \<Rightarrow> ((bool, page_error) result \<times> 'a machine_scheme) option" where
  "unmap m s pt vaddr =
     do { r \<leftarrow> traverse m s pt vaddr;
          Some (case r of
            None \<Rightarrow> (Ok False, s)
          | Some mp \<Rightarrow> (Ok True, s\<lparr>mem := (mem s)(map_entry mp := 0)\<rparr>)) }"

lemmas [exec_defs] = sfence_def entry_addr_def traverse_loop.simps traverse_def translate_def unmap_def

end
