(* ===== verification/Page_Tree.thy ===== *)
theory Page_Tree
  imports Page_Walk
begin

text \<open>
  Page tables as trees in memory. \<open>tbl\<close> follows a path of entry indices from the root; the invariant
  \<open>pt_tree\<close> says that every table is a page of its own (different paths lead to different
  tables), that no table lies in free memory, and that entries of the last level are never branches.
  \<open>lookup\<close> is the abstract walk; writing one entry changes it exactly for the addresses whose path
  goes through this entry.
\<close>

section \<open>Paths\<close>

fun tbl :: "(usize \<Rightarrow> u64) \<Rightarrow> usize \<Rightarrow> usize \<Rightarrow> nat list \<Rightarrow> usize option" where
  "tbl h off t [] = Some t"
| "tbl h off t (i # p) = (case entry_kind_of (h (t + 8 * of_nat i)) of
     Some (Branch n) \<Rightarrow> tbl h off (n + off) p | _ \<Rightarrow> None)"

definition paths :: "nat \<Rightarrow> nat list set" where
  "paths L = {p. length p < L \<and> set p \<subseteq> {..<512}}"

lemma tbl_append: "tbl h off t (p @ q) = (case tbl h off t p of None \<Rightarrow> None | Some t' \<Rightarrow> tbl h off t' q)"
  by (induction p arbitrary: t) (auto split: option.splits entry_kind.splits)

lemma tbl_snoc: "tbl h off t (p @ [i]) = (case tbl h off t p of None \<Rightarrow> None | Some t' \<Rightarrow>
    (case entry_kind_of (h (t' + 8 * of_nat i)) of Some (Branch n) \<Rightarrow> Some (n + off) | _ \<Rightarrow> None))"
  by (simp add: tbl_append split: option.splits entry_kind.splits)

lemma paths_append: "p @ q \<in> paths L \<Longrightarrow> p \<in> paths L"
  by (auto simp: paths_def)

lemma paths_snoc: "p @ [i] \<in> paths L \<longleftrightarrow> p \<in> paths L \<and> Suc (length p) < L \<and> i < 512"
  by (auto simp: paths_def)

section \<open>The invariant\<close>

definition table_page :: "usize \<Rightarrow> usize \<Rightarrow> nat set" where
  "table_page off t = {unat t - unat off ..< unat t - unat off + 4096}"

definition table_ok :: "usize \<Rightarrow> nat set \<Rightarrow> usize \<Rightarrow> bool" where
  "table_ok off F t \<longleftrightarrow> 4096 dvd unat t \<and> t \<noteq> 0 \<and> unat off \<le> unat t \<and> table_page off t \<inter> F = {}"

definition entry_ok :: "usize \<Rightarrow> nat \<Rightarrow> nat list \<Rightarrow> u64 \<Rightarrow> bool" where
  "entry_ok off L p e \<longleftrightarrow> (case entry_kind_of e of
     None \<Rightarrow> True
   | Some (Branch n) \<Rightarrow> Suc (length p) < L \<and> unat n + unat off < 2 ^ 64
   | Some Leaf \<Rightarrow> L < 4 + length p)"

definition pt_tree :: "(usize \<Rightarrow> u64) \<Rightarrow> usize \<Rightarrow> usize \<Rightarrow> nat \<Rightarrow> nat set \<Rightarrow> bool" where
  "pt_tree h off rt L F \<longleftrightarrow> 4096 dvd unat off \<and>
     (\<forall>p\<in>paths L. \<forall>t. tbl h off rt p = Some t \<longrightarrow> table_ok off F t \<and> (\<forall>i<512. entry_ok off L p (h (t + 8 * of_nat i)))) \<and>
     (\<forall>p\<in>paths L. \<forall>q\<in>paths L. \<forall>t. tbl h off rt p = Some t \<longrightarrow> tbl h off rt q = Some t \<longrightarrow> p = q)"

lemma pt_treeD:
  assumes "pt_tree h off rt L F" "p \<in> paths L" "tbl h off rt p = Some t"
  shows "table_ok off F t" "i < 512 \<Longrightarrow> entry_ok off L p (h (t + 8 * of_nat i))"
    "q \<in> paths L \<Longrightarrow> tbl h off rt q = Some t \<Longrightarrow> p = q"
  using assms unfolding pt_tree_def by blast+

lemma unat_cell:
  assumes "4096 dvd unat (t :: usize)" "i < 512"
  shows "unat (t + 8 * of_nat i) = unat t + 8 * i"
proof -
  obtain q where q: "unat t = 4096 * q" using assms(1) by (elim dvdE)
  have "4096 * q < 4096 * 2 ^ 52" using unat_less_2p [of t] q by simp
  then have "q + 1 \<le> 2 ^ 52" by simp
  then have "unat t + 4096 \<le> 2 ^ 64" using q by simp
  moreover have i: "unat (8 * of_nat i :: usize) = 8 * i"
    using assms(2) by (simp add: unat_word_ariths unat_of_nat)
  ultimately show ?thesis using assms(2) by (subst unat_add_lem [THEN iffD1]) auto
qed

lemma cell_inj:
  assumes "4096 dvd unat (t :: usize)" "4096 dvd unat (t' :: usize)" "i < 512" "j < 512"
    "t + 8 * of_nat i = t' + 8 * of_nat j"
  shows "t = t' \<and> i = j"
proof -
  have eq: "unat t + 8 * i = unat t' + 8 * j" using assms by (metis unat_cell)
  obtain q r where "unat t = 4096 * q" "unat t' = 4096 * r" using assms(1,2) by (elim dvdE)
  then have e: "512 * q + i = 512 * r + j" "unat t = 4096 * q" "unat t' = 4096 * r" using eq by simp_all
  have "q = (512 * q + i) div 512" "r = (512 * r + j) div 512" using assms(3,4) by simp_all
  then have "q = r" using e(1) by simp
  then show ?thesis using e by (simp add: word_unat_eq_iff)
qed

lemma cell_in_page:
  assumes "table_ok off F t" "j < 512"
  shows "unat (t + 8 * of_nat j - off) \<in> table_page off t"
proof -
  have t: "4096 dvd unat t" "unat off \<le> unat t" using assms(1) by (auto simp: table_ok_def)
  have "unat (t + 8 * of_nat j - off) = unat t - unat off + 8 * j"
    using t(2) unat_cell [OF t(1) assms(2)] by (simp add: unat_sub word_le_nat_alt)
  then show ?thesis using assms(2) by (simp add: table_page_def)
qed

section \<open>Writing one entry\<close>

text \<open>Memory that agrees on all cells of all tables but one gives the same tables on the other paths.\<close>

definition same_but :: "nat \<Rightarrow> (usize \<Rightarrow> u64) \<Rightarrow> (usize \<Rightarrow> u64) \<Rightarrow> usize \<Rightarrow> usize \<Rightarrow> nat list \<Rightarrow> nat \<Rightarrow> bool" where
  "same_but L h h' off rt p0 i0 \<longleftrightarrow> (\<forall>q\<in>paths L. \<forall>t. tbl h off rt q = Some t \<longrightarrow>
     (\<forall>j<512. (q, j) \<noteq> (p0, i0) \<longrightarrow> h' (t + 8 * of_nat j) = h (t + 8 * of_nat j)))"

lemma same_butD:
  "same_but L h h' off rt p0 i0 \<Longrightarrow> q \<in> paths L \<Longrightarrow> tbl h off rt q = Some t \<Longrightarrow> j < 512 \<Longrightarrow> (q, j) \<noteq> (p0, i0) \<Longrightarrow>
    h' (t + 8 * of_nat j) = h (t + 8 * of_nat j)"
  by (simp add: same_but_def)

lemma tbl_unchanged:
  assumes "same_but L h h' off rt p0 i0" "p \<in> paths L" "\<And>r. p \<noteq> p0 @ [i0] @ r"
  shows "tbl h' off rt p = tbl h off rt p"
  using assms(2,3)
proof (induction p rule: rev_induct)
  case (snoc j q)
  have ne: "\<And>r. q \<noteq> p0 @ [i0] @ r" "(q, j) \<noteq> (p0, i0)" using snoc.prems(2) by fastforce+
  have q: "q \<in> paths L" "j < 512" using snoc.prems(1) by (simp_all add: paths_snoc)
  then have "tbl h' off rt q = tbl h off rt q" using snoc.IH ne(1) by blast
  then show ?case
    using same_butD [OF assms(1) q(1) _ q(2) ne(2)] by (simp add: tbl_snoc split: option.splits)
qed simp

text \<open>The walk.\<close>

fun lookup :: "(usize \<Rightarrow> u64) \<Rightarrow> usize \<Rightarrow> usize \<Rightarrow> usize \<Rightarrow> nat \<Rightarrow> (u64 \<times> nat) option" where
  "lookup h off t v 0 = None"
| "lookup h off t v (Suc i) = (let e = h (entry_addr t v i) in
     case entry_kind_of e of None \<Rightarrow> None | Some Leaf \<Rightarrow> Some (e, i) | Some (Branch n) \<Rightarrow> lookup h off (n + off) v i)"

definition vpath :: "usize \<Rightarrow> nat \<Rightarrow> nat \<Rightarrow> nat list" where
  "vpath v L i = map (vpn v) (rev [i..<L])"

lemma vpath_length [simp]: "length (vpath v L i) = L - i"
  by (simp add: vpath_def)

lemma vpath_step: "i < L \<Longrightarrow> vpath v L i = vpath v L (Suc i) @ [vpn v i]"
  by (simp add: vpath_def upt_conv_Cons)

lemma vpath_top [simp]: "vpath v L L = []"
  by (simp add: vpath_def)

lemma vpath_paths: "0 < i \<Longrightarrow> i \<le> L \<Longrightarrow> vpath v L i \<in> paths L"
  by (auto simp: paths_def vpath_def)

lemma lookup_at:
  assumes "i \<le> L" "tbl h off rt (vpath v L i) = Some t"
  shows "lookup h off rt v L = lookup h off t v i"
proof -
  have "\<forall>t. tbl h off rt (vpath v L i) = Some t \<longrightarrow> lookup h off rt v L = lookup h off t v i"
    using assms(1)
  proof (induction rule: inc_induct)
    case (step n)
    then show ?case
      by (auto simp: vpath_step tbl_snoc entry_addr_def split: option.splits entry_kind.splits)
  qed simp
  then show ?thesis using assms(2) by blast
qed

text \<open>Where the path of the address ends: at a table whose entry is not a branch.\<close>

lemma lookup_end:
  assumes "0 < L"
  obtains i t where "i < L" "tbl h off rt (vpath v L (Suc i)) = Some t"
    "i = 0 \<or> (\<nexists>n. entry_kind_of (h (entry_addr t v i)) = Some (Branch n))"
proof -
  have "\<exists>i<k. \<exists>t. tbl h off rt (vpath v L (Suc i)) = Some t \<and>
      (i = 0 \<or> (\<nexists>n. entry_kind_of (h (entry_addr t v i)) = Some (Branch n)))"
    if "k \<le> L" "0 < k" "tbl h off rt (vpath v L k) \<noteq> None" for k
    using that
  proof (induction k)
    case (Suc k)
    obtain t where t: "tbl h off rt (vpath v L (Suc k)) = Some t" using Suc.prems(3) by blast
    show ?case
    proof (cases "\<exists>n. entry_kind_of (h (entry_addr t v k)) = Some (Branch n) \<and> k \<noteq> 0")
      case True
      then have "tbl h off rt (vpath v L k) \<noteq> None"
        using t Suc.prems(1) by (auto simp: vpath_step [of k L v] tbl_snoc entry_addr_def)
      then show ?thesis using Suc.IH Suc.prems True by (meson Suc_leD less_SucI neq0_conv)
    next
      case False
      then show ?thesis using t by blast
    qed
  qed simp
  from this [of L] show thesis using assms that by auto
qed

lemma vpath_prefix: "i \<le> L \<Longrightarrow> \<exists>r. vpath v L 0 = vpath v L i @ r"
proof -
  assume "i \<le> L"
  then have "[0..<L] = [0..<i] @ [i..<L]" by (metis le_Suc_ex upt_add_eq_append zero_le)
  then show ?thesis by (simp add: vpath_def)
qed

text \<open>Addresses whose path avoids the entry are looked up as before.\<close>

lemma lookup_other:
  assumes "same_but L h h' off rt p0 i0" "\<And>r. vpath v L 0 \<noteq> p0 @ [i0] @ r"
  shows "lookup h' off rt v L = lookup h off rt v L"
proof (cases "L = 0")
  case False
  then obtain i t where it: "i < L" "tbl h off rt (vpath v L (Suc i)) = Some t"
    "i = 0 \<or> (\<nexists>n. entry_kind_of (h (entry_addr t v i)) = Some (Branch n))"
    using lookup_end [of L h off rt v] by blast
  have path: "vpath v L (Suc i) \<in> paths L" using it(1) by (simp add: vpath_paths)
  have ne: "vpath v L j \<noteq> p0 @ [i0] @ r" if "j \<le> L" for j r
    using assms(2) vpath_prefix [OF that, of v] by (metis append.assoc)
  have t': "tbl h' off rt (vpath v L (Suc i)) = Some t"
    using tbl_unchanged [OF assms(1) path] ne it by (metis Suc_leI)
  have "(vpath v L (Suc i), vpn v i) \<noteq> (p0, i0)"
    using ne [of i "[]"] it(1) vpath_step [OF it(1), of v] by auto
  then have e: "h' (entry_addr t v i) = h (entry_addr t v i)"
    unfolding entry_addr_def using same_butD [OF assms(1) path it(2)] by simp
  have "lookup h' off rt v L = lookup h' off t v (Suc i)" "lookup h off rt v L = lookup h off t v (Suc i)"
    using lookup_at [of "Suc i" L] it(1,2) t' by simp_all
  then show ?thesis using e it(3) by (auto simp: Let_def split: option.splits entry_kind.splits)
qed simp

lemma tbl_at:
  assumes "same_but L h h' off rt p0 i0" "p0 \<in> paths L"
  shows "tbl h' off rt p0 = tbl h off rt p0"
  using assms by (intro tbl_unchanged) auto

text \<open>Addresses whose path goes through it are looked up from the new entry.\<close>

lemma lookup_through:
  assumes "same_but L h h' off rt (vpath v L (Suc i)) i0" "i < L" "tbl h off rt (vpath v L (Suc i)) = Some t"
  shows "lookup h' off rt v L = lookup h' off t v (Suc i)"
  using assms tbl_at [OF assms(1)] by (intro lookup_at) (auto simp: vpath_paths)

text \<open>The tables after a write of an entry that is no branch, and after a write of a branch to a new table without entries.\<close>

lemma tbl_write:
  assumes "same_but L h h' off rt p0 i0" "p0 \<in> paths L" "tbl h off rt p0 = Some t0"
    "\<nexists>n. entry_kind_of (h' (t0 + 8 * of_nat i0)) = Some (Branch n)" "p \<in> paths L" "tbl h' off rt p = Some t"
  shows "tbl h off rt p = Some t"
proof -
  have "tbl h' off rt (p0 @ [i0] @ r) = None" for r
    using assms(4) tbl_at [OF assms(1,2)] assms(3) by (auto simp: tbl_append split: option.splits entry_kind.splits)
  then have "p \<noteq> p0 @ [i0] @ r" for r using assms(6) by auto
  then show ?thesis using tbl_unchanged [OF assms(1,5)] assms(6) by simp
qed

lemma tbl_branch:
  assumes "same_but L h h' off rt p0 i0" "p0 \<in> paths L" "tbl h off rt p0 = Some t0"
    "entry_kind_of (h' (t0 + 8 * of_nat i0)) = Some (Branch n)" "\<And>j. j < 512 \<Longrightarrow> h' (n + off + 8 * of_nat j) = 0"
  shows "tbl h' off rt (p0 @ [i0]) = Some (n + off)"
    "p \<in> paths L \<Longrightarrow> tbl h' off rt p = Some t \<Longrightarrow> p = p0 @ [i0] \<and> t = n + off \<or> tbl h off rt p = Some t \<and> p \<noteq> p0 @ [i0]"
proof -
  show t1: "tbl h' off rt (p0 @ [i0]) = Some (n + off)"
    using assms(4) tbl_at [OF assms(1,2)] assms(3) by (simp add: tbl_snoc)
  assume p: "p \<in> paths L" "tbl h' off rt p = Some t"
  show "p = p0 @ [i0] \<and> t = n + off \<or> tbl h off rt p = Some t \<and> p \<noteq> p0 @ [i0]"
  proof (cases "\<exists>r. p = p0 @ [i0] @ r")
    case True
    then obtain r where r: "p = (p0 @ [i0]) @ r" by auto
    then have "tbl h' off (n + off) r = Some t"
      using p(2) t1 tbl_append [of h' off rt "p0 @ [i0]" r] by (simp del: append_assoc)
    moreover have "set r \<subseteq> {..<512}" using p(1) r by (simp add: paths_def)
    ultimately have "r = []" using assms(5) by (cases r) auto
    then show ?thesis using r p(2) t1 by simp
  next
    case False
    then show ?thesis using tbl_unchanged [OF assms(1) p(1)] p(2) by fastforce
  qed
qed

text \<open>The physical memory that the tables occupy.\<close>

definition pt_bytes :: "(usize \<Rightarrow> u64) \<Rightarrow> usize \<Rightarrow> usize \<Rightarrow> nat \<Rightarrow> nat set" where
  "pt_bytes h off rt L = (\<Union>{table_page off t |p t. p \<in> paths L \<and> tbl h off rt p = Some t})"

lemma pt_bytes_table: "p \<in> paths L \<Longrightarrow> tbl h off rt p = Some t \<Longrightarrow> table_page off t \<subseteq> pt_bytes h off rt L"
  by (auto simp: pt_bytes_def)

lemma pt_bytes_write:
  assumes "same_but L h h' off rt p0 i0" "p0 \<in> paths L" "tbl h off rt p0 = Some t0"
    "\<nexists>n. entry_kind_of (h' (t0 + 8 * of_nat i0)) = Some (Branch n)"
  shows "pt_bytes h' off rt L \<subseteq> pt_bytes h off rt L"
  using tbl_write [OF assms] by (auto simp: pt_bytes_def) blast

lemma pt_bytes_branch:
  assumes "same_but L h h' off rt p0 i0" "p0 \<in> paths L" "tbl h off rt p0 = Some t0"
    "entry_kind_of (h' (t0 + 8 * of_nat i0)) = Some (Branch n)" "\<And>j. j < 512 \<Longrightarrow> h' (n + off + 8 * of_nat j) = 0"
  shows "pt_bytes h' off rt L \<subseteq> pt_bytes h off rt L \<union> table_page off (n + off)"
  using tbl_branch(2) [OF assms] by (auto simp: pt_bytes_def) blast

lemma pt_bytes_free: "pt_tree h off rt L F \<Longrightarrow> pt_bytes h off rt L \<inter> F = {}"
  by (fastforce simp: pt_bytes_def pt_tree_def table_ok_def)

lemma pt_bytes_same:
  assumes "pt_tree h off rt L F" "\<And>x. unat x \<in> pt_bytes h off rt L \<Longrightarrow> h' (x + off) = h (x + off)" "p \<in> paths L"
  shows "tbl h' off rt p = tbl h off rt p"
  using assms(3)
proof (induction p rule: rev_induct)
  case (snoc j q)
  have q: "q \<in> paths L" "j < 512" using snoc.prems by (simp_all add: paths_snoc)
  have "h' (t + 8 * of_nat j) = h (t + 8 * of_nat j)" if t: "tbl h off rt q = Some t" for t
  proof -
    have "unat (t + 8 * of_nat j - off) \<in> pt_bytes h off rt L"
      using cell_in_page [OF pt_treeD(1) [OF assms(1) q(1) t] q(2)] pt_bytes_table [OF q(1) t] by blast
    then show ?thesis using assms(2) [of "t + 8 * of_nat j - off"] by simp
  qed
  then show ?case using snoc.IH [OF q(1)] by (simp add: tbl_snoc split: option.splits)
qed simp

lemma pt_tree_write:
  assumes tree: "pt_tree h off rt L F" and same: "same_but L h h' off rt p0 i0"
    and t0: "p0 \<in> paths L" "tbl h off rt p0 = Some t0" "i0 < 512"
    and e: "entry_ok off L p0 (h' (t0 + 8 * of_nat i0))" "\<nexists>n. entry_kind_of (h' (t0 + 8 * of_nat i0)) = Some (Branch n)"
    and ok: "\<And>p t. p \<in> paths L \<Longrightarrow> tbl h off rt p = Some t \<Longrightarrow> table_ok off F' t"
  shows "pt_tree h' off rt L F'"
proof -
  note old = tbl_write [OF same t0(1,2) e(2)]
  have ent: "entry_ok off L p (h' (t + 8 * of_nat i))" if p: "p \<in> paths L" "tbl h' off rt p = Some t" "i < 512" for p t i
  proof (cases "(p, i) = (p0, i0)")
    case True
    then show ?thesis using old [OF p(1,2)] t0(2) e(1) by auto
  next
    case False
    then show ?thesis
      using same_butD [OF same p(1) old [OF p(1,2)] p(3)] pt_treeD(2) [OF tree p(1) old [OF p(1,2)] p(3)] by simp
  qed
  show ?thesis
    unfolding pt_tree_def using ent old ok tree [unfolded pt_tree_def] by metis
qed

lemma pt_tree_branch:
  assumes tree: "pt_tree h off rt L F" and same: "same_but L h h' off rt p0 i0"
    and t0: "p0 \<in> paths L" "tbl h off rt p0 = Some t0" "i0 < 512"
    and e: "entry_kind_of (h' (t0 + 8 * of_nat i0)) = Some (Branch n)" "entry_ok off L p0 (h' (t0 + 8 * of_nat i0))"
    and new: "table_ok off F' (n + off)" "\<And>j. j < 512 \<Longrightarrow> h' (n + off + 8 * of_nat j) = 0"
      "\<And>p. p \<in> paths L \<Longrightarrow> tbl h off rt p \<noteq> Some (n + off)"
    and ok: "\<And>p t. p \<in> paths L \<Longrightarrow> tbl h off rt p = Some t \<Longrightarrow> table_ok off F' t"
  shows "pt_tree h' off rt L F'" "tbl h' off rt (p0 @ [i0]) = Some (n + off)"
proof -
  show t1: "tbl h' off rt (p0 @ [i0]) = Some (n + off)" by (rule tbl_branch(1) [OF same t0(1,2) e(1) new(2)])
  note cases = tbl_branch(2) [OF same t0(1,2) e(1) new(2)]
  have ent: "entry_ok off L p (h' (t + 8 * of_nat i))" if p: "p \<in> paths L" "tbl h' off rt p = Some t" "i < 512" for p t i
  proof (cases "tbl h off rt p = Some t \<and> p \<noteq> p0 @ [i0]")
    case True
    then show ?thesis
      using same_butD [OF same p(1) _ p(3)] pt_treeD(2) [OF tree p(1) _ p(3)] e(2) t0(2) by (cases "(p, i) = (p0, i0)") auto
  next
    case False
    then have "t = n + off" using cases [OF _ p(1,2)] by blast
    then show ?thesis using new(2) [OF p(3)] by (simp add: entry_ok_def)
  qed
  show "pt_tree h' off rt L F'"
    unfolding pt_tree_def using ent cases ok new(1,3) tree [unfolded pt_tree_def] by metis
qed

section \<open>The walk of the code\<close>

lemma traverse_loop_eq:
  assumes "pt_tree (mem s) (phys_off s) rt L F" "L \<le> 4" "i < L" "tbl (mem s) (phys_off s) rt (vpath v L (Suc i)) = Some t"
  shows "\<exists>mib' kib'. traverse_loop s v t i mib kib = Some (map_option
    (\<lambda>(e, j). \<lparr>table_mib = mib' j, table_kib = kib' j,
       map_entry = entry_addr (the (tbl (mem s) (phys_off s) rt (vpath v L (Suc j)))) v j, map_size = the (size_of_idx j)\<rparr>)
    (lookup (mem s) (phys_off s) t v (Suc i))) \<and>
    (\<forall>e j. lookup (mem s) (phys_off s) t v (Suc i) = Some (e, j) \<longrightarrow> j < 3 \<and> j \<le> i \<and>
      (\<exists>t'. tbl (mem s) (phys_off s) rt (vpath v L (Suc j)) = Some t' \<and> mem s (entry_addr t' v j) = e))"
  using assms(3,4)
proof (induction i arbitrary: t mib kib)
  case 0
  have p: "vpath v L (Suc 0) \<in> paths L" using 0 by (simp add: vpath_paths)
  have ok: "entry_ok (phys_off s) L (vpath v L (Suc 0)) (mem s (entry_addr t v 0))"
    using pt_treeD(2) [OF assms(1) p 0(2)] by (simp add: entry_addr_def)
  then show ?case using 0
    by (subst traverse_loop.simps) (auto simp: entry_ok_def Let_def split: option.splits entry_kind.splits)
next
  case (Suc i)
  have p: "vpath v L (Suc (Suc i)) \<in> paths L" using Suc.prems by (simp add: vpath_paths)
  have ok: "entry_ok (phys_off s) L (vpath v L (Suc (Suc i))) (mem s (entry_addr t v (Suc i)))"
    using pt_treeD(2) [OF assms(1) p Suc.prems(2)] by (simp add: entry_addr_def)
  show ?case
  proof (cases "\<exists>n. entry_kind_of (mem s (entry_addr t v (Suc i))) = Some (Branch n)")
    case True
    then obtain n where n: "entry_kind_of (mem s (entry_addr t v (Suc i))) = Some (Branch n)" by blast
    then have fits: "unat n + unat (phys_off s) < 2 ^ 64" using ok by (simp add: entry_ok_def)
    have t': "tbl (mem s) (phys_off s) rt (vpath v L (Suc i)) = Some (n + phys_off s)"
      using n Suc.prems by (simp add: vpath_step [of "Suc i"] tbl_snoc entry_addr_def)
    have "n + phys_off s \<noteq> 0"
      using pt_treeD(1) [OF assms(1) _ t'] Suc.prems(1) by (auto simp: table_ok_def vpath_paths)
    then show ?thesis
      using Suc.IH [OF _ t'] Suc.prems(1) n phys2virt_eq [OF fits]
      by (subst traverse_loop.simps) (auto simp: Let_def le_Suc_eq; blast)
  next
    case False
    then show ?thesis using Suc.prems ok assms(2)
      by (subst traverse_loop.simps) (auto simp: entry_ok_def Let_def split: option.splits entry_kind.splits)
  qed
qed

end
