(* ===== verification/Pmem.thy ===== *)
theory Pmem
  imports Page_Walk
begin

text \<open>
  \<open>crates/kernel/src/pmem.rs\<close>: allocation from the global \<open>PHYS_MEM\<close>, and the \<open>Allocator\<close> instance that
  \<open>Box\<close> and \<open>Vec\<close> use. The mutex of \<open>PHYS_MEM\<close> is taken and released inside each call. \<open>page::root()\<close>
  takes the mutex of the global page table: where the caller already holds it, the call never
  returns, and where no table is installed the dereference panics.
\<close>

definition alloc_order :: "'a pmem_scheme \<Rightarrow> nat \<Rightarrow> ((usize, alloc_error) result \<times> 'a pmem_scheme) option" where
  "alloc_order s order = allocate s order"

definition alloc :: "'a pmem_scheme \<Rightarrow> ((usize, alloc_error) result \<times> 'a pmem_scheme) option" where
  "alloc s = alloc_order s 0"

text \<open>\<open>slice.fill(0)\<close> over \<open>len\<close> bytes (a multiple of 8) at \<open>p\<close>.\<close>

definition mem_fill :: "usize \<Rightarrow> usize \<Rightarrow> (usize \<Rightarrow> u64) \<Rightarrow> usize \<Rightarrow> u64" where
  "mem_fill p len h = (\<lambda>a. if a - p < len then 0 else h a)"

definition zalloc_order :: "'a pmem_scheme \<Rightarrow> nat \<Rightarrow> ((usize, alloc_error) result \<times> 'a pmem_scheme) option" where
  "zalloc_order s order =
     do { (r, s1) \<leftarrow> alloc_order s order;
          (case r of
             Err e \<Rightarrow> Some (Err e, s1)
           | Ok page \<Rightarrow> do {
               page_ptr \<leftarrow> phys2virt s1 page;
               size \<leftarrow> size_for_order order;
               Some (Ok page, s1\<lparr>mem := mem_fill page_ptr size (mem s1)\<rparr>) }) }"

definition zalloc :: "'a pmem_scheme \<Rightarrow> ((usize, alloc_error) result \<times> 'a pmem_scheme) option" where
  "zalloc s = zalloc_order s 0"

definition free_order :: "'a pmem_scheme \<Rightarrow> usize \<Rightarrow> nat \<Rightarrow> ((unit, alloc_error) result \<times> 'a pmem_scheme) option" where
  "free_order s ptr order = deallocate s ptr order"

definition free_page :: "'a pmem_scheme \<Rightarrow> usize \<Rightarrow> ((unit, alloc_error) result \<times> 'a pmem_scheme) option" where
  "free_page s ptr = free_order s ptr 0"

definition pmem_alloc_stats :: "'a pmem_scheme \<Rightarrow> alloc_stats" where
  "pmem_alloc_stats s = buddy_stats s"

section \<open>The Allocator instance\<close>

record layout =
  layout_size :: usize
  layout_align :: usize

text \<open>The result is the pointer and the length of the slice; the error is \<open>AllocError\<close>.\<close>

definition PhysicalAllocator_allocate :: "'a pmem_scheme \<Rightarrow> layout \<Rightarrow> ((usize \<times> usize, unit) result \<times> 'a pmem_scheme) option" where
  "PhysicalAllocator_allocate s l =
     (if PAGE_SIZE < layout_align l then Some (Err (), s)
      else do {
        order \<leftarrow> order_for_size (layout_size l);
        size \<leftarrow> size_for_order order;
        (r, s1) \<leftarrow> allocate s order;
        (case r of
           Ok ptr \<Rightarrow> do { vptr \<leftarrow> phys2virt s1 ptr; Some (Ok (vptr, size), s1) }
         | Err _ \<Rightarrow> Some (Err (), s1)) })"

text \<open>\<open>page::root()\<close> and the dereference of its guard.\<close>

definition page_root :: "'a kernel_scheme \<Rightarrow> page_table option" where
  "page_root s = (if root_locked s then None else root_table s)"

definition PhysicalAllocator_deallocate :: "'a kernel_scheme \<Rightarrow> usize \<Rightarrow> layout \<Rightarrow> 'a kernel_scheme option" where
  "PhysicalAllocator_deallocate s ptr l =
     do { order \<leftarrow> order_for_size (layout_size l);
          table \<leftarrow> page_root s;
          r \<leftarrow> translate mode_Sv48 s table ptr;
          ptr' \<leftarrow> (case r of
             None \<Rightarrow> Some ptr
           | Some (a, _, _) \<Rightarrow> if a = 0 then None else Some a);
          (_, s1) \<leftarrow> deallocate s ptr' order;
          Some s1 }"

lemmas [exec_defs] = alloc_order_def alloc_def mem_fill_def zalloc_order_def zalloc_def free_order_def free_page_def
  PhysicalAllocator_allocate_def page_root_def PhysicalAllocator_deallocate_def

end
