(* ===== verification/Page_Table.thy ===== *)
theory Page_Table
  imports Pmem
begin

text \<open>
  The write side of \<open>crates/kernel/src/page.rs\<close>: \<open>new\<close>, \<open>satp\<close>, \<open>map\<close>, \<open>map_alloc\<close>, \<open>free\<close> and \<open>drop\<close>.
  \<open>Vec::push\<close> of the \<open>subtables\<close> vector follows the standard library: a full vector of capacity \<open>c\<close>
  grows to \<open>max (max (2 * c) (len + 1)) 4\<close> elements, and growing a non-empty buffer through an \<open>Allocator\<close>
  that only defines \<open>allocate\<close> and \<open>deallocate\<close> allocates a new buffer, copies, and deallocates the old one. A failing
  allocation of a \<open>Vec\<close> or a \<open>Box\<close> does not return.
\<close>

section \<open>Construction\<close>

definition array_layout :: "nat \<Rightarrow> layout option" where
  "array_layout n = (if 8 * n < 2 ^ 63 then Some \<lparr>layout_size = of_nat (8 * n), layout_align = 8\<rparr> else None)"

definition from_raw_parts :: "usize \<Rightarrow> usize \<Rightarrow> usize list \<Rightarrow> nat \<Rightarrow> page_table" where
  "from_raw_parts ents ptr subs cap = \<lparr>entries = ents, sub_ptr = ptr, sub_cap = cap, subtables = subs\<rparr>"

text \<open>\<open>Box::new_in([Entry::ZERO; 512])\<close> and \<open>Vec::new_in\<close>, whose pointer dangles (aligned, not null).\<close>

definition page_table_new :: "'a pmem_scheme \<Rightarrow> (page_table \<times> 'a pmem_scheme) option" where
  "page_table_new s =
     do { (r, s1) \<leftarrow> PhysicalAllocator_allocate s \<lparr>layout_size = 4096, layout_align = 8\<rparr>;
          (case r of
             Err _ \<Rightarrow> None
           | Ok (ptr, _) \<Rightarrow> Some (from_raw_parts ptr 8 [] 0, s1\<lparr>mem := mem_fill ptr 4096 (mem s1)\<rparr>)) }"

definition into_raw_parts :: "page_table \<Rightarrow> usize \<times> (usize \<times> nat \<times> nat)" where
  "into_raw_parts pt = (entries pt, (sub_ptr pt, length (subtables pt), sub_cap pt))"

section \<open>The vector of subtables\<close>

definition vec_grow :: "page_table \<Rightarrow> 'a kernel_scheme \<Rightarrow> (page_table \<times> 'a kernel_scheme) option" where
  "vec_grow pt s =
     do { let new_cap = max 4 (max (2 * sub_cap pt) (length (subtables pt) + 1));
          l \<leftarrow> array_layout new_cap;
          (r, s1) \<leftarrow> PhysicalAllocator_allocate s l;
          (case r of
             Err _ \<Rightarrow> None
           | Ok (ptr, _) \<Rightarrow> do {
               s2 \<leftarrow> (if sub_cap pt = 0 then Some s1
                      else do { old \<leftarrow> array_layout (sub_cap pt);
                                PhysicalAllocator_deallocate s1 (sub_ptr pt) old });
               Some (pt\<lparr>sub_ptr := ptr, sub_cap := new_cap\<rparr>, s2) }) }"

definition vec_push :: "page_table \<Rightarrow> usize \<Rightarrow> 'a kernel_scheme \<Rightarrow> (page_table \<times> 'a kernel_scheme) option" where
  "vec_push pt x s =
     do { (pt1, s1) \<leftarrow> (if length (subtables pt) = sub_cap pt then vec_grow pt s else Some (pt, s));
          Some (pt1\<lparr>subtables := subtables pt1 @ [x]\<rparr>, s1) }"

section \<open>map\<close>

text \<open>The loop over the levels above the page; it returns the table that receives the entry.\<close>

fun map_levels :: "'a kernel_scheme \<Rightarrow> page_table \<Rightarrow> usize \<Rightarrow> usize \<Rightarrow> nat list \<Rightarrow> ((usize, page_error) result \<times> page_table \<times> 'a kernel_scheme) option" where
  "map_levels s pt table vaddr [] = Some (Ok table, pt, s)"
| "map_levels s pt table vaddr (vpn_i # is) =
     (let entry = entry_addr table vaddr vpn_i in
      case entry_kind_of (mem s entry) of
        Some Leaf \<Rightarrow> Some (Err AlreadyMapped, pt, s)
      | Some (Branch next) \<Rightarrow> do {
          t \<leftarrow> phys2virt s next;
          if t = 0 then None else map_levels s pt t vaddr is }
      | None \<Rightarrow> do {
          (r, s1) \<leftarrow> zalloc_order s 0;
          (case r of
             Err e \<Rightarrow> Some (Err (AllocErr e), pt, s1)
           | Ok table_ptr \<Rightarrow> do {
               let s2 = s1\<lparr>mem := (mem s1)(entry := branch_entry table_ptr)\<rparr>;
               (pt', s3) \<leftarrow> vec_push pt table_ptr s2;
               t \<leftarrow> phys2virt s3 table_ptr;
               if t = 0 then None else map_levels s3 pt' t vaddr is }) })"

definition map_page :: "paging_mode \<Rightarrow> 'a kernel_scheme \<Rightarrow> page_table \<Rightarrow> usize \<Rightarrow> usize \<Rightarrow> page_size \<Rightarrow> u8 \<Rightarrow>
    ((unit, page_error) result \<times> page_table \<times> 'a kernel_scheme) option" where
  "map_page m s pt paddr vaddr sz flags =
     (if LEVELS m \<le> vpn_idx sz then Some (Err UnsupportedPageSize, pt, s)
      else if MAX_ADDRESS m \<le> vaddr \<or> vaddr AND NOT (MAX_ADDRESS m) \<noteq> 0 then Some (Err InvalidAddress, pt, s)
      else if \<not> is_aligned sz paddr \<or> \<not> is_aligned sz vaddr then Some (Err UnalignedAddress, pt, s)
      else do {
        (r, pt1, s1) \<leftarrow> map_levels s pt (entries pt) vaddr (rev [vpn_idx sz + 1 ..< LEVELS m]);
        (case r of
           Err e \<Rightarrow> Some (Err e, pt1, s1)
         | Ok table \<Rightarrow>
             let entry = entry_addr table vaddr (vpn_idx sz) in
             if entry_kind_of (mem s1 entry) = Some Leaf then Some (Err AlreadyMapped, pt1, s1)
             else Some (Ok (), pt1, sfence vaddr (s1\<lparr>mem := (mem s1)(entry := leaf_entry paddr flags)\<rparr>))) })"

definition table_satp :: "paging_mode \<Rightarrow> page_table \<Rightarrow> u16 \<times> satp_mode \<times> u64" where
  "table_satp m pt = (0, SATP_MODE m, entries pt)"

section \<open>Ranges of pages\<close>

text \<open>The order of a page size in \<open>map_alloc\<close> and \<open>free\<close>; the larger sizes are \<open>unimplemented!()\<close>.\<close>

fun order_of_page :: "page_size \<Rightarrow> nat option" where
  "order_of_page Kilopage = Some 0"
| "order_of_page Megapage = Some 9"
| "order_of_page _ = None"

text \<open>\<open>(start..stop).step_by(step)\<close>\<close>

definition step_by :: "usize \<Rightarrow> usize \<Rightarrow> usize \<Rightarrow> usize list" where
  "step_by start stop d =
     map (\<lambda>i. start + of_nat i * d) [0 ..< (unat stop - unat start + unat d - 1) div unat d]"

fun map_alloc_loop :: "paging_mode \<Rightarrow> 'a kernel_scheme \<Rightarrow> page_table \<Rightarrow> nat \<Rightarrow> page_size \<Rightarrow> u8 \<Rightarrow> usize list \<Rightarrow>
    ((unit, page_error) result \<times> page_table \<times> 'a kernel_scheme) option" where
  "map_alloc_loop m s pt order sz flags [] = Some (Ok (), pt, s)"
| "map_alloc_loop m s pt order sz flags (vaddr # vs) =
     do { (r, s1) \<leftarrow> alloc_order s order;
          (case r of
             Err e \<Rightarrow> Some (Err (AllocErr e), pt, s1)
           | Ok page \<Rightarrow> do {
               (r2, pt2, s2) \<leftarrow> map_page m s1 pt page vaddr sz flags;
               (case r2 of
                  Err e \<Rightarrow> Some (Err e, pt2, s2)
                | Ok _ \<Rightarrow> map_alloc_loop m (sfence vaddr s2) pt2 order sz flags vs) }) }"

definition map_alloc :: "paging_mode \<Rightarrow> 'a kernel_scheme \<Rightarrow> page_table \<Rightarrow> usize \<Rightarrow> usize \<Rightarrow> page_size \<Rightarrow> u8 \<Rightarrow>
    ((unit, page_error) result \<times> page_table \<times> 'a kernel_scheme) option" where
  "map_alloc m s pt vaddr count sz flags =
     do { len \<leftarrow> mul_chk (size_bytes sz) count;
          stop \<leftarrow> add_chk vaddr len;
          order \<leftarrow> order_of_page sz;
          map_alloc_loop m s pt order sz flags (step_by vaddr stop (size_bytes sz)) }"

fun free_loop :: "paging_mode \<Rightarrow> 'a kernel_scheme \<Rightarrow> page_table \<Rightarrow> usize \<Rightarrow> nat \<Rightarrow> usize list \<Rightarrow>
    ((unit, page_error) result \<times> 'a kernel_scheme) option" where
  "free_loop m s pt vaddr order [] = Some (Ok (), s)"
| "free_loop m s pt vaddr order (page # ps) =
     do { tr \<leftarrow> translate m s pt page;
          (paddr, _, _) \<leftarrow> tr;
          (r, s1) \<leftarrow> unmap m s pt page;
          (case r of
             Err e \<Rightarrow> Some (Err e, s1)
           | Ok b \<Rightarrow>
               if b \<and> paddr \<noteq> 0 then do {
                 (r2, s2) \<leftarrow> free_order (sfence vaddr s1) paddr order;
                 (case r2 of
                    Err e \<Rightarrow> Some (Err (AllocErr e), s2)
                  | Ok _ \<Rightarrow> free_loop m s2 pt vaddr order ps) }
               else None) }"

definition table_free :: "paging_mode \<Rightarrow> 'a kernel_scheme \<Rightarrow> page_table \<Rightarrow> usize \<Rightarrow> usize \<Rightarrow>
    ((unit, page_error) result \<times> 'a kernel_scheme) option" where
  "table_free m s pt vaddr count =
     do { tr \<leftarrow> translate m s pt vaddr;
          (case tr of
             None \<Rightarrow> Some (Err InvalidAddress, s)
           | Some (_, sz, _) \<Rightarrow> do {
               len \<leftarrow> mul_chk (size_bytes sz) count;
               stop \<leftarrow> add_chk vaddr len;
               order \<leftarrow> order_of_page sz;
               free_loop m s pt vaddr order (step_by vaddr stop (size_bytes sz)) }) }"

section \<open>Drop\<close>

fun drop_subtables :: "'a kernel_scheme \<Rightarrow> usize list \<Rightarrow> 'a kernel_scheme option" where
  "drop_subtables s [] = Some s"
| "drop_subtables s (ptr # ptrs) = do { (_, s1) \<leftarrow> free_page s ptr; drop_subtables s1 ptrs }"

text \<open>The body of \<open>drop\<close>, then the fields: the box of the root table and the buffer of the vector.\<close>

definition page_table_drop :: "'a kernel_scheme \<Rightarrow> page_table \<Rightarrow> 'a kernel_scheme option" where
  "page_table_drop s pt =
     do { s1 \<leftarrow> drop_subtables s (subtables pt);
          s2 \<leftarrow> PhysicalAllocator_deallocate s1 (entries pt) \<lparr>layout_size = 4096, layout_align = 8\<rparr>;
          if sub_cap pt = 0 then Some s2
          else do { l \<leftarrow> array_layout (sub_cap pt); PhysicalAllocator_deallocate s2 (sub_ptr pt) l } }"

lemmas [exec_defs] = array_layout_def from_raw_parts_def page_table_new_def vec_grow_def vec_push_def
  map_page_def step_by_def map_alloc_def table_free_def page_table_drop_def

end
