(* ===== verification/Pmem_Correct.thy ===== *)
theory Pmem_Correct
  imports Pmem Buddy_Client
begin

text \<open>
  The physical memory functions on top of the buddy allocator: writes outside the free blocks keep the
  allocator's invariant, \<open>zalloc_order\<close> returns a zeroed block, and \<open>PhysicalAllocator::allocate\<close> returns
  memory that is large and aligned enough for the layout.
\<close>

lemma chain_mem_cong:
  "(\<And>x. x \<in> set xs \<Longrightarrow> h' (x + off) = h (x + off)) \<Longrightarrow> chain h' off p xs = chain h off p xs"
  by (induction xs arbitrary: p) auto

lemma buddy_inv_mem:
  assumes "buddy_inv s fl" "\<And>x. unat x \<in> free_bytes fl \<Longrightarrow> h' (x + phys_off s) = mem s (x + phys_off s)"
  shows "buddy_inv (s\<lparr>mem := h'\<rparr>) fl"
proof -
  have "chain h' (phys_off s) p (fl ! k) = chain (mem s) (phys_off s) p (fl ! k)" if "k < 12" for k p
    using assms(2) in_free_bytes [OF that, of _ fl] block_bytes_start by (intro chain_mem_cong) blast
  then show ?thesis
    using assms(1) by (simp add: buddy_inv_def blocks_inv_def free_lists_def)
qed

lemma mem_fill_in:
  assumes "unat x - unat p < unat len" "unat p \<le> unat x"
  shows "mem_fill p len h x = 0"
proof -
  have "unat (x - p) < unat len" using assms by (simp add: unat_sub word_le_nat_alt)
  then show ?thesis by (simp add: mem_fill_def word_less_nat_alt)
qed

lemma allocate_page:
  assumes "buddy_inv s fl" "free_bytes fl \<noteq> {}"
  shows "\<exists>b s' fl'. allocate s 0 = Some (Ok b, s') \<and> allocates s fl 0 b s' fl'"
proof -
  obtain j where "j < 12" "fl ! j \<noteq> []" using assms(2) unfolding free_bytes_def
    by (metis (no_types, lifting) SUP_bot_conv(1) UN_empty list.set(1) lessThan_iff)
  then show ?thesis using allocate_ok [OF assms(1), of 0 j] by blast
qed

definition zallocates :: "'a pmem_scheme \<Rightarrow> usize list list \<Rightarrow> nat \<Rightarrow> usize \<Rightarrow> 'a pmem_scheme \<Rightarrow> usize list list \<Rightarrow> bool" where
  "zallocates s fl k b s' fl' \<longleftrightarrow> allocates s fl k b s' fl' \<and>
     (\<forall>x. unat x \<in> block_bytes k b \<longrightarrow> mem s' (x + phys_off s) = 0)"

lemma zalloc_order_cases:
  assumes "buddy_inv s fl"
  obtains (fails) e where "zalloc_order s k = Some (Err e, s)" "k = 0 \<Longrightarrow> free_bytes fl = {}"
  | (block) b s' fl' where "k < 12" "zalloc_order s k = Some (Ok b, s')" "zallocates s fl k b s' fl'"
proof (cases rule: allocate_cases [OF assms, of k, case_names fails block])
  case (fails e)
  have "free_bytes fl = {}" if "k = 0"
    using fails allocate_page [OF assms] that by fastforce
  then show ?thesis using fails that(1) by (simp add: zalloc_order_def alloc_order_def)
next
  case (block b s1 fl1)
  let ?p = "b + phys_off s" and ?len = "2 ^ (k + 12) :: usize"
  have a: "buddy_inv s1 fl1" "block_ok (phys_off s) k b" "free_bytes fl1 = free_bytes fl - block_bytes k b"
    "block_bytes k b \<subseteq> free_bytes fl" "frame (free_bytes fl) s s1" "total (stats s1) = total (stats s)" "phys_off s1 = phys_off s"
    using block(3) by (auto simp: allocates_def frame_def)
  have len: "unat ?len = 2 ^ (k + 12)" using block(1) by (intro unat_size_pow) simp
  have bnd: "unat b + 2 ^ (k + 12) + unat (phys_off s) \<le> 2 ^ 64" using a(2) by (simp add: block_ok_def)
  have p: "unat ?p = unat b + unat (phys_off s)" "phys2virt s1 b = Some ?p"
    using block_ok_start [OF a(2)] phys2virt_eq [of b s1] a(7) by (simp_all add: unat_add_lem [THEN iffD1])
  have inside: "unat (x + phys_off s) = unat x + unat (phys_off s)" if "unat x \<in> block_bytes k b" for x
    using that bnd by (subst unat_add_lem [THEN iffD1]) (auto simp: block_bytes_def)
  have zero: "mem_fill ?p ?len (mem s1) (x + phys_off s) = 0" if "unat x \<in> block_bytes k b" for x
    using that inside [OF that] p(1) len by (intro mem_fill_in) (auto simp: block_bytes_def)
  have out: "mem_fill ?p ?len (mem s1) (x + phys_off s) = mem s1 (x + phys_off s)" if "unat x \<notin> block_bytes k b" for x
  proof -
    have "\<not> x + phys_off s - ?p < ?len" using that bnd len by (auto simp: block_bytes_def word_less_nat_alt unat_sub_if')
    then show ?thesis by (simp add: mem_fill_def)
  qed
  let ?s = "s1\<lparr>mem := mem_fill ?p ?len (mem s1)\<rparr>"
  have "zalloc_order s k = Some (Ok b, ?s)"
    using block(1,2) p(2) by (simp add: zalloc_order_def alloc_order_def size_for_order_eq)
  moreover have "buddy_inv ?s fl1" using out a(1,3,7) by (intro buddy_inv_mem) auto
  moreover have "mem_fill ?p ?len (mem s1) (x + phys_off s) = mem s (x + phys_off s)" if "unat x \<notin> free_bytes fl" for x
    using a(4,5) out [of x] that unfolding frame_def by auto
  then have "frame (free_bytes fl) s ?s" using a(5) by (simp add: frame_def)
  ultimately show ?thesis
    using a(2-4,6) zero by (intro that(2) [OF block(1), of b ?s fl1]) (auto simp: zallocates_def allocates_def)
qed

lemma order_for_size_page: "unat sz \<le> 4096 \<Longrightarrow> order_for_size sz = Some 0"
proof -
  assume "unat sz \<le> 4096"
  moreover from this obtain k where "order_for_size sz = Some k" "\<forall>j<k. 2 ^ (j + 12) < unat sz"
    using order_for_size_spec [of sz] by auto
  ultimately show ?thesis by (cases k) force+
qed

lemma order_for_size_bounded:
  assumes "unat sz \<le> 2 ^ 63"
  obtains k where "order_for_size sz = Some k" "unat sz \<le> 2 ^ (k + 12)" "k < 52"
proof -
  obtain k where k: "order_for_size sz = Some k" "unat sz \<le> 2 ^ (k + 12)" "\<forall>j<k. 2 ^ (j + 12) < unat sz"
    using order_for_size_spec [of sz] assms by auto
  have "k < 52"
  proof (rule ccontr)
    assume "\<not> k < 52"
    then have "2 ^ (51 + 12) < unat sz" using k(3) [rule_format, of 51] by simp
    then show False using assms by simp
  qed
  then show ?thesis using that k by blast
qed

lemma physical_allocate_block:
  assumes "\<not> PAGE_SIZE < layout_align l" "order_for_size (layout_size l) = Some k" "allocate s k = Some (Ok b, s')" "allocates s fl k b s' fl'" "k < 52"
  shows "PhysicalAllocator_allocate s l = Some (Ok (b + phys_off s, 2 ^ (k + 12)), s')"
proof -
  have off: "phys_off s' = phys_off s" and ok: "block_ok (phys_off s) k b"
    using assms(4) by (auto simp: allocates_def frame_def)
  then have "phys2virt s' b = Some (b + phys_off s)" using block_ok_start [OF ok] phys2virt_eq [of b s'] by simp
  then show ?thesis using assms(1-3,5) size_for_order_eq [of k] by (simp add: PhysicalAllocator_allocate_def)
qed

text \<open>A layout of at most a page is served whenever any memory is free.\<close>

lemma physical_allocate_page:
  assumes "buddy_inv s fl" "free_bytes fl \<noteq> {}" "unat (layout_size l) \<le> 4096" "\<not> PAGE_SIZE < layout_align l"
  obtains b s' fl' where "PhysicalAllocator_allocate s l = Some (Ok (b + phys_off s, 4096), s')" "allocates s fl 0 b s' fl'"
proof -
  obtain b s' fl' where "allocate s 0 = Some (Ok b, s')" "allocates s fl 0 b s' fl'"
    using allocate_page [OF assms(1,2)] by blast
  then show ?thesis using that physical_allocate_block [OF assms(4) order_for_size_page [OF assms(3)]] by force
qed



end
