(* ===== verification/Page_Correct.thy ===== *)
theory Page_Correct
  imports Page_Tree Page_Table Pmem_Correct
begin

text \<open>
  Correctness of \<open>translate\<close>, \<open>map\<close> and \<open>unmap\<close>. The invariant relates the page table in memory with
  the physical memory allocator: no table lies in free memory, and free memory is below \<open>2 ^ 56\<close>, the
  range a page table entry can address.
\<close>

definition paging_inv :: "paging_mode \<Rightarrow> 'a pmem_scheme \<Rightarrow> page_table \<Rightarrow> usize list list \<Rightarrow> bool" where
  "paging_inv m s pt fl \<longleftrightarrow> 3 \<le> LEVELS m \<and> LEVELS m \<le> 4 \<and> buddy_inv s fl \<and> free_bytes fl \<subseteq> {..<2 ^ 56} \<and>
     pt_tree (mem s) (phys_off s) (entries pt) (LEVELS m) (free_bytes fl)"

abbreviation walk :: "paging_mode \<Rightarrow> 'a pmem_scheme \<Rightarrow> page_table \<Rightarrow> usize \<Rightarrow> (u64 \<times> nat) option" where
  "walk m s pt v \<equiv> lookup (mem s) (phys_off s) (entries pt) v (LEVELS m)"

abbreviation table_bytes :: "paging_mode \<Rightarrow> 'a pmem_scheme \<Rightarrow> page_table \<Rightarrow> nat set" where
  "table_bytes m s pt \<equiv> pt_bytes (mem s) (phys_off s) (entries pt) (LEVELS m)"

section \<open>translate and unmap in terms of the walk\<close>

definition translation :: "usize \<Rightarrow> u64 \<times> nat \<Rightarrow> usize \<times> page_size \<times> u8" where
  "translation v = (\<lambda>(e, j). (push_bit 12 (drop_bit 10 e) + take_bit (12 + 9 * j) v, the (size_of_idx j), entry_flags e))"

lemma traverse_walk:
  assumes "paging_inv m s pt fl"
  obtains mib kib where "traverse m s pt v = Some (map_option
    (\<lambda>(e, j). \<lparr>table_mib = mib j, table_kib = kib j,
       map_entry = entry_addr (the (tbl (mem s) (phys_off s) (entries pt) (vpath v (LEVELS m) (Suc j)))) v j,
       map_size = the (size_of_idx j)\<rparr>) (walk m s pt v))"
    "\<And>e j. walk m s pt v = Some (e, j) \<Longrightarrow> j < 3 \<and> j < LEVELS m \<and>
      (\<exists>t. tbl (mem s) (phys_off s) (entries pt) (vpath v (LEVELS m) (Suc j)) = Some t \<and> mem s (entry_addr t v j) = e)"
proof -
  have i: "LEVELS m - 1 < LEVELS m" "Suc (LEVELS m - 1) = LEVELS m" "LEVELS m \<le> 4"
    using assms by (auto simp: paging_inv_def)
  have tree: "pt_tree (mem s) (phys_off s) (entries pt) (LEVELS m) (free_bytes fl)"
    using assms by (simp add: paging_inv_def)
  have top: "tbl (mem s) (phys_off s) (entries pt) (vpath v (LEVELS m) (Suc (LEVELS m - 1))) = Some (entries pt)"
    using i(2) by simp
  obtain mib kib where t: "traverse_loop s v (entries pt) (LEVELS m - 1) None None = Some (map_option
      (\<lambda>(e, j). \<lparr>table_mib = mib j, table_kib = kib j,
         map_entry = entry_addr (the (tbl (mem s) (phys_off s) (entries pt) (vpath v (LEVELS m) (Suc j)))) v j,
         map_size = the (size_of_idx j)\<rparr>) (walk m s pt v))"
    "\<forall>e j. walk m s pt v = Some (e, j) \<longrightarrow> j < 3 \<and> j \<le> LEVELS m - 1 \<and>
      (\<exists>t. tbl (mem s) (phys_off s) (entries pt) (vpath v (LEVELS m) (Suc j)) = Some t \<and> mem s (entry_addr t v j) = e)"
    using traverse_loop_eq [OF tree i(3,1) top, of None None, unfolded i(2)] by blast
  show thesis
    by (rule that [of mib kib]) (use t i(1) in \<open>auto simp: traverse_def simp del: size_of_idx.simps\<close>)
qed

lemma size_of_idx_small: "j < 3 \<Longrightarrow> vpn_idx (the (size_of_idx j)) = j"
  by (auto simp: less_Suc_eq numeral_3_eq_3)

lemma translate_walk:
  assumes "paging_inv m s pt fl"
  shows "translate m s pt v = Some (map_option (translation v) (walk m s pt v))"
proof (rule traverse_walk [OF assms, of v])
  fix mib kib
  assume t: "traverse m s pt v = Some (map_option
    (\<lambda>(e, j). \<lparr>table_mib = mib j, table_kib = kib j,
       map_entry = entry_addr (the (tbl (mem s) (phys_off s) (entries pt) (vpath v (LEVELS m) (Suc j)))) v j,
       map_size = the (size_of_idx j)\<rparr>) (walk m s pt v))"
  assume w: "\<And>e j. walk m s pt v = Some (e, j) \<Longrightarrow> j < 3 \<and> j < LEVELS m \<and>
      (\<exists>t. tbl (mem s) (phys_off s) (entries pt) (vpath v (LEVELS m) (Suc j)) = Some t \<and> mem s (entry_addr t v j) = e)"
  show ?thesis
  proof (cases "walk m s pt v")
    case (Some x)
    obtain e j where x: "x = (e, j)" by fastforce
    then obtain t' where "j < 3" "tbl (mem s) (phys_off s) (entries pt) (vpath v (LEVELS m) (Suc j)) = Some t'"
      "mem s (entry_addr t' v j) = e" using w [of e j] Some by auto
    then show ?thesis
      using t Some x size_of_idx_small [of j]
      by (simp add: translate_def translation_def page_off_mask addr_offset_def del: size_of_idx.simps)
  qed (use t in \<open>simp add: translate_def\<close>)
qed

section \<open>Table cells and free memory\<close>

lemma cell_phys:
  assumes "table_ok off F t" "j < 512"
  shows "t + 8 * of_nat j = (t + 8 * of_nat j - off) + off" "unat (t + 8 * of_nat j - off) \<notin> F"
proof -
  show "unat (t + 8 * of_nat j - off) \<notin> F" using cell_in_page [OF assms] assms(1) by (auto simp: table_ok_def)
qed simp

lemma frame_cell:
  assumes "frame F s s'" "table_ok (phys_off s) F t" "j < 512"
  shows "mem s' (t + 8 * of_nat j) = mem s (t + 8 * of_nat j)"
  using assms(1) cell_phys [OF assms(2,3)] unfolding frame_def by metis

lemma frame_cell_write:
  assumes "table_ok (phys_off s) F t" "j < 512" "table_page (phys_off s) t \<subseteq> G"
  shows "frame G s (s\<lparr>mem := (mem s)(t + 8 * of_nat j := e)\<rparr>)"
proof -
  have "x + phys_off s \<noteq> t + 8 * of_nat j" if "unat x \<notin> G" for x
    using that cell_in_page [OF assms(1,2)] assms(3) by (metis add_diff_cancel_right' subsetD)
  then show ?thesis by (simp add: frame_def)
qed

lemma buddy_inv_cell:
  assumes "buddy_inv s fl" "table_ok (phys_off s) (free_bytes fl) t" "j < 512"
  shows "buddy_inv (s\<lparr>mem := (mem s)(t + 8 * of_nat j := e)\<rparr>) fl"
proof (rule buddy_inv_mem [OF assms(1)])
  fix x :: usize assume "unat x \<in> free_bytes fl"
  then have "x + phys_off s \<noteq> t + 8 * of_nat j"
    using cell_phys [OF assms(2,3)] by (metis add_right_cancel)
  then show "((mem s)(t + 8 * of_nat j := e)) (x + phys_off s) = mem s (x + phys_off s)" by simp
qed

text \<open>After operations of the allocator and a write to one cell, all other cells of tables are as before.\<close>

lemma same_but_write:
  assumes "pt_tree (mem s) (phys_off s) rt L F" "frame F s s'" "p0 \<in> paths L" "tbl (mem s) (phys_off s) rt p0 = Some t0" "i0 < 512"
  shows "same_but L (mem s) ((mem s')(t0 + 8 * of_nat i0 := e)) (phys_off s) rt p0 i0"
  unfolding same_but_def
proof (intro ballI allI impI)
  fix q t j assume q: "q \<in> paths L" "tbl (mem s) (phys_off s) rt q = Some t" "j < 512" "(q, j) \<noteq> (p0, i0)"
  have ok: "table_ok (phys_off s) F t" "table_ok (phys_off s) F t0"
    using pt_treeD(1) [OF assms(1)] q(1,2) assms(3,4) by blast+
  have "t + 8 * of_nat j \<noteq> t0 + 8 * of_nat i0"
  proof
    assume "t + 8 * of_nat j = t0 + 8 * of_nat i0"
    then have "t = t0 \<and> j = i0" using ok q(3) assms(5) by (intro cell_inj) (auto simp: table_ok_def)
    then show False using pt_treeD(3) [OF assms(1) q(1,2) assms(3)] assms(4) q(4) by simp
  qed
  then show "((mem s')(t0 + 8 * of_nat i0 := e)) (t + 8 * of_nat j) = mem s (t + 8 * of_nat j)"
    using frame_cell [OF assms(2) ok(1) q(3)] by simp
qed

lemma table_ok_mono: "table_ok off F t \<Longrightarrow> F' \<subseteq> F \<Longrightarrow> table_ok off F' t"
  by (auto simp: table_ok_def)

section \<open>A new table\<close>

lemma new_table_ok:
  assumes "zallocates s fl 0 n s1 fl1" "free_bytes fl \<subseteq> {..<2 ^ 56}" "4096 dvd unat (phys_off s)"
  shows "table_ok (phys_off s) (free_bytes fl1) (n + phys_off s)" "unat n \<in> free_bytes fl" "4096 dvd unat n"
    "unat n < 2 ^ 56" "unat n + unat (phys_off s) < 2 ^ 64" "j < 512 \<Longrightarrow> mem s1 (n + phys_off s + 8 * of_nat j) = 0"
proof -
  have a: "block_ok (phys_off s) 0 n" "block_bytes 0 n \<subseteq> free_bytes fl" "free_bytes fl1 = free_bytes fl - block_bytes 0 n"
    "\<And>x. unat x \<in> block_bytes 0 n \<Longrightarrow> mem s1 (x + phys_off s) = 0"
    using assms(1) by (auto simp: zallocates_def allocates_def)
  show n: "4096 dvd unat n" "unat n \<in> free_bytes fl" "unat n + unat (phys_off s) < 2 ^ 64"
    using a(1,2) block_ok_start [OF a(1)] block_bytes_start by (auto simp: block_ok_def)
  then show "unat n < 2 ^ 56" using assms(2) by auto
  have u: "unat (n + phys_off s) = unat n + unat (phys_off s)" using n(3) by (simp add: unat_add_lem [THEN iffD1])
  then show "table_ok (phys_off s) (free_bytes fl1) (n + phys_off s)"
    using a(1,3) n(1) assms(3) by (auto simp: table_ok_def table_page_def block_bytes_def block_ok_def)
  show "mem s1 (n + phys_off s + 8 * of_nat j) = 0" if "j < 512"
  proof -
    have "unat (n + 8 * of_nat j) \<in> block_bytes 0 n" using unat_cell [OF n(1) that] that by (simp add: block_bytes_def)
    then show ?thesis using a(4) [of "n + 8 * of_nat j"] by (simp add: ac_simps)
  qed
qed

text \<open>An entry that is not in use may point to an empty table: the walk finds nothing either way.\<close>

lemma lookup_new_table:
  assumes same: "same_but L h h' off rt (vpath v L (Suc i)) (vpn v i)" and i: "0 < i" "i < L"
    and t: "tbl h off rt (vpath v L (Suc i)) = Some t" and e: "entry_kind_of (h (entry_addr t v i)) = None"
    and t2: "tbl h' off rt (vpath v L i) = Some n" and zero: "\<And>j. j < 512 \<Longrightarrow> h' (n + 8 * of_nat j) = 0"
  shows "lookup h' off rt w L = lookup h off rt w L"
proof (cases "\<exists>r. vpath w L 0 = vpath v L (Suc i) @ [vpn v i] @ r")
  case False
  then show ?thesis using lookup_other [OF same] by auto
next
  case True
  then obtain r where "vpath w L 0 = vpath v L i @ r" using vpath_step [OF i(2), of v] by auto
  moreover obtain r' where "vpath w L 0 = vpath w L i @ r'" using vpath_prefix [of i L w] i(2) by auto
  ultimately have eq: "vpath w L i = vpath v L i" by (metis append_eq_append_conv vpath_length)
  then have w: "vpath w L (Suc i) = vpath v L (Suc i)" "vpn w i = vpn v i" using vpath_step [OF i(2)] by auto
  obtain k where k: "i = Suc k" using i(1) gr0_implies_Suc by blast
  have "lookup h off rt w L = lookup h off t w (Suc i)" using lookup_at [of "Suc i" L] i(2) t w(1) by simp
  also have "\<dots> = None" using e w(2) by (simp add: entry_addr_def)
  finally have "lookup h off rt w L = None" .
  moreover have "lookup h' off rt w L = lookup h' off n w i" using lookup_at [of i L h' off rt w] i(2) t2 eq by simp
  moreover have "\<dots> = None" unfolding k using zero [of "vpn w k"] by (simp add: entry_addr_def)
  ultimately show ?thesis by simp
qed

lemma map_new_table:
  assumes inv: "paging_inv m s pt fl" and i: "0 < i" "i < LEVELS m"
    and t: "tbl (mem s) (phys_off s) (entries pt) (vpath v (LEVELS m) (Suc i)) = Some t"
    and e: "entry_kind_of (mem s (entry_addr t v i)) = None" and z: "zallocates s fl 0 n s1 fl1"
  defines "s2 \<equiv> s1\<lparr>mem := (mem s1)(entry_addr t v i := branch_entry n)\<rparr>"
  shows "paging_inv m s2 pt fl1" "tbl (mem s2) (phys_off s) (entries pt) (vpath v (LEVELS m) i) = Some (n + phys_off s)"
    "walk m s2 pt w = walk m s pt w" "phys_off s2 = phys_off s" "table_bytes m s2 pt \<subseteq> table_bytes m s pt \<union> block_bytes 0 n"
    "frame (free_bytes fl \<union> table_bytes m s pt) s s2"
proof -
  let ?L = "LEVELS m" and ?off = "phys_off s" and ?rt = "entries pt"
  let ?p = "vpath v ?L (Suc i)"
  have tree: "pt_tree (mem s) ?off ?rt ?L (free_bytes fl)" and F: "free_bytes fl \<subseteq> {..<2 ^ 56}"
    using inv by (simp_all add: paging_inv_def)
  have off: "4096 dvd unat ?off" using tree by (simp add: pt_tree_def)
  note n = new_table_ok [OF z F off]
  have al: "buddy_inv s1 fl1" "frame (free_bytes fl) s s1" "free_bytes fl1 \<subseteq> free_bytes fl" "phys_off s1 = ?off"
    using z by (auto simp: zallocates_def allocates_def frame_def)
  have p: "?p \<in> paths ?L" using i by (simp add: vpath_paths)
  have ok: "table_ok ?off (free_bytes fl) t" using pt_treeD(1) [OF tree p t] .
  have old: "table_ok ?off (free_bytes fl1) t'" if "q \<in> paths ?L" "tbl (mem s) ?off ?rt q = Some t'" for q t'
    using table_ok_mono [OF pt_treeD(1) [OF tree that] al(3)] .
  have same: "same_but ?L (mem s) (mem s2) ?off ?rt ?p (vpn v i)"
    unfolding s2_def entry_addr_def using same_but_write [OF tree al(2) p t] by simp
  have ne: "tbl (mem s) ?off ?rt q \<noteq> Some (n + ?off)" if "q \<in> paths ?L" for q
  proof
    assume "tbl (mem s) ?off ?rt q = Some (n + ?off)"
    then have "table_page ?off (n + ?off) \<inter> free_bytes fl = {}" using pt_treeD(1) [OF tree that] by (simp add: table_ok_def)
    moreover have "unat n \<in> table_page ?off (n + ?off)"
      using n(5) by (simp add: table_page_def unat_add_lem [THEN iffD1])
    ultimately show False using n(2) by blast
  qed
  have cell: "mem s2 (entry_addr t v i) = branch_entry n" by (simp add: s2_def)
  have zero: "mem s2 (n + ?off + 8 * of_nat j) = 0" if "j < 512" for j
  proof -
    have "n + ?off + 8 * of_nat j \<noteq> entry_addr t v i"
    proof
      assume "n + ?off + 8 * of_nat j = entry_addr t v i"
      then have "n + ?off = t" using cell_inj [of "n + ?off" t j "vpn v i"] that n(1) ok by (simp add: table_ok_def entry_addr_def)
      then show False using ne [OF p] t by simp
    qed
    then show ?thesis using n(6) [OF that] by (simp add: s2_def)
  qed
  have eok: "entry_ok ?off ?L ?p (mem s2 (t + 8 * of_nat (vpn v i)))"
    using cell n(3-5) i by (simp add: entry_ok_def entry_addr_def)
  have kind: "entry_kind_of (mem s2 (t + 8 * of_nat (vpn v i))) = Some (Branch n)"
    using cell n(3,4) by (simp add: entry_addr_def)
  note br = pt_tree_branch [OF tree same p t vpn_less kind eok n(1) zero ne old]
  show off2: "phys_off s2 = ?off" using al(4) by (simp add: s2_def)
  have "table_page ?off (n + ?off) = block_bytes 0 n"
    using n(5) by (simp add: table_page_def block_bytes_def unat_add_lem [THEN iffD1])
  then show "table_bytes m s2 pt \<subseteq> table_bytes m s pt \<union> block_bytes 0 n"
    using pt_bytes_branch [OF same p t kind zero] off2 by simp
  have "frame (table_bytes m s pt) s1 s2"
    unfolding s2_def entry_addr_def using ok al(4) pt_bytes_table [OF p t] by (intro frame_cell_write) auto
  from frame_trans [OF al(2) this] show "frame (free_bytes fl \<union> table_bytes m s pt) s s2" by simp
  have "buddy_inv s2 fl1"
    unfolding s2_def entry_addr_def using al(4) old [OF p t] by (intro buddy_inv_cell [OF al(1)]) auto
  then show "paging_inv m s2 pt fl1"
    using inv br(1) off2 F al(3) by (auto simp: paging_inv_def)
  show t2: "tbl (mem s2) ?off ?rt (vpath v ?L i) = Some (n + ?off)"
    using br(2) vpath_step [OF i(2), of v] by simp
  show "walk m s2 pt w = walk m s pt w"
    using lookup_new_table [OF same i t e t2 zero] off2 by simp
qed

end
