(* ===== verification/Page_Map.thy ===== *)
theory Page_Map
  imports Page_Correct
begin

text \<open>
  Correctness of \<open>map\<close> and \<open>unmap\<close>: the effect on every translation, on success and on each error. \<open>map\<close>
  is shown to return where the vector of subtables has room for the tables of one mapping.
\<close>

section \<open>The loop of map\<close>

lemma vec_push_room:
  "length (subtables pt) < sub_cap pt \<Longrightarrow> vec_push pt x s = Some (pt\<lparr>subtables := subtables pt @ [x]\<rparr>, s)"
  by (simp add: vec_push_def)

definition keeps :: "paging_mode \<Rightarrow> 'a kernel_scheme \<Rightarrow> page_table \<Rightarrow> usize list list \<Rightarrow> 'a kernel_scheme \<Rightarrow> page_table \<Rightarrow> usize list list \<Rightarrow> bool" where
  "keeps m s pt fl s' pt' fl' \<longleftrightarrow> paging_inv m s' pt' fl' \<and> entries pt' = entries pt \<and> sub_cap pt' = sub_cap pt \<and>
     phys_off s' = phys_off s \<and> pmem.more s' = pmem.more s \<and> total (stats s') = total (stats s) \<and>
     free_bytes fl' \<subseteq> free_bytes fl \<and> length (subtables pt) \<le> length (subtables pt') \<and>
     card (free_bytes fl) + 4096 * length (subtables pt) = card (free_bytes fl') + 4096 * length (subtables pt') \<and>
     table_bytes m s' pt' \<subseteq> table_bytes m s pt \<union> (free_bytes fl - free_bytes fl') \<and> frame (free_bytes fl \<union> table_bytes m s pt) s s' \<and>
     (\<forall>w. walk m s' pt' w = walk m s pt w)"

lemma paging_inv_sub [simp]: "paging_inv m s (pt\<lparr>subtables := xs\<rparr>) fl \<longleftrightarrow> paging_inv m s pt fl"
  by (simp add: paging_inv_def)

lemma keeps_refl: "paging_inv m s pt fl \<Longrightarrow> keeps m s pt fl s pt fl"
  by (simp add: keeps_def)

lemma keeps_trans:
  assumes "keeps m s pt fl s1 pt1 fl1" "keeps m s1 pt1 fl1 s2 pt2 fl2"
  shows "keeps m s pt fl s2 pt2 fl2"
proof -
  note k = assms [unfolded keeps_def]
  have "table_bytes m s2 pt2 \<subseteq> table_bytes m s pt \<union> (free_bytes fl - free_bytes fl2)" using k by blast
  moreover have "frame (free_bytes fl \<union> table_bytes m s pt) s s2" using k by (intro frame_trans [of _ s s1 _ s2]) blast+
  ultimately show ?thesis unfolding keeps_def using k by auto
qed

definition levels_result :: "paging_mode \<Rightarrow> 'a kernel_scheme \<Rightarrow> page_table \<Rightarrow> usize \<Rightarrow> nat \<Rightarrow> 'a kernel_scheme \<Rightarrow> usize list list \<Rightarrow> (usize, page_error) result \<Rightarrow> bool" where
  "levels_result m s pt v k s' fl' r \<longleftrightarrow> (case r of
     Ok t \<Rightarrow> tbl (mem s') (phys_off s) (entries pt) (vpath v (LEVELS m) (Suc k)) = Some t
   | Err AlreadyMapped \<Rightarrow> (\<exists>e j. walk m s pt v = Some (e, j) \<and> k \<le> j)
   | Err (AllocErr e) \<Rightarrow> free_bytes fl' = {}
   | Err _ \<Rightarrow> False)"

lemma map_levels_ok:
  fixes s :: "'a kernel_scheme"
  assumes "paging_inv m s pt fl" "Suc k + d \<le> LEVELS m"
    "tbl (mem s) (phys_off s) (entries pt) (vpath v (LEVELS m) (Suc k + d)) = Some t" "length (subtables pt) + d \<le> sub_cap pt"
  shows "\<exists>r pt' s' fl'. map_levels s pt t v (rev [Suc k..<Suc k + d]) = Some (r, pt', s') \<and>
    keeps m s pt fl s' pt' fl' \<and> length (subtables pt') \<le> length (subtables pt) + d \<and> levels_result m s pt v k s' fl' r"
  using assms
proof (induction d arbitrary: s pt fl t)
  case 0
  then show ?case using keeps_refl [OF 0(1)] by (auto simp: levels_result_def)
next
  case (Suc d)
  let ?i = "Suc k + d" and ?L = "LEVELS m"
  have idx: "rev [Suc k..<Suc k + Suc d] = ?i # rev [Suc k..<?i]" by simp
  have i: "0 < ?i" "?i < ?L" "?i \<le> ?L" using Suc.prems(2) by simp_all
  have t: "tbl (mem s) (phys_off s) (entries pt) (vpath v ?L (Suc ?i)) = Some t" using Suc.prems(3) by simp
  have tree: "pt_tree (mem s) (phys_off s) (entries pt) ?L (free_bytes fl)" "buddy_inv s fl" using Suc.prems(1) by (simp_all add: paging_inv_def)
  have p: "vpath v ?L (Suc ?i) \<in> paths ?L" using i by (simp add: vpath_paths)
  have eok: "entry_ok (phys_off s) ?L (vpath v ?L (Suc ?i)) (mem s (entry_addr t v ?i))"
    using pt_treeD(2) [OF tree(1) p t] by (simp add: entry_addr_def)
  consider "entry_kind_of (mem s (entry_addr t v ?i)) = Some Leaf" | n where "entry_kind_of (mem s (entry_addr t v ?i)) = Some (Branch n)"
    | "entry_kind_of (mem s (entry_addr t v ?i)) = None" by (metis entry_kind.exhaust option.exhaust)
  then show ?case
  proof cases
    case 1
    have "walk m s pt v = lookup (mem s) (phys_off s) t v (Suc ?i)" using lookup_at [of "Suc ?i" ?L] i t by simp
    then show ?thesis using 1 keeps_refl [OF Suc.prems(1)] unfolding idx by (auto simp: levels_result_def Let_def)
  next
    case (2 n)
    have t': "tbl (mem s) (phys_off s) (entries pt) (vpath v ?L ?i) = Some (n + phys_off s)"
      using 2 t vpath_step [OF i(2), of v] by (simp add: tbl_snoc entry_addr_def)
    moreover have "n + phys_off s \<noteq> 0" using pt_treeD(1) [OF tree(1) vpath_paths [OF i(1,3)] t'] by (simp add: table_ok_def)
    moreover have "phys2virt s n = Some (n + phys_off s)" using 2 eok by (simp add: entry_ok_def phys2virt_eq)
    ultimately show ?thesis
      using Suc.IH [OF Suc.prems(1) i(3) t'] Suc.prems(4) 2 unfolding idx by fastforce
  next
    case 3
    show ?thesis
    proof (cases rule: zalloc_order_cases [OF tree(2), of 0, case_names fails block])
      case (fails e)
      then show ?thesis using 3 keeps_refl [OF Suc.prems(1)] unfolding idx by (auto simp: levels_result_def)
    next
      case (block n s1 fl1)
      define s2 where "s2 = s1\<lparr>mem := (mem s1)(entry_addr t v ?i := branch_entry n)\<rparr>"
      define pt1 where "pt1 = pt\<lparr>subtables := subtables pt @ [n]\<rparr>"
      note new = map_new_table [OF Suc.prems(1) i(1,2) t 3 block(3), folded s2_def]
      have pt1: "entries pt1 = entries pt" "sub_cap pt1 = sub_cap pt" "length (subtables pt1) = Suc (length (subtables pt))"
        "paging_inv m s2 pt1 fl1" using new(1) by (simp_all add: pt1_def)
      have n: "unat n + unat (phys_off s) < 2 ^ 64" "n + phys_off s \<noteq> 0"
        using new_table_ok [OF block(3)] Suc.prems(1) tree(1) by (auto simp: paging_inv_def pt_tree_def table_ok_def)
      have z: "pmem.more s1 = pmem.more s" "total (stats s1) = total (stats s)" "free_bytes fl1 \<subseteq> free_bytes fl"
        "block_bytes 0 n \<subseteq> free_bytes fl" "free_bytes fl1 = free_bytes fl - block_bytes 0 n"
        using block(3) by (auto simp: zallocates_def allocates_def frame_def)
      have "card (free_bytes fl) = card (free_bytes fl1) + 4096"
        using z(4,5) card_mono [OF free_bytes_finite z(4)] card_Diff_subset [OF block_bytes_finite z(4)] by simp
      moreover have "table_bytes m s2 pt1 \<subseteq> table_bytes m s pt \<union> (free_bytes fl - free_bytes fl1)" using new(5) z(4,5) pt1(1) by auto
      ultimately have keeps: "keeps m s pt fl s2 pt1 fl1" using new z(1-3) pt1 by (simp add: keeps_def) (simp add: s2_def)
      have len: "length (subtables pt) < sub_cap pt" "length (subtables pt1) + d \<le> sub_cap pt1" using Suc.prems(4) pt1 by simp_all
      obtain r pt' s' fl' where r: "map_levels s2 pt1 (n + phys_off s) v (rev [Suc k..<?i]) = Some (r, pt', s')"
        "keeps m s2 pt1 fl1 s' pt' fl'" "length (subtables pt') \<le> length (subtables pt1) + d" "levels_result m s2 pt1 v k s' fl' r"
        using Suc.IH [OF pt1(4) i(3) _ len(2), unfolded pt1(1) new(4), OF new(2)] by blast
      have "map_levels s pt t v (rev [Suc k..<Suc k + Suc d]) = Some (r, pt', s')"
      proof -
        have "vec_push pt n s2 = Some (pt1, s2)" unfolding pt1_def by (rule vec_push_room [OF len(1)])
        moreover have "phys2virt s2 n = Some (n + phys_off s)" using n(1) new(4) phys2virt_eq [of n s2] by simp
        moreover have "map_levels s pt t v (?i # is) = do { (pt', s3) \<leftarrow> vec_push pt n s2; t \<leftarrow> phys2virt s3 n;
            if t = 0 then None else map_levels s3 pt' t v is }" for "is"
          using 3 block(2) by (simp add: Let_def s2_def)
        ultimately show ?thesis using r(1) n(2) unfolding idx by simp
      qed
      moreover have "levels_result m s pt v k s' fl' r"
        using r(4) new(3,4) pt1(1) by (simp add: levels_result_def split: result.splits page_error.splits)
      ultimately show ?thesis using keeps_trans [OF keeps r(2)] r(3) pt1(3) by auto
    qed
  qed
qed

section \<open>The entry of the page\<close>

text \<open>Two addresses of the mapped range are in the same page exactly when their paths agree.\<close>

lemma vpath_eq_iff:
  assumes "unat v < 2 ^ (12 + 9 * L)" "unat w < 2 ^ (12 + 9 * L)" "k \<le> L"
  shows "vpath v L k = vpath w L k \<longleftrightarrow> unat v div 2 ^ (12 + 9 * k) = unat w div 2 ^ (12 + 9 * k)"
  using assms(3)
proof (induction rule: inc_induct)
  case base
  then show ?case using assms(1,2) by simp
next
  case (step n)
  have e: "(2::nat) ^ (12 + 9 * Suc n) = 2 ^ (12 + 9 * n) * 512" by (simp add: power_add)
  have split: "x div 2 ^ (12 + 9 * n) = x div 2 ^ (12 + 9 * Suc n) * 512 + x div 2 ^ (12 + 9 * n) mod 512" for x :: nat
    unfolding e div_mult2_eq by simp
  have "unat v div 2 ^ (12 + 9 * n) = unat w div 2 ^ (12 + 9 * n) \<longleftrightarrow>
    unat v div 2 ^ (12 + 9 * Suc n) = unat w div 2 ^ (12 + 9 * Suc n) \<and>
    unat v div 2 ^ (12 + 9 * n) mod 512 = unat w div 2 ^ (12 + 9 * n) mod 512"
    using split [of "unat v"] split [of "unat w"] unfolding e div_mult2_eq by metis
  then show ?case using step vpath_step [of n L v] vpath_step [of n L w] by (simp add: vpn_eq)
qed

lemma same_page_iff:
  assumes "2 ^ n dvd (v::nat)"
  shows "w div 2 ^ n = v div 2 ^ n \<longleftrightarrow> v \<le> w \<and> w < v + 2 ^ n"
proof -
  obtain q where q: "v = 2 ^ n * q" using assms by (elim dvdE)
  have "w div 2 ^ n = q \<longleftrightarrow> 2 ^ n * q \<le> w \<and> w < 2 ^ n * Suc q"
    by (auto intro: div_nat_eqI simp: dividend_less_times_div)
  then show ?thesis unfolding q by (simp add: add.commute)
qed

lemma write_entry:
  assumes inv: "paging_inv m s pt fl" and k: "k < 3" "k < LEVELS m"
    and t: "tbl (mem s) (phys_off s) (entries pt) (vpath v (LEVELS m) (Suc k)) = Some t"
    and e: "entry_kind_of e = Some Leaf \<or> entry_kind_of e = None"
  defines "s' \<equiv> s\<lparr>mem := (mem s)(entry_addr t v k := e)\<rparr>"
  shows "paging_inv m s' pt fl"
    "walk m s' pt w = (if vpath w (LEVELS m) k = vpath v (LEVELS m) k
      then (if entry_kind_of e = Some Leaf then Some (e, k) else None) else walk m s pt w)"
    "table_bytes m s' pt \<subseteq> table_bytes m s pt" "frame (table_bytes m s pt) s s'"
proof -
  let ?L = "LEVELS m" and ?off = "phys_off s" and ?rt = "entries pt"
  let ?p = "vpath v ?L (Suc k)"
  have tree: "pt_tree (mem s) ?off ?rt ?L (free_bytes fl)" and b: "buddy_inv s fl" using inv by (simp_all add: paging_inv_def)
  have p: "?p \<in> paths ?L" using k by (simp add: vpath_paths)
  have cell: "mem s' (entry_addr t v k) = e" "phys_off s' = ?off" by (simp_all add: s'_def)
  have same: "same_but ?L (mem s) (mem s') ?off ?rt ?p (vpn v k)"
    unfolding s'_def entry_addr_def using same_but_write [OF tree frame_refl p t] by simp
  have "entry_ok ?off ?L ?p (mem s' (t + 8 * of_nat (vpn v k)))" "\<nexists>n. entry_kind_of (mem s' (t + 8 * of_nat (vpn v k))) = Some (Branch n)"
    using cell e k by (auto simp: entry_ok_def entry_addr_def)
  then have "pt_tree (mem s') ?off ?rt ?L (free_bytes fl)"
    using pt_treeD(1) [OF tree] by (intro pt_tree_write [OF tree same p t]) auto
  moreover have "buddy_inv s' fl"
    unfolding s'_def entry_addr_def by (rule buddy_inv_cell [OF b pt_treeD(1) [OF tree p t] vpn_less])
  ultimately show "paging_inv m s' pt fl" using inv cell(2) by (simp add: paging_inv_def)
  have "\<nexists>n. entry_kind_of (mem s' (t + 8 * of_nat (vpn v k))) = Some (Branch n)" using cell(1) e by (auto simp: entry_addr_def)
  then show "table_bytes m s' pt \<subseteq> table_bytes m s pt" using pt_bytes_write [OF same p t] cell(2) by simp
  show "frame (table_bytes m s pt) s s'"
    unfolding s'_def entry_addr_def by (rule frame_cell_write [OF pt_treeD(1) [OF tree p t] vpn_less pt_bytes_table [OF p t]])
  show "walk m s' pt w = (if vpath w ?L k = vpath v ?L k
      then (if entry_kind_of e = Some Leaf then Some (e, k) else None) else walk m s pt w)"
  proof (cases "vpath w ?L k = vpath v ?L k")
    case True
    then have w: "vpath w ?L (Suc k) = ?p" "vpn w k = vpn v k" using vpath_step [OF k(2)] by auto
    have "walk m s' pt w = lookup (mem s') ?off t w (Suc k)"
      using lookup_through [of ?L "mem s" "mem s'" ?off ?rt w k] same w t k(2) cell(2) by simp
    then show ?thesis using True e cell(1) w(2) by (auto simp: entry_addr_def Let_def)
  next
    case False
    have "vpath w ?L 0 \<noteq> ?p @ [vpn v k] @ r" for r
    proof
      assume "vpath w ?L 0 = ?p @ [vpn v k] @ r"
      moreover obtain r' where "vpath w ?L 0 = vpath w ?L k @ r'" using vpath_prefix [of k ?L w] k(2) by auto
      moreover have "?p @ [vpn v k] @ r = vpath v ?L k @ r" using vpath_step [OF k(2), of v] by simp
      ultimately show False using False by (metis append_eq_append_conv vpath_length)
    qed
    then show ?thesis using lookup_other [OF same] False cell(2) by auto
  qed
qed

section \<open>map and unmap\<close>

text \<open>The address range of a mode.\<close>

definition mode_ok :: "paging_mode \<Rightarrow> bool" where
  "mode_ok m \<longleftrightarrow> m = mode_Sv39 \<or> m = mode_Sv48"

lemma mode_okD:
  assumes "mode_ok m"
  shows "MAX_ADDRESS m = mask (12 + 9 * LEVELS m)" "unat (MAX_ADDRESS m) = 2 ^ (12 + 9 * LEVELS m) - 1"
    "3 \<le> LEVELS m" "LEVELS m \<le> 4"
  using assms by (auto simp: mode_ok_def mode_Sv39_def mode_Sv48_def mask_numeral)

definition in_page :: "page_size \<Rightarrow> usize \<Rightarrow> usize \<Rightarrow> bool" where
  "in_page sz v w \<longleftrightarrow> unat v \<le> unat w \<and> unat w < unat v + unat (size_bytes sz)"

lemma in_page_vpath:
  assumes "mode_ok m" "unat v \<le> unat (MAX_ADDRESS m)" "unat w \<le> unat (MAX_ADDRESS m)" "is_aligned sz v" "vpn_idx sz \<le> LEVELS m"
  shows "vpath w (LEVELS m) (vpn_idx sz) = vpath v (LEVELS m) (vpn_idx sz) \<longleftrightarrow> in_page sz v w"
proof -
  have pos: "0 < (2::nat) ^ (12 + 9 * LEVELS m)" by simp
  have "unat v < 2 ^ (12 + 9 * LEVELS m)" "unat w < 2 ^ (12 + 9 * LEVELS m)"
    using assms(2,3) pos unfolding mode_okD(2) [OF assms(1)] by linarith+
  then show ?thesis
    using vpath_eq_iff [of w "LEVELS m" v "vpn_idx sz"] assms(4,5) same_page_iff [of "12 + 9 * vpn_idx sz" "unat v" "unat w"]
    by (simp add: in_page_def unat_size_bytes is_aligned_iff del: size_bytes.simps)
qed

lemma in_page_offset:
  assumes "is_aligned sz v" "in_page sz v w"
  shows "take_bit (12 + 9 * vpn_idx sz) w = w - v"
proof -
  let ?n = "12 + 9 * vpn_idx sz"
  have d: "2 ^ ?n dvd unat v" using assms(1) by (simp add: is_aligned_iff)
  have w: "unat v \<le> unat w" "unat w < unat v + 2 ^ ?n" using assms(2) by (simp_all add: in_page_def unat_size_bytes del: size_bytes.simps)
  have "unat (take_bit ?n w) = unat w mod 2 ^ ?n" by (simp only: unsigned_take_bit_eq take_bit_nat_def)
  also have "\<dots> = unat w - unat v"
  proof -
    obtain r where r: "unat w = unat v + r" using w(1) le_Suc_ex by blast
    obtain q where q: "unat v = 2 ^ ?n * q" using d by (elim dvdE)
    show ?thesis using w(2) unfolding r q by simp
  qed
  also have "\<dots> = unat (w - v)" using w(1) by (simp add: unat_sub word_le_nat_alt)
  finally show ?thesis by (simp add: word_unat_eq_iff)
qed

lemma and_not_max:
  assumes "mode_ok m" "v < MAX_ADDRESS m"
  shows "v AND NOT (MAX_ADDRESS m) = 0"
proof -
  have "unat v < 2 ^ (12 + 9 * LEVELS m)" using assms mode_okD(2) by (simp add: word_less_nat_alt)
  then have "take_bit (12 + 9 * LEVELS m) v = v"
    by (simp add: word_unat_eq_iff unsigned_take_bit_eq take_bit_nat_eq_self)
  then show ?thesis
    unfolding mode_okD(1) [OF assms(1)] take_bit_eq_mask by (metis and.assoc bit.conj_cancel_right bit.conj_zero_right)
qed

lemma lookup_level: "lookup h off t v i = Some (e, j) \<Longrightarrow> j < i"
  by (induction i arbitrary: t) (fastforce simp: Let_def split: option.splits entry_kind.splits)+

lemma lookup_below: "entry_kind_of (h (entry_addr t v i)) \<noteq> Some Leaf \<Longrightarrow> lookup h off t v (Suc i) = Some (e, j) \<Longrightarrow> j < i"
  using lookup_level by (auto simp: Let_def split: option.splits entry_kind.splits)

lemma map_page_cases:
  fixes s :: "'a kernel_scheme"
  assumes inv: "paging_inv m s pt fl" and m: "mode_ok m" and sz: "sz \<noteq> Terapage" and f: "flags_ok f" "f \<noteq> 0"
    and room: "length (subtables pt) + 3 \<le> sub_cap pt"
    and ok: "v < MAX_ADDRESS m" "is_aligned sz p" "is_aligned sz v"
  obtains (fails) e pt' s' fl' where "map_page m s pt p v sz f = Some (Err e, pt', s')" "keeps m s pt fl s' pt' fl'"
      "e = AlreadyMapped \<and> (\<exists>e j. walk m s pt v = Some (e, j) \<and> vpn_idx sz \<le> j) \<or> (\<exists>a. e = AllocErr a) \<and> free_bytes fl' = {}"
      "length (subtables pt') \<le> length (subtables pt) + 3"
  | (maps) pt' s1 t fl' where "map_page m s pt p v sz f =
      Some (Ok (), pt', sfence v (s1\<lparr>mem := (mem s1)(entry_addr t v (vpn_idx sz) := leaf_entry p f)\<rparr>))"
      "keeps m s pt fl s1 pt' fl'" "tbl (mem s1) (phys_off s1) (entries pt') (vpath v (LEVELS m) (Suc (vpn_idx sz))) = Some t"
      "\<And>e j. walk m s pt v = Some (e, j) \<Longrightarrow> j < vpn_idx sz" "length (subtables pt') \<le> length (subtables pt) + 3"
proof -
  let ?k = "vpn_idx sz" and ?L = "LEVELS m"
  have k: "?k < 3" using sz by (cases sz) simp_all
  obtain d where d: "?L = Suc ?k + d" using k mode_okD(3) [OF m] by (metis Suc_leI le_Suc_ex less_le_trans)
  have hi: "v AND NOT (MAX_ADDRESS m) = 0" using and_not_max [OF m ok(1)] .
  have lv: "\<not> ?L \<le> ?k" using d by simp
  have top: "tbl (mem s) (phys_off s) (entries pt) (vpath v ?L (Suc ?k + d)) = Some (entries pt)" using d by simp
  have len: "length (subtables pt) + d \<le> sub_cap pt" using room d mode_okD(4) [OF m] by simp
  obtain r pt' s' fl' where r: "map_levels s pt (entries pt) v (rev [Suc ?k..<Suc ?k + d]) = Some (r, pt', s')"
    "keeps m s pt fl s' pt' fl'" "levels_result m s pt v ?k s' fl' r" "length (subtables pt') \<le> length (subtables pt) + 3"
    using map_levels_ok [OF inv _ top len] d mode_okD(4) [OF m] by fastforce
  have pg: "map_page m s pt p v sz f = (case r of
      Err e \<Rightarrow> Some (Err e, pt', s')
    | Ok t \<Rightarrow> let entry = entry_addr t v ?k in
        if entry_kind_of (mem s' entry) = Some Leaf then Some (Err AlreadyMapped, pt', s')
        else Some (Ok (), pt', sfence v (s'\<lparr>mem := (mem s')(entry := leaf_entry p f)\<rparr>)))"
    using r(1) lv hi ok(2,3) iffD2 [OF not_le ok(1)] unfolding map_page_def d by simp
  show thesis
  proof (cases r)
    case (Err e)
    then have "e = AlreadyMapped \<and> (\<exists>e j. walk m s pt v = Some (e, j) \<and> vpn_idx sz \<le> j) \<or> (\<exists>a. e = AllocErr a) \<and> free_bytes fl' = {}"
      using r(3) by (auto simp: levels_result_def split: page_error.splits)
    then show ?thesis using fails [OF _ r(2) _ r(4)] pg Err by simp
  next
    case (Ok t)
    have same: "entries pt' = entries pt" "phys_off s' = phys_off s" "walk m s' pt' v = walk m s pt v"
      using r(2) unfolding keeps_def by blast+
    have t: "tbl (mem s') (phys_off s') (entries pt') (vpath v ?L (Suc ?k)) = Some t"
      using r(3) Ok same by (simp add: levels_result_def)
    have wk: "walk m s' pt' v = lookup (mem s') (phys_off s') t v (Suc ?k)" using lookup_at [of "Suc ?k" ?L] t d by simp
    show ?thesis
    proof (cases "entry_kind_of (mem s' (entry_addr t v ?k)) = Some Leaf")
      case True
      from wk have "\<exists>e j. walk m s pt v = Some (e, j) \<and> ?k \<le> j" using True same(3) by simp
      then show ?thesis using fails [OF _ r(2) _ r(4), of AlreadyMapped] pg Ok True by simp
    next
      case False
      then have "\<And>e j. walk m s pt v = Some (e, j) \<Longrightarrow> j < ?k" using wk same(3) lookup_below by metis
      then show ?thesis using maps [OF _ r(2) t _ r(4)] pg Ok False by simp
    qed
  qed
qed

lemma keeps_translate:
  assumes "paging_inv m s pt fl" "keeps m s pt fl s' pt' fl'"
  shows "translate m s' pt' w = translate m s pt w"
proof -
  have "paging_inv m s' pt' fl'" "walk m s' pt' w = walk m s pt w" using assms(2) unfolding keeps_def by blast+
  then show ?thesis using translate_walk [OF assms(1)] translate_walk [of m s' pt' fl'] by simp
qed

lemma paging_inv_sfence [simp]: "paging_inv m (sfence v s) pt fl \<longleftrightarrow> paging_inv m s pt fl"
  by (simp add: paging_inv_def sfence_def buddy_inv_def blocks_inv_def free_lists_def)

lemma translate_sfence [simp]: "translate m (sfence v s) pt w = translate m s pt w"
proof -
  have eq: "mem (sfence v s) = mem s" "phys2virt (sfence v s) = phys2virt s" by (auto simp: sfence_def phys2virt_def)
  have "traverse_loop (sfence v s) w t i a b = traverse_loop s w t i a b" for t i a b
  proof (induction i arbitrary: t a b)
    case 0
    show ?case by (subst (1 2) traverse_loop.simps) (simp add: eq Let_def split: option.split entry_kind.split cong: if_cong)
  next
    case (Suc i)
    show ?case by (subst (1 2) traverse_loop.simps) (simp add: eq Suc Let_def split: option.split entry_kind.split cong: if_cong)
  qed
  then show ?thesis unfolding translate_def traverse_def eq(1) by simp
qed

text \<open>What a call of \<open>map\<close> does to memory and to the table structure: at most three new subtables, each a page taken from the free
  memory, and no write outside of the free memory and the tables.\<close>

definition accounts :: "paging_mode \<Rightarrow> 'a kernel_scheme \<Rightarrow> page_table \<Rightarrow> usize list list \<Rightarrow> 'a kernel_scheme \<Rightarrow> page_table \<Rightarrow> usize list list \<Rightarrow> bool" where
  "accounts m s pt fl s' pt' fl' \<longleftrightarrow> entries pt' = entries pt \<and> sub_cap pt' = sub_cap pt \<and> phys_off s' = phys_off s \<and>
     root_table s' = root_table s \<and> root_locked s' = root_locked s \<and> total (stats s') = total (stats s) \<and> free_bytes fl' \<subseteq> free_bytes fl \<and>
     length (subtables pt) \<le> length (subtables pt') \<and> length (subtables pt') \<le> length (subtables pt) + 3 \<and>
     card (free_bytes fl) + 4096 * length (subtables pt) = card (free_bytes fl') + 4096 * length (subtables pt') \<and>
     table_bytes m s' pt' \<subseteq> table_bytes m s pt \<union> (free_bytes fl - free_bytes fl') \<and>
     (\<forall>x. unat x \<notin> free_bytes fl \<union> table_bytes m s pt \<longrightarrow> mem s' (x + phys_off s) = mem s (x + phys_off s))"

lemma keeps_accounts:
  fixes s :: "'a kernel_scheme"
  assumes "keeps m s pt fl s' pt' fl'" "length (subtables pt') \<le> length (subtables pt) + 3"
  shows "accounts m s pt fl s' pt' fl'"
proof -
  have "root_table s' = root_table s \<and> root_locked s' = root_locked s" using assms(1) by (cases s; cases s') (simp add: keeps_def)
  moreover have "table_bytes m s' pt' \<subseteq> table_bytes m s pt \<union> (free_bytes fl - free_bytes fl')" using assms(1) unfolding keeps_def by blast
  ultimately show ?thesis using assms by (simp add: keeps_def accounts_def frame_def)
qed

lemma write_accounts:
  assumes "accounts m s pt fl s1 pt' fl'" "table_bytes m s2 pt' \<subseteq> table_bytes m s1 pt'" "frame (table_bytes m s1 pt') s1 s2"
    "root_table s2 = root_table s1" "root_locked s2 = root_locked s1" "stats s2 = stats s1"
  shows "accounts m s pt fl (sfence v s2) pt' fl'"
proof -
  note a = assms(1) [unfolded accounts_def]
  have off: "phys_off s2 = phys_off s1" using assms(3) by (simp add: frame_def)
  have "mem s2 (x + phys_off s) = mem s (x + phys_off s)" if "unat x \<notin> free_bytes fl \<union> table_bytes m s pt" for x
  proof -
    have "unat x \<notin> table_bytes m s1 pt'" using that a by blast
    then have "mem s2 (x + phys_off s1) = mem s1 (x + phys_off s1)" using assms(3) by (simp add: frame_def)
    then show ?thesis using a that by simp
  qed
  moreover have "table_bytes m s2 pt' \<subseteq> table_bytes m s pt \<union> (free_bytes fl - free_bytes fl')" using a assms(2) by blast
  ultimately show ?thesis using a assms(4-6) off by (simp add: accounts_def sfence_def)
qed

text \<open>The effect of a new leaf entry on the translations.\<close>

lemma leaf_translate:
  assumes "paging_inv m s pt fl" "mode_ok m" "sz \<noteq> Terapage" "flags_ok f" "f \<noteq> 0" "v < MAX_ADDRESS m" "is_aligned sz p" "is_aligned sz v"
    "tbl (mem s) (phys_off s) (entries pt) (vpath v (LEVELS m) (Suc (vpn_idx sz))) = Some t" "w \<le> MAX_ADDRESS m"
  shows "translate m (s\<lparr>mem := (mem s)(entry_addr t v (vpn_idx sz) := leaf_entry p f)\<rparr>) pt w =
    (if in_page sz v w then Some (Some (p + (w - v), sz, f)) else translate m s pt w)"
proof -
  let ?k = "vpn_idx sz" and ?s = "s\<lparr>mem := (mem s)(entry_addr t v (vpn_idx sz) := leaf_entry p f)\<rparr>"
  have k: "?k < 3" "?k < LEVELS m" "the (size_of_idx ?k) = sz" using assms(3) mode_okD(3) [OF assms(2)] by (cases sz; simp)+
  have leaf: "entry_kind_of (leaf_entry p f) = Some Leaf" using assms(4,5) by simp
  note wr = write_entry [OF assms(1) k(1,2) assms(9), of "leaf_entry p f"]
  have al: "4096 dvd unat p" using assms(7) by (auto simp: is_aligned_iff power_add elim: dvd_mult_left)
  have "unat v \<le> unat (MAX_ADDRESS m)" "unat w \<le> unat (MAX_ADDRESS m)" using assms(6,10) by (simp_all add: word_le_nat_alt word_less_nat_alt)
  then have pg: "vpath w (LEVELS m) ?k = vpath v (LEVELS m) ?k \<longleftrightarrow> in_page sz v w"
    using in_page_vpath [OF assms(2) _ _ assms(8)] k(2) by simp
  have tr: "translate m ?s pt w = Some (map_option (translation w) (walk m ?s pt w))" using translate_walk wr(1) leaf by blast
  have wk: "walk m ?s pt w = (if in_page sz v w then Some (leaf_entry p f, ?k) else walk m s pt w)"
    using wr(2) [of w] leaf pg by simp
  show ?thesis
    unfolding tr wk translate_walk [OF assms(1)] using in_page_offset [OF assms(8), of w] k(3) al assms(4)
    by (simp add: translation_def del: size_of_idx.simps)
qed

lemma walk_translate:
  assumes "paging_inv m s pt fl" "walk m s pt v = Some (e, j)"
  shows "\<exists>q z g. translate m s pt v = Some (Some (q, z, g)) \<and> vpn_idx z = j"
proof (rule traverse_walk [OF assms(1), of v])
  assume "\<And>e j. walk m s pt v = Some (e, j) \<Longrightarrow> j < 3 \<and> j < LEVELS m \<and>
      (\<exists>t. tbl (mem s) (phys_off s) (entries pt) (vpath v (LEVELS m) (Suc j)) = Some t \<and> mem s (entry_addr t v j) = e)"
  then have "j < 3" using assms(2) by blast
  then show ?thesis
    unfolding translate_walk [OF assms(1)] assms(2) using size_of_idx_small [of j] by (auto simp: translation_def simp del: size_of_idx.simps)
qed

text \<open>The outcome of \<open>map\<close>: what changes on success, and what every error means.\<close>

definition map_outcome :: "paging_mode \<Rightarrow> 'a kernel_scheme \<Rightarrow> page_table \<Rightarrow> usize \<Rightarrow> usize \<Rightarrow> page_size \<Rightarrow> u8 \<Rightarrow>
    (unit, page_error) result \<Rightarrow> page_table \<Rightarrow> 'a kernel_scheme \<Rightarrow> usize list list \<Rightarrow> bool" where
  "map_outcome m s pt p v sz f r pt' s' fl' \<longleftrightarrow> (case r of
       Ok _ \<Rightarrow> v < MAX_ADDRESS m \<and> is_aligned sz p \<and> is_aligned sz v \<and>
         (\<forall>q z g. translate m s pt v = Some (Some (q, z, g)) \<longrightarrow> vpn_idx z < vpn_idx sz) \<and>
         (\<forall>w\<le>MAX_ADDRESS m. translate m s' pt' w =
           (if in_page sz v w then Some (Some (p + (w - v), sz, f)) else translate m s pt w))
     | Err e \<Rightarrow> (\<forall>w. translate m s' pt' w = translate m s pt w) \<and>
         (case e of UnsupportedPageSize \<Rightarrow> False | InvalidAddress \<Rightarrow> MAX_ADDRESS m \<le> v
          | UnalignedAddress \<Rightarrow> v < MAX_ADDRESS m \<and> (\<not> is_aligned sz p \<or> \<not> is_aligned sz v)
          | AlreadyMapped \<Rightarrow> v < MAX_ADDRESS m \<and> is_aligned sz p \<and> is_aligned sz v \<and>
              (\<exists>q z g. translate m s pt v = Some (Some (q, z, g)) \<and> vpn_idx sz \<le> vpn_idx z)
          | AllocErr _ \<Rightarrow> free_bytes fl' = {}))"

lemma map_page_spec:
  assumes "paging_inv m s pt fl" "mode_ok m" "sz \<noteq> Terapage" "flags_ok f" "f \<noteq> 0"
    "length (subtables pt) + 3 \<le> sub_cap pt"
  shows "\<exists>r pt' s' fl'. map_page m s pt p v sz f = Some (r, pt', s') \<and> paging_inv m s' pt' fl' \<and> accounts m s pt fl s' pt' fl' \<and>
    map_outcome m s pt p v sz f r pt' s' fl'"
proof (cases "v < MAX_ADDRESS m \<and> is_aligned sz p \<and> is_aligned sz v")
  case False
  have "\<not> LEVELS m \<le> vpn_idx sz" using assms(3) mode_okD(3) [OF assms(2)] by (cases sz) auto
  moreover have "v AND NOT (MAX_ADDRESS m) = 0" if "v < MAX_ADDRESS m"
    using and_not_max [OF assms(2)] that .
  ultimately show ?thesis
    using False assms(1) by (cases "v < MAX_ADDRESS m") (auto simp: map_page_def accounts_def map_outcome_def leD leI)
next
  case True
  then have ok: "v < MAX_ADDRESS m" "is_aligned sz p" "is_aligned sz v" by simp_all
  show ?thesis
  proof (cases rule: map_page_cases [OF assms ok, case_names fails maps])
    case (fails e pt' s' fl')
    have "paging_inv m s' pt' fl'" "accounts m s pt fl s' pt' fl'"
      using fails(2) keeps_accounts [OF fails(2,4)] by (simp_all add: keeps_def)
    moreover have "\<exists>q z g. translate m s pt v = Some (Some (q, z, g)) \<and> vpn_idx sz \<le> vpn_idx z" if "walk m s pt v = Some (e, j)" "vpn_idx sz \<le> j" for e j
      using that walk_translate [OF assms(1) that(1)] by auto
    ultimately show ?thesis
      using fails ok keeps_translate [OF assms(1) fails(2)] unfolding map_outcome_def by auto
  next
    case (maps pt' s1 t fl')
    let ?k = "vpn_idx sz" and ?s = "s1\<lparr>mem := (mem s1)(entry_addr t v (vpn_idx sz) := leaf_entry p f)\<rparr>"
    have inv1: "paging_inv m s1 pt' fl'" using maps(2) by (simp add: keeps_def)
    have k: "?k < 3" "?k < LEVELS m" using assms(3) mode_okD(3) [OF assms(2)] by (cases sz; simp)+
    have leaf: "entry_kind_of (leaf_entry p f) = Some Leaf" using assms(4,5) by simp
    note wr = write_entry [OF inv1 k maps(3), of "leaf_entry p f"]
    have "translate m ?s pt' w = (if in_page sz v w then Some (Some (p + (w - v), sz, f)) else translate m s pt w)"
      if "w \<le> MAX_ADDRESS m" for w
      using leaf_translate [OF inv1 assms(2-5) ok maps(3) that] keeps_translate [OF assms(1) maps(2), of w] by simp
    moreover have "vpn_idx z < ?k" if tv: "translate m s pt v = Some (Some (q, z, g))" for q z g
    proof -
      obtain e j where j: "walk m s pt v = Some (e, j)" "z = the (size_of_idx j)"
        using tv unfolding translate_walk [OF assms(1)] by (auto simp: translation_def simp del: size_of_idx.simps)
      have "j < ?k" using maps(4) j(1) by simp
      then show ?thesis using j(2) k(1) by (cases "j = 0"; cases "j = 1") auto
    qed
    moreover have "accounts m s pt fl (sfence v ?s) pt' fl'"
      using wr(3,4) leaf by (intro write_accounts [OF keeps_accounts [OF maps(2,5)]]) auto
    ultimately show ?thesis using maps(1) wr(1) leaf ok unfolding map_outcome_def by auto
  qed
qed

text \<open>An aligned page whose first address is not mapped: only the memory for the tables can be missing.\<close>

lemma map_page_unmapped:
  assumes "paging_inv m s pt fl" "mode_ok m" "sz \<noteq> Terapage" "flags_ok f" "f \<noteq> 0" "length (subtables pt) + 3 \<le> sub_cap pt"
    "v < MAX_ADDRESS m" "is_aligned sz p" "is_aligned sz v" "translate m s pt v = Some None"
  obtains (full) a pt' s' fl' where "map_page m s pt p v sz f = Some (Err (AllocErr a), pt', s')" "paging_inv m s' pt' fl'" "accounts m s pt fl s' pt' fl'"
      "\<And>w. translate m s' pt' w = translate m s pt w" "free_bytes fl' = {}"
  | (maps) pt' s' fl' where "map_page m s pt p v sz f = Some (Ok (), pt', s')" "paging_inv m s' pt' fl'" "accounts m s pt fl s' pt' fl'"
      "\<And>w. w\<le>MAX_ADDRESS m \<Longrightarrow> translate m s' pt' w = (if in_page sz v w then Some (Some (p + (w - v), sz, f)) else translate m s pt w)"
proof -
  obtain r pt' s' fl' where r: "map_page m s pt p v sz f = Some (r, pt', s')" "paging_inv m s' pt' fl'" "accounts m s pt fl s' pt' fl'"
    "map_outcome m s pt p v sz f r pt' s' fl'" using map_page_spec [OF assms(1-6), of p v] by blast
  show thesis
  proof (cases r)
    case (Ok u)
    then show ?thesis using maps r unfolding map_outcome_def by simp
  next
    case (Err e)
    then have e: "\<And>w. translate m s' pt' w = translate m s pt w" "(\<exists>a. e = AllocErr a) \<and> free_bytes fl' = {}"
      using r(4) assms(7-10) by (auto simp: map_outcome_def split: page_error.splits)
    then show ?thesis using full r(1-3) Err by metis
  qed
qed

lemma map_page_room:
  assumes "paging_inv m s pt fl" "mode_ok m" "sz \<noteq> Terapage" "flags_ok f" "f \<noteq> 0" "length (subtables pt) + 3 \<le> sub_cap pt"
    "v < MAX_ADDRESS m" "is_aligned sz p" "is_aligned sz v" "translate m s pt v = Some None" "4096 * 3 < card (free_bytes fl)"
  obtains pt' s' fl' where "map_page m s pt p v sz f = Some (Ok (), pt', s')" "paging_inv m s' pt' fl'" "accounts m s pt fl s' pt' fl'"
      "\<And>w. w\<le>MAX_ADDRESS m \<Longrightarrow> translate m s' pt' w = (if in_page sz v w then Some (Some (p + (w - v), sz, f)) else translate m s pt w)"
proof (cases rule: map_page_unmapped [OF assms(1-10), case_names full maps])
  case (full a pt' s' fl')
  then show ?thesis using assms(11) by (auto simp: accounts_def)
qed (rule that)

subsubsection \<open>Pages below existing tables\<close>

lemma map_levels_present:
  assumes "paging_inv m s pt fl" "Suc k + d \<le> LEVELS m" "tbl (mem s) (phys_off s) (entries pt) (vpath v (LEVELS m) (Suc k)) = Some t'"
    "tbl (mem s) (phys_off s) (entries pt) (vpath v (LEVELS m) (Suc k + d)) = Some t"
  shows "map_levels s pt t v (rev [Suc k..<Suc k + d]) = Some (Ok t', pt, s)"
  using assms(2,4)
proof (induction d arbitrary: t)
  case (Suc d)
  let ?i = "Suc k + d" and ?L = "LEVELS m" and ?tbl = "tbl (mem s) (phys_off s) (entries pt)"
  have tree: "pt_tree (mem s) (phys_off s) (entries pt) ?L (free_bytes fl)" using assms(1) by (simp add: paging_inv_def)
  have i: "?i < ?L" "0 < ?i" "?i \<le> ?L" using Suc.prems(1) by simp_all
  have "[Suc k..<?i + (?L - ?i)] = [Suc k..<?i] @ [?i..<?i + (?L - ?i)]" by (rule upt_add_eq_append) simp
  then have "[Suc k..<?L] = [Suc k..<?i] @ [?i..<?L]" using i(3) by (metis le_add_diff_inverse)
  then have "vpath v ?L (Suc k) = vpath v ?L ?i @ map (vpn v) (rev [Suc k..<?i])" by (simp add: vpath_def)
  then obtain t1 where t1: "?tbl (vpath v ?L ?i) = Some t1" using assms(3) by (auto simp: tbl_append split: option.splits)
  have t: "?tbl (vpath v ?L (Suc ?i)) = Some t" using Suc.prems(2) by simp
  then obtain n where n: "entry_kind_of (mem s (entry_addr t v ?i)) = Some (Branch n)" "t1 = n + phys_off s"
    using t1 vpath_step [OF i(1), of v] by (auto simp: tbl_snoc entry_addr_def split: option.splits entry_kind.splits)
  have "entry_ok (phys_off s) ?L (vpath v ?L (Suc ?i)) (mem s (entry_addr t v ?i))"
    using pt_treeD(2) [OF tree _ t vpn_less] i by (simp add: entry_addr_def vpath_paths)
  then have "phys2virt s n = Some t1" using n by (simp add: entry_ok_def phys2virt_eq)
  moreover have "t1 \<noteq> 0" using pt_treeD(1) [OF tree vpath_paths [OF i(2,3)] t1] by (simp add: table_ok_def)
  ultimately show ?case using Suc.IH [OF i(3) t1] n(1) by simp
qed (use assms(3) in simp)

text \<open>A page whose table exists is mapped without a new table.\<close>

lemma map_page_covered:
  assumes "paging_inv m s pt fl" "mode_ok m" "sz \<noteq> Terapage" "flags_ok f" "f \<noteq> 0" "v < MAX_ADDRESS m" "is_aligned sz p" "is_aligned sz v"
    "tbl (mem s) (phys_off s) (entries pt) (vpath v (LEVELS m) (Suc (vpn_idx sz))) = Some t" "translate m s pt v = Some None"
  shows "\<exists>s'. map_page m s pt p v sz f = Some (Ok (), pt, s') \<and> paging_inv m s' pt fl \<and> accounts m s pt fl s' pt fl \<and>
    tbl (mem s') (phys_off s') (entries pt) (vpath v (LEVELS m) (Suc (vpn_idx sz))) = Some t \<and>
    (\<forall>w\<le>MAX_ADDRESS m. translate m s' pt w = (if in_page sz v w then Some (Some (p + (w - v), sz, f)) else translate m s pt w))"
proof -
  let ?k = "vpn_idx sz" and ?L = "LEVELS m" and ?s = "s\<lparr>mem := (mem s)(entry_addr t v (vpn_idx sz) := leaf_entry p f)\<rparr>"
  have k: "?k < 3" "?k < ?L" using assms(3) mode_okD(3) [OF assms(2)] by (cases sz; simp)+
  obtain d where d: "?L = Suc ?k + d" using k(2) by (metis Suc_leI le_Suc_ex)
  have top: "tbl (mem s) (phys_off s) (entries pt) (vpath v ?L (Suc ?k + d)) = Some (entries pt)" using d by simp
  have lv: "map_levels s pt (entries pt) v (rev [?k + 1..<?L]) = Some (Ok t, pt, s)"
    using map_levels_present [OF assms(1) _ assms(9) top] d by simp
  have tree: "pt_tree (mem s) (phys_off s) (entries pt) ?L (free_bytes fl)" using assms(1) by (simp add: paging_inv_def)
  have path: "vpath v ?L (Suc ?k) \<in> paths ?L" using k by (simp add: vpath_paths)
  have "walk m s pt v = None" using assms(10) unfolding translate_walk [OF assms(1)] by (cases "walk m s pt v") auto
  then have "entry_kind_of (mem s (entry_addr t v ?k)) \<noteq> Some Leaf" using lookup_at [of "Suc ?k" ?L] assms(9) k(2) by (auto simp: Let_def)
  then have pg: "map_page m s pt p v sz f = Some (Ok (), pt, sfence v ?s)"
    using lv k(2) assms(7,8) and_not_max [OF assms(2,6)] iffD2 [OF not_le assms(6)] by (simp add: map_page_def)
  have leaf: "entry_kind_of (leaf_entry p f) = Some Leaf" using assms(4,5) by simp
  note wr = write_entry [OF assms(1) k assms(9), of "leaf_entry p f"]
  have "accounts m s pt fl s pt fl" by (simp add: accounts_def)
  then have "accounts m s pt fl (sfence v ?s) pt fl" using wr(3,4) leaf by (intro write_accounts) auto
  moreover have "same_but ?L (mem s) (mem ?s) (phys_off s) (entries pt) (vpath v ?L (Suc ?k)) (vpn v ?k)"
    using same_but_write [OF tree frame_refl path assms(9) vpn_less] by (simp add: entry_addr_def)
  then have "tbl (mem ?s) (phys_off ?s) (entries pt) (vpath v ?L (Suc ?k)) = Some t" using tbl_at path assms(9) by simp
  moreover have "mem (sfence v ?s) = mem ?s" "phys_off (sfence v ?s) = phys_off ?s" by (simp_all add: sfence_def)
  ultimately show ?thesis using pg wr(1) leaf leaf_translate [OF assms(1-9)] by (intro exI [of _ "sfence v ?s"]) simp
qed

text \<open>C2: \<open>map\<close> returns on every state that satisfies the invariant, when the subtables vector has room. On
  success every address of the page translates to the physical page, with the offset, size and flags
  given, and every other address of the address space translates as before; success means that the
  addresses passed the checks and that the first address was not mapped by a page of this size or a larger
  one (smaller pages below a larger one are replaced). On an error no
  translation changes, and the error says why: an address outside the mode's range, a misaligned
  address, an address that is already mapped by a page of this size or a larger one, or no page of memory left for a table. The invariant is kept, and no memory is written
  but free memory and the tables.\<close>

theorem map_correct:
  assumes "paging_inv m s pt fl" "mode_ok m" "sz \<noteq> Terapage" "flags_ok f" "f \<noteq> 0"
    "length (subtables pt) + 3 \<le> sub_cap pt"
  shows "\<exists>r pt' s' fl'. map_page m s pt p v sz f = Some (r, pt', s') \<and> paging_inv m s' pt' fl' \<and>
    (\<forall>x. unat x \<notin> free_bytes fl \<union> table_bytes m s pt \<longrightarrow> mem s' (x + phys_off s) = mem s (x + phys_off s)) \<and>
    (case r of
       Ok _ \<Rightarrow> v < MAX_ADDRESS m \<and> is_aligned sz p \<and> is_aligned sz v \<and>
         (\<forall>q z g. translate m s pt v = Some (Some (q, z, g)) \<longrightarrow> vpn_idx z < vpn_idx sz) \<and>
         (\<forall>w\<le>MAX_ADDRESS m. translate m s' pt' w =
           (if in_page sz v w then Some (Some (p + (w - v), sz, f)) else translate m s pt w))
     | Err e \<Rightarrow> (\<forall>w. translate m s' pt' w = translate m s pt w) \<and>
         (case e of UnsupportedPageSize \<Rightarrow> False | InvalidAddress \<Rightarrow> MAX_ADDRESS m \<le> v
          | UnalignedAddress \<Rightarrow> v < MAX_ADDRESS m \<and> (\<not> is_aligned sz p \<or> \<not> is_aligned sz v)
          | AlreadyMapped \<Rightarrow> v < MAX_ADDRESS m \<and> is_aligned sz p \<and> is_aligned sz v \<and>
              (\<exists>q z g. translate m s pt v = Some (Some (q, z, g)) \<and> vpn_idx sz \<le> vpn_idx z)
          | AllocErr _ \<Rightarrow> free_bytes fl' = {}))"
  using map_page_spec [OF assms, of p v] unfolding map_outcome_def accounts_def by blast

lemma unmap_spec:
  assumes "paging_inv m s pt fl" "mode_ok m" "v \<le> MAX_ADDRESS m"
  shows "(case translate m s pt v of
      Some None \<Rightarrow> unmap m s pt v = Some (Ok False, s)
    | Some (Some (p, sz, f)) \<Rightarrow> \<exists>s'. unmap m s pt v = Some (Ok True, s') \<and> paging_inv m s' pt fl \<and>
        s' = s\<lparr>mem := mem s'\<rparr> \<and> table_bytes m s' pt \<subseteq> table_bytes m s pt \<and> frame (table_bytes m s pt) s s' \<and>
        (\<forall>w\<le>MAX_ADDRESS m. translate m s' pt w =
          (if unat w div unat (size_bytes sz) = unat v div unat (size_bytes sz) then Some None else translate m s pt w))
    | None \<Rightarrow> False)"
proof (rule traverse_walk [OF assms(1), of v])
  fix mib kib
  assume t: "traverse m s pt v = Some (map_option
    (\<lambda>(e, j). \<lparr>table_mib = mib j, table_kib = kib j,
       map_entry = entry_addr (the (tbl (mem s) (phys_off s) (entries pt) (vpath v (LEVELS m) (Suc j)))) v j,
       map_size = the (size_of_idx j)\<rparr>) (walk m s pt v))"
  assume w: "\<And>e j. walk m s pt v = Some (e, j) \<Longrightarrow> j < 3 \<and> j < LEVELS m \<and>
      (\<exists>t. tbl (mem s) (phys_off s) (entries pt) (vpath v (LEVELS m) (Suc j)) = Some t \<and> mem s (entry_addr t v j) = e)"
  show ?thesis
  proof (cases "walk m s pt v")
    case None
    then show ?thesis using t translate_walk [OF assms(1), of v] by (simp add: unmap_def)
  next
    case (Some x)
    obtain e j where x: "x = (e, j)" by fastforce
    then obtain t' where t': "j < 3" "j < LEVELS m" "tbl (mem s) (phys_off s) (entries pt) (vpath v (LEVELS m) (Suc j)) = Some t'"
      using w [of e j] Some by auto
    let ?s = "s\<lparr>mem := (mem s)(entry_addr t' v j := 0)\<rparr>"
    have um: "unmap m s pt v = Some (Ok True, ?s)" using t t'(3) Some x by (simp add: unmap_def)
    note wr = write_entry [OF assms(1) t'(1-3), of 0]
    have pos: "0 < (2::nat) ^ (12 + 9 * LEVELS m)" by simp
    have lt: "unat w < 2 ^ (12 + 9 * LEVELS m)" if "w \<le> MAX_ADDRESS m" for w
      using that pos mode_okD(2) [OF assms(2)] unfolding word_le_nat_alt by linarith
    have "translate m ?s pt w = (if unat w div 2 ^ (12 + 9 * j) = unat v div 2 ^ (12 + 9 * j) then Some None else translate m s pt w)"
      if "w \<le> MAX_ADDRESS m" for w
      using translate_walk [OF wr(1), of w] wr(2) [of w] translate_walk [OF assms(1), of w] t'(2)
        vpath_eq_iff [OF lt [OF that] lt [OF assms(3)], of j] by simp
    then show ?thesis
      using um wr(1,3,4) translate_walk [OF assms(1), of v] Some x size_of_idx_small [OF t'(1)]
      by (simp add: translation_def unat_size_bytes del: size_of_idx.simps size_bytes.simps)
  qed
qed

text \<open>C8: \<open>unmap\<close> returns and reports whether the address was mapped. If it was, no address of its page is
  mapped afterwards and every other address translates as before; otherwise nothing changes. Only tables are written.\<close>

theorem unmap_correct:
  assumes "paging_inv m s pt fl" "mode_ok m" "v \<le> MAX_ADDRESS m"
  shows "(case translate m s pt v of
      Some None \<Rightarrow> unmap m s pt v = Some (Ok False, s)
    | Some (Some (p, sz, f)) \<Rightarrow> \<exists>s'. unmap m s pt v = Some (Ok True, s') \<and> paging_inv m s' pt fl \<and>
        (\<forall>x. unat x \<notin> table_bytes m s pt \<longrightarrow> mem s' (x + phys_off s) = mem s (x + phys_off s)) \<and>
        (\<forall>w\<le>MAX_ADDRESS m. translate m s' pt w =
          (if unat w div unat (size_bytes sz) = unat v div unat (size_bytes sz) then Some None else translate m s pt w))
    | None \<Rightarrow> False)"
  using unmap_spec [OF assms] by (fastforce simp: frame_def split: option.splits)

section \<open>An example\<close>

definition example_kernel :: kernel where
  "example_kernel = pmem.extend example_pmem (kernel.fields None True [])"

definition example_table :: page_table where
  "example_table = from_raw_parts 0x90000000 0x91000000 [] 64"

lemma buddy_inv_extend: "buddy_inv (pmem.extend s k) fl \<longleftrightarrow> buddy_inv s fl" for s :: pmem
  by (simp add: buddy_inv_def blocks_inv_def free_lists_def pmem.extend_def)

lemma example_bytes: "free_bytes example_lists = {0x80000000..<0x80002000}"
  by (auto simp: free_bytes_def example_lists_nth block_bytes_def split: if_splits)

lemma tbl_zero: "tbl (\<lambda>_. 0) off t p = (if p = [] then Some t else None)"
  by (cases p) simp_all

lemma lookup_zero: "lookup (\<lambda>_. 0) off t w n = None"
  by (cases n) (simp_all add: entry_kind_of_def VALID_def)

lemma example_paging_inv: "paging_inv mode_Sv48 example_kernel example_table example_lists"
proof -
  have mem: "mem example_kernel = (\<lambda>_. 0)" "phys_off example_kernel = 0"
    by (simp_all add: example_kernel_def pmem.extend_def example_pmem_def)
  have "buddy_inv example_kernel example_lists"
    unfolding example_kernel_def buddy_inv_extend by (rule example_pmem_inv)
  then show ?thesis
    unfolding paging_inv_def pt_tree_def mem tbl_zero example_bytes
    by (auto simp: mode_Sv48_def example_table_def from_raw_parts_def table_ok_def table_page_def entry_ok_def)
qed

theorem map_correct_witness:
  "\<exists>r pt' s' fl'. map_page mode_Sv48 example_kernel example_table 0x200000 0x400000000000 Megapage 6 = Some (r, pt', s') \<and>
    paging_inv mode_Sv48 s' pt' fl'"
  using map_correct [OF example_paging_inv, of Megapage 6 "0x200000" "0x400000000000"]
  by (auto simp: mode_ok_def flags_ok_def bit_0 example_table_def from_raw_parts_def)

theorem unmap_correct_witness: "unmap mode_Sv48 example_kernel example_table 0x1000 = Some (Ok False, example_kernel)"
proof -
  have "translate mode_Sv48 example_kernel example_table 0x1000 = Some None"
    by (simp add: exec_defs example_kernel_def example_pmem_def pmem.extend_def example_table_def)
  then show ?thesis
    using unmap_correct [OF example_paging_inv, of "0x1000"] by (simp add: mode_ok_def mode_Sv48_def)
qed

section \<open>Terapages\<close>

text \<open>Under Sv48 \<open>map\<close> accepts a 512 GiB page, but the walk has no page size for the top level: after such a
  mapping \<open>translate\<close> panics (\<open>unreachable!()\<close>) on every address of the page.\<close>

theorem map_terapage_panics:
  assumes "is_aligned Terapage p" "is_aligned Terapage v" "v < MAX_ADDRESS mode_Sv48" "flags_ok f" "f \<noteq> 0"
    "entry_kind_of (mem s (entry_addr (entries pt) v 3)) \<noteq> Some Leaf" "vpn w 3 = vpn v 3"
  shows "\<exists>s'. map_page mode_Sv48 s pt p v Terapage f = Some (Ok (), pt, s') \<and> translate mode_Sv48 s' pt w = None"
proof -
  let ?s = "sfence v (s\<lparr>mem := (mem s)(entry_addr (entries pt) v 3 := leaf_entry p f)\<rparr>)"
  have L: "LEVELS mode_Sv48 = 4" by (simp add: mode_Sv48_def)
  have "v AND NOT (MAX_ADDRESS mode_Sv48) = 0" using and_not_max assms(3) by (simp add: mode_ok_def)
  then have "map_page mode_Sv48 s pt p v Terapage f = Some (Ok (), pt, ?s)"
    using assms(1-3,6) by (simp add: map_page_def L)
  moreover have "entry_addr (entries pt) w 3 = entry_addr (entries pt) v 3" using assms(7) by (simp add: entry_addr_def)
  then have "translate mode_Sv48 ?s pt w = None"
    using assms(4,5) unfolding translate_def traverse_def L
    by (subst traverse_loop.simps) (simp add: sfence_def)
  ultimately show ?thesis by blast
qed

theorem map_terapage_panics_witness:
  "\<exists>s'. map_page mode_Sv48 example_kernel example_table 0 0x8000000000 Terapage 2 = Some (Ok (), example_table, s') \<and>
    translate mode_Sv48 s' example_table 0x8000001234 = None"
  using map_terapage_panics [of 0 "0x8000000000" 2 example_kernel example_table "0x8000001234"]
  by (simp add: is_aligned_def GIB_def mode_Sv48_def flags_ok_def bit_0 vpn_eq example_kernel_def pmem.extend_def example_pmem_def)

end
