(* ===== verification/Log.thy ===== *)
theory Log
  imports Fmt
begin

text \<open>
  The \<open>log\<close> crate. A \<open>Logger\<close> is a parameter \<open>wstr\<close> on a state, its \<open>write_str\<close>; the pieces of text that the formatting
  machinery of the standard library produces for a message are given as a list of strings, in the order in which they are written.
  The colours of the crate \<open>owo_colors\<close> are a parameter. An \<open>fmt::Error\<close> is \<open>Err ()\<close>.
\<close>

type_synonym 'l logger = "'l \<Rightarrow> string \<Rightarrow> ((unit, unit) result \<times> 'l) option"

section \<open>Values\<close>

text \<open>
  \<open>value.rs\<close>: a value of at most \<open>N * 8\<close> bytes together with the word of its vtable, which sits in the last of the \<open>N\<close> words.
  The words are kept as their bytes.
\<close>

definition LOGGER_SIZE :: nat where "LOGGER_SIZE = 8"

type_synonym bytes8 = "u8 list"

definition new_raw :: "nat \<Rightarrow> bytes8 \<Rightarrow> bytes8 \<Rightarrow> bytes8 option option" where
  "new_raw n info dat =
     (if length info div 8 = 0 \<or> length info mod 8 \<noteq> 0 then None
      else if length info + length dat > n * 8 then Some None
      else (let buf0 = replicate (n * 8) 0;
                info_off = n - length info div 8;
                buf1 = take (info_off * 8) buf0 @ info @ drop (info_off * 8 + length info) buf0;
                buf2 = dat @ drop (length dat) buf1
            in Some (Some buf2)))"

definition get_vtable :: "nat \<Rightarrow> nat \<Rightarrow> bytes8 \<Rightarrow> bytes8" where
  "get_vtable n info_size v = (let off = n - info_size div 8 in take info_size (drop (off * 8) v))"

text \<open>\<open>Value::new\<close> for a value of the given alignment; the error is the value itself.\<close>

definition value_new :: "nat \<Rightarrow> bytes8 \<Rightarrow> nat \<Rightarrow> bytes8 \<Rightarrow> (bytes8, bytes8) result option" where
  "value_new n vtable align val =
     (if align > 8 then None
      else do { r \<leftarrow> new_raw n vtable val;
                Some (case r of Some v \<Rightarrow> Ok v | None \<Rightarrow> Err val) })"

section \<open>Levels, time and the prefix\<close>

datatype color = Magenta | Cyan | Yellow | Red | Green | Blue

datatype level = Debug | Info | Warn | Error

fun level_color :: "level \<Rightarrow> color" where
  "level_color Debug = Magenta"
| "level_color Info = Cyan"
| "level_color Warn = Yellow"
| "level_color Error = Red"

fun level_name :: "level \<Rightarrow> string" where
  "level_name Debug = ''Debug''"
| "level_name Info = ''Info''"
| "level_name Warn = ''Warn''"
| "level_name Error = ''Error''"

text \<open>What \<open>owo_colors\<close> makes of the text of a value.\<close>

record style =
  dimmed :: "string \<Rightarrow> string"
  fg :: "color \<Rightarrow> string \<Rightarrow> string"

text \<open>\<open>riscv::asm::time\<close> from the value of the clock: a duration in nanoseconds.\<close>

definition asm_time :: "usize \<Rightarrow> u64 option" where
  "asm_time t = mul_chk t 100"

definition as_secs :: "u64 \<Rightarrow> nat" where
  "as_secs d = unat d div 1000000000"

definition subsec_millis :: "u64 \<Rightarrow> nat" where
  "subsec_millis d = unat d mod 1000000000 div 1000000"

text \<open>\<open>"{} {:>5} {}> "\<close>; the flag \<open>0\<close> of \<open>{:<03}\<close> overrides the alignment.\<close>

definition prefix_pieces :: "style \<Rightarrow> level \<Rightarrow> string \<Rightarrow> u64 \<Rightarrow> string list" where
  "prefix_pieces sty lvl module t =
     [dimmed sty (''['' @ pad_left 3 (dec (as_secs t)) @ ''.'' @ zero_pad 3 (dec (subsec_millis t)) @ '']''), '' '',
      fg sty (level_color lvl) (pad_left 5 (level_name lvl)), '' '', module, ''> '']"

section \<open>The writer\<close>

record 'l log_writer =
  lw_prefix :: bool
  lw_pieces :: "string list"
  lw_guard :: 'l

definition print_prefix :: "'l logger \<Rightarrow> 'l log_writer \<Rightarrow> ((unit, unit) result \<times> 'l log_writer) option" where
  "print_prefix wstr w =
     do { (r, g) \<leftarrow> try_for_each wstr (lw_guard w) (lw_pieces w); Some (r, w\<lparr>lw_guard := g\<rparr>) }"

definition guard_write_str :: "'l logger \<Rightarrow> 'l log_writer \<Rightarrow> string \<Rightarrow> ((unit, unit) result \<times> 'l log_writer) option" where
  "guard_write_str wstr w s = do { (r, g) \<leftarrow> wstr (lw_guard w) s; Some (r, w\<lparr>lw_guard := g\<rparr>) }"

text \<open>\<open>s.find('\n')\<close>\<close>

fun find_newline :: "string \<Rightarrow> nat option" where
  "find_newline [] = None"
| "find_newline (c # cs) = (if c = CHR 0x0A then Some 0 else map_option Suc (find_newline cs))"

text \<open>The operator \<open>?\<close> on a result and the state that goes with it.\<close>

definition and_then :: "((unit, 'e) result \<times> 's) option \<Rightarrow> ('s \<Rightarrow> ((unit, 'e) result \<times> 's) option) \<Rightarrow> ((unit, 'e) result \<times> 's) option" where
  "and_then x f = do { (r, s) \<leftarrow> x; (case r of Err e \<Rightarrow> Some (Err e, s) | Ok _ \<Rightarrow> f s) }"

definition lw_write_str :: "'l logger \<Rightarrow> 'l log_writer \<Rightarrow> string \<Rightarrow> ((unit, unit) result \<times> 'l log_writer) option" where
  "lw_write_str wstr w s =
     and_then (if lw_prefix w then and_then (print_prefix wstr w) (\<lambda>w. Some (Ok (), w\<lparr>lw_prefix := False\<rparr>)) else Some (Ok (), w))
       (\<lambda>w. case find_newline s of
          Some newline \<Rightarrow>
            (let head = take (newline + 1) s; rest = drop (newline + 1) s
             in and_then (guard_write_str wstr w head)
                  (\<lambda>w. if rest \<noteq> [] then and_then (print_prefix wstr w) (\<lambda>w. guard_write_str wstr w rest)
                       else Some (Ok (), w\<lparr>lw_prefix := True\<rparr>)))
        | None \<Rightarrow> guard_write_str wstr w s)"

section \<open>The global logger\<close>

text \<open>The body of \<open>log\<close>: the message is written piece by piece, then the newline of \<open>writeln!\<close>; an error of the logger panics.\<close>

definition log_msg :: "'l logger \<Rightarrow> string list \<Rightarrow> string list \<Rightarrow> 'l option \<Rightarrow> 'l option option" where
  "log_msg wstr pieces args lock =
     (case lock of
        None \<Rightarrow> Some None
      | Some l \<Rightarrow> do {
          (r, w) \<leftarrow> try_for_each (lw_write_str wstr) \<lparr>lw_prefix = True, lw_pieces = pieces, lw_guard = l\<rparr> (args @ [[CHR 0x0A]]);
          (case r of Err _ \<Rightarrow> None | Ok _ \<Rightarrow> Some (Some (lw_guard w))) })"

text \<open>\<open>log\<close> as the macros call it: the level, the module, the value of the clock and the message.\<close>

definition log_call :: "style \<Rightarrow> 'l logger \<Rightarrow> level \<Rightarrow> string \<Rightarrow> usize \<Rightarrow> string list \<Rightarrow> 'l option \<Rightarrow> 'l option option" where
  "log_call sty wstr lvl module clock args lock =
     (case lock of
        None \<Rightarrow> Some None
      | Some _ \<Rightarrow> do { t \<leftarrow> asm_time clock; log_msg wstr (prefix_pieces sty lvl module t) args lock })"

text \<open>\<open>init_log\<close> and \<open>override_log\<close> on the stored value.\<close>

definition init_log :: "bytes8 \<Rightarrow> nat \<Rightarrow> bytes8 \<Rightarrow> bytes8 option \<Rightarrow> ((unit, bytes8) result \<times> bytes8 option) option" where
  "init_log vtable align l lock =
     do { r \<leftarrow> value_new LOGGER_SIZE vtable align l;
          Some (case r of Err x \<Rightarrow> (Err x, lock) | Ok val \<Rightarrow> (Ok (), Some val)) }"

definition override_log :: "bytes8 \<Rightarrow> nat \<Rightarrow> bytes8 \<Rightarrow> bytes8 option \<Rightarrow> ((unit, bytes8) result \<times> bytes8 option) option" where
  "override_log vtable align l lock =
     do { r \<leftarrow> value_new LOGGER_SIZE vtable align l;
          Some (case r of Err x \<Rightarrow> (Err x, lock) | Ok val \<Rightarrow> (Ok (), Some val)) }"

section \<open>Stored values\<close>

text \<open>A logger fits into the global exactly when its bytes and the word of its vtable together take at most 64 bytes, and then the
  stored value holds both unchanged: its vtable is read back and its first bytes are the logger. A larger logger is returned to the
  caller. The call never panics for an alignment of at most 8.\<close>

theorem value_roundtrip:
  assumes "length vtable = 8" "align \<le> 8"
  shows "\<exists>r. value_new LOGGER_SIZE vtable align l = Some r \<and>
    (case r of
       Ok v \<Rightarrow> length l \<le> 56 \<and> length v = 64 \<and> get_vtable LOGGER_SIZE 8 v = vtable \<and> take (length l) v = l
     | Err x \<Rightarrow> 56 < length l \<and> x = l)"
  using assms by (auto simp: value_new_def new_raw_def get_vtable_def LOGGER_SIZE_def Let_def min_def)

theorem value_roundtrip_witness:
  "\<exists>v. value_new LOGGER_SIZE [1, 2, 3, 4, 5, 6, 7, 8] 8 [9, 9] = Some (Ok v) \<and> get_vtable LOGGER_SIZE 8 v = [1, 2, 3, 4, 5, 6, 7, 8]"
  using value_roundtrip [of "[1, 2, 3, 4, 5, 6, 7, 8]" 8 "[9, 9]"]
  apply simp
  apply (elim exE)
  subgoal for r by (cases r) auto
  done

section \<open>Every line has a prefix\<close>

text \<open>A logger that never fails and appends to its output, every character in the encoding of the output.\<close>

definition appends_as :: "(char \<Rightarrow> 'b) \<Rightarrow> 'l logger \<Rightarrow> ('l \<Rightarrow> 'b list) \<Rightarrow> bool" where
  "appends_as enc wstr out \<longleftrightarrow> (\<forall>l s. \<exists>l'. wstr l s = Some (Ok (), l') \<and> out l' = out l @ map enc s)"

abbreviation appends :: "'l logger \<Rightarrow> ('l \<Rightarrow> string) \<Rightarrow> bool" where
  "appends \<equiv> appends_as (\<lambda>c. c)"

lemmas appends_def = appends_as_def [of "\<lambda>c. c", unfolded list.map_ident]

text \<open>The lines of a text: the parts between newlines.\<close>

fun lines :: "string \<Rightarrow> string list" where
  "lines [] = [[]]"
| "lines (c # cs) = (if c = CHR 0x0A then [] # lines cs else (c # hd (lines cs)) # tl (lines cs))"

text \<open>The same text with the prefix in front of every line that starts in it.\<close>

fun prefixed :: "string \<Rightarrow> string \<Rightarrow> string" where
  "prefixed pre [] = []"
| "prefixed pre (c # cs) = c # (if c = CHR 0x0A then pre @ prefixed pre cs else prefixed pre cs)"

lemma prefixed_append: "prefixed pre (xs @ ys) = prefixed pre xs @ prefixed pre ys"
  by (induction xs) auto

lemma lines_not_Nil [simp]: "lines s \<noteq> []"
  by (induction s) auto

lemma prefixed_lines: "pre @ prefixed pre s @ [CHR 0x0A] = concat (map (\<lambda>l. pre @ l @ [CHR 0x0A]) (lines s))"
proof (induction s)
  case (Cons c cs)
  show ?case
  proof (cases "lines cs")
    case (Cons l ls)
    then show ?thesis using Cons.IH by auto
  qed simp
qed simp

lemma find_newline_None: "find_newline s = None \<Longrightarrow> CHR 0x0A \<notin> set s"
  by (induction s) (auto split: if_splits)

lemma find_newline_Some:
  "find_newline s = Some n \<Longrightarrow> CHR 0x0A \<notin> set (take n s) \<and> take (n + 1) s = take n s @ [CHR 0x0A] \<and> s = take (n + 1) s @ drop (n + 1) s"
  by (induction s arbitrary: n) (auto split: if_splits)

lemma prefixed_plain: "CHR 0x0A \<notin> set s \<Longrightarrow> prefixed pre s = s"
  by (induction s) auto

lemma and_then_Ok [simp]: "and_then (Some (Ok (), s)) f = f s"
  by (simp add: and_then_def)

lemma try_appends:
  assumes "appends_as enc wstr out"
  shows "\<exists>l'. try_for_each wstr l xs = Some (Ok (), l') \<and> out l' = out l @ map enc (concat xs)"
proof (induction xs arbitrary: l)
  case (Cons x xs)
  obtain l1 where l1: "wstr l x = Some (Ok (), l1)" "out l1 = out l @ map enc x" using assms unfolding appends_as_def by blast
  obtain l2 where "try_for_each wstr l1 xs = Some (Ok (), l2)" "out l2 = out l1 @ map enc (concat xs)" using Cons.IH by blast
  then show ?case using l1 by simp
qed simp

lemma print_prefix_appends:
  assumes "appends_as enc wstr out"
  shows "\<exists>g. print_prefix wstr w = Some (Ok (), w\<lparr>lw_guard := g\<rparr>) \<and> out g = out (lw_guard w) @ map enc (concat (lw_pieces w))"
  using try_appends [OF assms, of "lw_guard w" "lw_pieces w"] by (auto simp: print_prefix_def)

lemma guard_write_appends:
  assumes "appends_as enc wstr out"
  shows "\<exists>g. guard_write_str wstr w s = Some (Ok (), w\<lparr>lw_guard := g\<rparr>) \<and> out g = out (lw_guard w) @ map enc s"
proof -
  obtain g where "wstr (lw_guard w) s = Some (Ok (), g)" "out g = out (lw_guard w) @ map enc s" using assms unfolding appends_as_def by blast
  then show ?thesis by (auto simp: guard_write_str_def)
qed

text \<open>The output of a writer, with the prefix it owes.\<close>

definition owed :: "(char \<Rightarrow> 'b) \<Rightarrow> ('l \<Rightarrow> 'b list) \<Rightarrow> 'l log_writer \<Rightarrow> 'b list" where
  "owed enc out w = out (lw_guard w) @ (if lw_prefix w then map enc (concat (lw_pieces w)) else [])"

lemma lw_write_str_owed:
  assumes "appends_as enc wstr out" "length (filter ((=) (CHR 0x0A)) s) \<le> 1"
  shows "\<exists>w'. lw_write_str wstr w s = Some (Ok (), w') \<and> lw_pieces w' = lw_pieces w \<and>
    owed enc out w' = owed enc out w @ map enc (prefixed (concat (lw_pieces w)) s) \<and> (s \<noteq> [] \<longrightarrow> lw_prefix w' = (last s = CHR 0x0A))"
proof -
  let ?pre = "concat (lw_pieces w)"
  obtain w1 where w1: "(if lw_prefix w then and_then (print_prefix wstr w) (\<lambda>w. Some (Ok (), w\<lparr>lw_prefix := False\<rparr>)) else Some (Ok (), w)) = Some (Ok (), w1)"
    "lw_pieces w1 = lw_pieces w" "\<not> lw_prefix w1" "out (lw_guard w1) = owed enc out w"
    using print_prefix_appends [OF assms(1), of w] by (cases "lw_prefix w") (auto simp: owed_def)
  show ?thesis
  proof (cases "find_newline s")
    case None
    then have "prefixed ?pre s = s" "s \<noteq> [] \<Longrightarrow> last s \<noteq> CHR 0x0A" using prefixed_plain find_newline_None last_in_set by metis+
    moreover obtain g where g: "guard_write_str wstr w1 s = Some (Ok (), w1\<lparr>lw_guard := g\<rparr>)" "out g = owed enc out w @ map enc s"
      using guard_write_appends [OF assms(1), of w1 s] w1(4) by auto
    moreover have "lw_write_str wstr w s = guard_write_str wstr w1 s" unfolding lw_write_str_def w1(1) using None by simp
    ultimately show ?thesis using w1(2,3) by (auto simp: owed_def)
  next
    case (Some n)
    define h r where "h = take n s" and "r = drop (n + 1) s"
    have s: "take (n + 1) s = h @ [CHR 0x0A]" "CHR 0x0A \<notin> set h" "s = take (n + 1) s @ r"
      using find_newline_Some [OF Some] unfolding h_def r_def by blast+
    then have s: "s = h @ CHR 0x0A # r" "take (n + 1) s = h @ [CHR 0x0A]" "CHR 0x0A \<notin> set h"
      by (metis append.assoc append_Cons append_Nil)+
    have r: "CHR 0x0A \<notin> set r" using assms(2) unfolding s(1) by (auto simp: filter_empty_conv)
    obtain g where g: "guard_write_str wstr w1 (h @ [CHR 0x0A]) = Some (Ok (), w1\<lparr>lw_guard := g\<rparr>)" "out g = owed enc out w @ map enc (h @ [CHR 0x0A])"
      using guard_write_appends [OF assms(1), of w1 "h @ [CHR 0x0A]"] w1(4) by auto
    have eq: "lw_write_str wstr w s = and_then (guard_write_str wstr w1 (h @ [CHR 0x0A]))
        (\<lambda>w. if r \<noteq> [] then and_then (print_prefix wstr w) (\<lambda>w. guard_write_str wstr w r) else Some (Ok (), w\<lparr>lw_prefix := True\<rparr>))"
      unfolding lw_write_str_def w1(1) and_then_Ok Some option.case Let_def s(2) r_def [symmetric] ..
    have pf: "prefixed ?pre s = h @ [CHR 0x0A] @ ?pre @ r" using prefixed_plain [OF s(3)] prefixed_plain [OF r] unfolding s(1) by (simp add: prefixed_append)
    show ?thesis
    proof (cases "r = []")
      case True
      have "lw_write_str wstr w s = Some (Ok (), w1\<lparr>lw_guard := g, lw_prefix := True\<rparr>)" unfolding eq g(1) using True by simp
      then show ?thesis using True g(2) w1(2) pf s(1) by (simp add: owed_def)
    next
      case False
      let ?w = "w1\<lparr>lw_guard := g\<rparr>"
      obtain g1 where g1: "print_prefix wstr ?w = Some (Ok (), ?w\<lparr>lw_guard := g1\<rparr>)" "out g1 = out g @ map enc ?pre"
        using print_prefix_appends [OF assms(1), of ?w] w1(2) by auto
      obtain g2 where g2: "guard_write_str wstr (?w\<lparr>lw_guard := g1\<rparr>) r = Some (Ok (), ?w\<lparr>lw_guard := g2\<rparr>)" "out g2 = out g1 @ map enc r"
        using guard_write_appends [OF assms(1), of "?w\<lparr>lw_guard := g1\<rparr>" r] by auto
      have "lw_write_str wstr w s = Some (Ok (), ?w\<lparr>lw_guard := g2\<rparr>)" unfolding eq g(1) using False g1(1) g2(1) by simp
      moreover have "last s \<noteq> CHR 0x0A" using False r s(1) by (metis last.simps last_appendR last_in_set list.distinct(1))
      ultimately show ?thesis using g(2) g1(2) g2(2) w1(2,3) pf by (simp add: owed_def)
    qed
  qed
qed

lemma try_owed:
  assumes "appends_as enc wstr out" "\<forall>s \<in> set ss. length (filter ((=) (CHR 0x0A)) s) \<le> 1"
  shows "\<exists>w'. try_for_each (lw_write_str wstr) w ss = Some (Ok (), w') \<and> lw_pieces w' = lw_pieces w \<and>
    owed enc out w' = owed enc out w @ map enc (prefixed (concat (lw_pieces w)) (concat ss)) \<and> (ss \<noteq> [] \<and> last ss \<noteq> [] \<longrightarrow> lw_prefix w' = (last (last ss) = CHR 0x0A))"
  using assms(2)
proof (induction ss arbitrary: w)
  case (Cons s ss)
  obtain w1 where w1: "lw_write_str wstr w s = Some (Ok (), w1)" "lw_pieces w1 = lw_pieces w"
    "owed enc out w1 = owed enc out w @ map enc (prefixed (concat (lw_pieces w)) s)" "s \<noteq> [] \<longrightarrow> lw_prefix w1 = (last s = CHR 0x0A)"
    using lw_write_str_owed [OF assms(1), of s w] Cons.prems by auto
  show ?case using Cons.IH [of w1] Cons.prems w1 by (cases ss) (auto simp: prefixed_append)
qed (simp add: owed_def)

lemma log_msg_lines:
  assumes "appends_as enc wstr out" "\<forall>s \<in> set args. length (filter ((=) (CHR 0x0A)) s) \<le> 1"
  shows "\<exists>l'. log_msg wstr pieces args (Some l) = Some (Some l') \<and>
    out l' = out l @ map enc (concat (map (\<lambda>x. concat pieces @ x @ [CHR 0x0A]) (lines (concat args))))"
proof -
  let ?w = "\<lparr>lw_prefix = True, lw_pieces = pieces, lw_guard = l\<rparr>"
  obtain w' where w': "try_for_each (lw_write_str wstr) ?w (args @ [[CHR 0x0A]]) = Some (Ok (), w')" "lw_pieces w' = pieces"
    "owed enc out w' = owed enc out ?w @ map enc (prefixed (concat pieces) (concat (args @ [[CHR 0x0A]])))" "lw_prefix w'"
    using try_owed [OF assms(1), of "args @ [[CHR 0x0A]]" ?w] assms(2) by auto
  have "out (lw_guard w') = out l @ map enc (concat pieces @ prefixed (concat pieces) (concat args) @ [CHR 0x0A])"
    using w'(2-4) by (simp add: owed_def prefixed_append)
  then show ?thesis using w'(1) prefixed_lines [of "concat pieces" "concat args"] by (simp add: log_msg_def)
qed

lemma log_call_lines:
  assumes "appends_as enc wstr out" "\<forall>s \<in> set args. length (filter ((=) (CHR 0x0A)) s) \<le> 1" "asm_time clock = Some t"
  shows "\<exists>l'. log_call sty wstr lvl module clock args (Some l) = Some (Some l') \<and>
    out l' = out l @ map enc (concat (map (\<lambda>x. concat (prefix_pieces sty lvl module t) @ x @ [CHR 0x0A]) (lines (concat args))))"
  using log_msg_lines [OF assms(1,2), of "prefix_pieces sty lvl module t" l] assms(3) by (auto simp: log_call_def)

lemma lines_plain: "CHR 0x0A \<notin> set s \<Longrightarrow> lines s = [s]"
  by (induction s) auto

text \<open>The time stamp in front of a line is the uptime in milliseconds.\<close>

lemma log_call_stamped:
  assumes "appends_as enc wstr out" "\<forall>s \<in> set args. length (filter ((=) (CHR 0x0A)) s) \<le> 1" "unat clock * 100 < 2 ^ 64"
  shows "\<exists>l' secs millis. log_call sty wstr lvl module clock args (Some l) = Some (Some l') \<and>
    out l' = out l @ map enc (concat (map (\<lambda>x. dimmed sty (''['' @ pad_left 3 (dec secs) @ ''.'' @ zero_pad 3 (dec millis) @ '']'') @ '' '' @
      fg sty (level_color lvl) (pad_left 5 (level_name lvl)) @ '' '' @ module @ ''> '' @ x @ [CHR 0x0A]) (lines (concat args)))) \<and>
    millis < 1000 \<and> 1000 * secs + millis = unat clock div 10000"
proof -
  have u: "unat (clock * 100) = unat clock * 100" using assms(3) unat_mult_lem [of clock 100] by simp
  then have t: "asm_time clock = Some (clock * 100)" using assms(3) by (simp add: asm_time_def mul_chk_def)
  let ?s = "as_secs (clock * 100)" and ?m = "subsec_millis (clock * 100)"
  have m: "?m < 1000" by (simp add: subsec_millis_def less_mult_imp_div_less)
  have "unat clock * 100 div 1000000 = unat clock div 10000"
    using div_mult2_eq [of "unat clock * 100" 100 10000] by simp
  moreover have "1000 * (n div 1000000000) + n mod 1000000000 div 1000000 = n div 1000000" for n :: nat
  proof -
    have "n div 1000000 div 1000 = n div 1000000000" using div_mult2_eq [of n 1000000 1000] by simp
    moreover have "n mod 1000000000 div 1000000 = n div 1000000 mod 1000"
      using mod_mult2_eq [of n 1000000 1000] by simp
    ultimately show ?thesis using mult_div_mod_eq [of 1000 "n div 1000000"] by simp
  qed
  ultimately have e: "1000 * ?s + ?m = unat clock div 10000"
    unfolding as_secs_def subsec_millis_def u by metis
  show ?thesis
    using log_call_lines [OF assms(1,2) t, of sty lvl module l] m e by (auto simp: prefix_pieces_def)
qed

text \<open>With a logger that appends what it is given, a message whose pieces hold at most one newline each is written as its lines, each
  line behind the time stamp, the level and the module and followed by a newline; the time stamp stands for the uptime in milliseconds.\<close>

theorem log_lines:
  assumes "appends wstr out" "\<forall>s \<in> set args. length (filter ((=) (CHR 0x0A)) s) \<le> 1" "unat clock * 100 < 2 ^ 64"
  shows "\<exists>l' secs millis. log_call sty wstr lvl module clock args (Some l) = Some (Some l') \<and>
    out l' = out l @ concat (map (\<lambda>x. dimmed sty (''['' @ pad_left 3 (dec secs) @ ''.'' @ zero_pad 3 (dec millis) @ '']'') @ '' '' @
      fg sty (level_color lvl) (pad_left 5 (level_name lvl)) @ '' '' @ module @ ''> '' @ x @ [CHR 0x0A]) (lines (concat args))) \<and>
    millis < 1000 \<and> 1000 * secs + millis = unat clock div 10000"
  using log_call_stamped [OF assms, of sty lvl module l] by simp

definition plain :: style where
  "plain = \<lparr>dimmed = \<lambda>s. s, fg = \<lambda>_ s. s\<rparr>"

theorem log_lines_witness:
  "\<exists>l' secs millis. log_call plain (\<lambda>l s. Some (Ok (), l @ s)) Info ''kernel'' 12345678 [''ab'', [CHR 0x0A], ''c''] (Some []) = Some (Some l') \<and>
    l' = (let p = ''['' @ pad_left 3 (dec secs) @ ''.'' @ zero_pad 3 (dec millis) @ '']  Info kernel> ''
          in p @ ''ab'' @ [CHR 0x0A] @ p @ ''c'' @ [CHR 0x0A]) \<and> millis < 1000 \<and> 1000 * secs + millis = 1234"
proof -
  have "appends (\<lambda>l s. Some (Ok (), l @ s)) (\<lambda>l. l)" by (simp add: appends_def)
  then show ?thesis
    using log_lines [of _ "\<lambda>l. l" "[''ab'', [CHR 0x0A], ''c'']" 12345678 plain Info "''kernel''" "[]"] by (simp add: plain_def pad_left_def)
qed

text \<open>Only the first newline of a piece starts a line with a prefix: a message of three lines in one piece gets two prefixes.\<close>

theorem log_second_newline:
  "log_msg (\<lambda>l s. Some (Ok (), l @ s)) [''> ''] [''a'' @ [CHR 0x0A] @ ''b'' @ [CHR 0x0A] @ ''c''] (Some [])
     = Some (Some (''> a'' @ [CHR 0x0A] @ ''> b'' @ [CHR 0x0A] @ ''c'' @ [CHR 0x0A]))"
  by (simp add: log_msg_def lw_write_str_def print_prefix_def guard_write_str_def and_then_def)

end
