(* ===== verification/Page_Debug.thy ===== *)
theory Page_Debug
  imports Page_Map Log
begin

text \<open>
  The printer of page tables in \<open>crates/kernel/src/page.rs\<close> (\<open>PageTable::debug\<close>, \<open>DebugPageTable\<close>) and the \<open>Display\<close> instance of
  \<open>Flags\<close> in \<open>page/types.rs\<close>. The formatter is a writer as in the \<open>log\<close> crate; one \<open>writeln!\<close> is one write of its text.
\<close>

section \<open>The printer\<close>

definition FLAG_BITS :: "(u8 \<times> string) list" where
  "FLAG_BITS = [(FLAG_DIRTY, ''D''), (FLAG_ACCESSED, ''A''), (FLAG_GLOBAL, ''G''), (FLAG_USER, ''U''), (FLAG_EXEC, ''X''),
     (FLAG_WRITE, ''W''), (FLAG_READ, ''R'')]"

definition flags_fmt :: "style \<Rightarrow> u8 \<Rightarrow> string" where
  "flags_fmt sty self = concat (map (\<lambda>(b, c). if self AND b = b then fg sty Green c else fg sty Red ''-'') FLAG_BITS)"

fun size_char :: "page_size \<Rightarrow> char" where
  "size_char Kilopage = CHR ''K''"
| "size_char Megapage = CHR ''M''"
| "size_char Gigapage = CHR ''G''"
| "size_char Terapage = CHR ''T''"

definition leaf_line :: "style \<Rightarrow> page_size \<times> usize \<times> usize \<times> u8 \<Rightarrow> string" where
  "leaf_line sty = (\<lambda>(sz, v, p, flags).
     ''['' @ [size_char sz] @ ''] '' @ fmt_pointer v @ '' -> '' @ fmt_pointer p @ '' | '' @ flags_fmt sty flags @ [NL])"

text \<open>The loop over the entries of a table from index \<open>idx\<close> on.\<close>

function debug_fmt :: "style \<Rightarrow> 'f logger \<Rightarrow> 'a machine_scheme \<Rightarrow> usize \<Rightarrow> page_size \<Rightarrow> usize \<Rightarrow> nat \<Rightarrow> 'f \<Rightarrow> ((unit, unit) result \<times> 'f) option" where
  "debug_fmt sty wstr s table sz addr idx f =
     (if 512 \<le> idx then Some (Ok (), f)
      else and_then
        (let e = mem s (table + 8 * of_nat idx) in
         case entry_kind_of e of
           None \<Rightarrow> Some (Ok (), f)
         | Some Leaf \<Rightarrow> do {
             v \<leftarrow> set_vpn addr (vpn_idx sz) (of_nat idx);
             wstr f (leaf_line sty (sz, v, push_bit 12 (drop_bit 10 e), entry_flags e)) }
         | Some (Branch next) \<Rightarrow> do {
             t \<leftarrow> phys2virt s next;
             if t = 0 then None
             else do {
               sz' \<leftarrow> step sz;
               v \<leftarrow> set_vpn addr (vpn_idx sz) (of_nat idx);
               debug_fmt sty wstr s t sz' v 0 f } })
        (\<lambda>f. debug_fmt sty wstr s table sz addr (idx + 1) f))"
  by pat_completeness auto
termination
  by (relation "measures [\<lambda>(sty, wstr, s, table, sz, addr, idx, f). vpn_idx sz, \<lambda>(sty, wstr, s, table, sz, addr, idx, f). 512 - idx]")
    (auto elim!: step.elims)

declare debug_fmt.simps [simp del]

definition debug_page_table :: "style \<Rightarrow> 'f logger \<Rightarrow> paging_mode \<Rightarrow> 'a machine_scheme \<Rightarrow> page_table \<Rightarrow> 'f \<Rightarrow> ((unit, unit) result \<times> 'f) option" where
  "debug_page_table sty wstr m s pt f = debug_fmt sty wstr s (entries pt) (TOP_LEVEL_SIZE m) 0 0 f"

section \<open>The leaves of a table\<close>

text \<open>The leaves below a table of level \<open>k\<close> whose first address is \<open>a\<close>, in the order of the entries.\<close>

definition slot :: "nat \<Rightarrow> nat \<Rightarrow> nat \<Rightarrow> nat" where
  "slot a k j = a + j * 2 ^ (12 + 9 * k)"

fun leaves :: "(usize \<Rightarrow> u64) \<Rightarrow> usize \<Rightarrow> usize \<Rightarrow> nat \<Rightarrow> nat \<Rightarrow> (nat \<times> nat \<times> u64) list" where
  "leaves h off t a 0 = []"
| "leaves h off t a (Suc k) = concat (map (\<lambda>j.
     let e = h (t + 8 * of_nat j) in
     case entry_kind_of e of
       None \<Rightarrow> []
     | Some Leaf \<Rightarrow> [(k, slot a k j, e)]
     | Some (Branch n) \<Rightarrow> leaves h off (n + off) (slot a k j) k) [0..<512])"

definition span_ok :: "nat \<Rightarrow> nat \<Rightarrow> bool" where
  "span_ok a k \<longleftrightarrow> 2 ^ (12 + 9 * k) dvd a \<and> a + 2 ^ (12 + 9 * k) \<le> 2 ^ 64"

lemma slot_next: "slot a k j + 2 ^ (12 + 9 * k) = slot a k (Suc j)"
  by (simp add: slot_def)

lemma slot_last: "slot a k 512 = a + 2 ^ (12 + 9 * Suc k)"
  by (simp add: slot_def power_add)

lemma slot_mono: "i \<le> j \<Longrightarrow> slot a k i \<le> slot a k j"
  by (simp add: slot_def)

lemma span_ok_slot:
  assumes "span_ok a (Suc k)" "j < 512"
  shows "span_ok (slot a k j) k"
proof -
  have "2 ^ (12 + 9 * k) dvd a" using assms(1) by (auto simp: span_ok_def power_add elim!: dvd_mult_right [rotated] intro: dvd_trans)
  moreover have "slot a k (Suc j) \<le> slot a k 512" using assms(2) by (intro slot_mono) simp
  ultimately show ?thesis
    using assms(1) slot_next [of a k j] unfolding span_ok_def slot_last by (simp add: slot_def)
qed

text \<open>The slot of an address is its page number at this level.\<close>

lemma vpn_slot:
  assumes "span_ok a (Suc k)" "j < 512" "slot a k j \<le> unat v" "unat v < slot a k (Suc j)"
  shows "vpn v k = j"
proof -
  obtain q where q: "a = 2 ^ (12 + 9 * Suc k) * q" using assms(1) by (auto simp: span_ok_def elim: dvdE)
  then have a: "a = 512 * q * 2 ^ (12 + 9 * k)" by (simp add: power_add)
  have "(512 * q + j) * 2 ^ (12 + 9 * k) \<le> unat v" "unat v < (512 * q + j + 1) * 2 ^ (12 + 9 * k)"
    using assms(3,4) unfolding slot_def a by (simp_all add: algebra_simps)
  then have "unat v div 2 ^ (12 + 9 * k) = 512 * q + j" by (intro div_nat_eqI) (simp_all add: mult.commute)
  then show ?thesis using assms(2) by (simp add: vpn_eq)
qed

lemma slot_vpn:
  assumes "span_ok a (Suc k)" "a \<le> unat v" "unat v < a + 2 ^ (12 + 9 * Suc k)"
  shows "slot a k (vpn v k) \<le> unat v" "unat v < slot a k (Suc (vpn v k))"
proof -
  define d where "d = (unat v - a) div 2 ^ (12 + 9 * k)"
  have "unat v - a < 512 * 2 ^ (12 + 9 * k)" using assms(2,3) by (simp add: power_add)
  then have d: "d < 512" unfolding d_def by (simp add: less_mult_imp_div_less)
  have "d * 2 ^ (12 + 9 * k) \<le> unat v - a" unfolding d_def by (rule div_times_less_eq_dividend)
  moreover have "unat v - a < Suc d * 2 ^ (12 + 9 * k)"
    unfolding d_def using dividend_less_div_times [of "2 ^ (12 + 9 * k)" "unat v - a"] by (simp add: algebra_simps)
  ultimately have s: "slot a k d \<le> unat v" "unat v < slot a k (Suc d)" using assms(2) unfolding slot_def by linarith+
  then have "vpn v k = d" using vpn_slot [OF assms(1) d] by blast
  then show "slot a k (vpn v k) \<le> unat v" "unat v < slot a k (Suc (vpn v k))" using s by simp_all
qed

lemma in_concat_upt: "x \<in> set (concat (map g [0..<n])) \<longleftrightarrow> (\<exists>j<n. x \<in> set (g j))"
  by auto

text \<open>The leaves below a table are the addresses that the walk from this table takes to a leaf, at the start of their page.\<close>

lemma set_leaves:
  assumes "span_ok a k"
  shows "set (leaves h off t a k) = {(i, v, e). a \<le> v \<and> v < a + 2 ^ (12 + 9 * k) \<and> 2 ^ (12 + 9 * i) dvd v \<and>
    lookup h off t (of_nat v) k = Some (e, i)}"
  using assms
proof (induction k arbitrary: t a)
  case (Suc k)
  show ?case
  proof (rule set_eqI)
    fix x :: "nat \<times> nat \<times> u64"
    obtain i v e where x: "x = (i, v, e)" by (cases x)
    let ?e = "\<lambda>j. h (t + 8 * of_nat j)"
    let ?piece = "\<lambda>j. let e = ?e j in case entry_kind_of e of None \<Rightarrow> [] | Some Leaf \<Rightarrow> [(k, slot a k j, e)]
      | Some (Branch n) \<Rightarrow> leaves h off (n + off) (slot a k j) k"
    define J where "J j \<longleftrightarrow> (i, v, e) \<in> set (?piece j)" for j
    have mem: "(i, v, e) \<in> set (leaves h off t a (Suc k)) \<longleftrightarrow> (\<exists>j<512. J j)"
      unfolding J_def leaves.simps in_concat_upt ..
    have J: "J j \<longleftrightarrow> slot a k j \<le> v \<and> v < slot a k (Suc j) \<and> 2 ^ (12 + 9 * i) dvd v \<and> lookup h off t (of_nat v) (Suc k) = Some (e, i)"
      if j: "j < 512" for j
    proof -
      have sp: "span_ok (slot a k j) k" using span_ok_slot [OF Suc.prems j] .
      have v: "vpn (of_nat v) k = j" if "slot a k j \<le> v" "v < slot a k (Suc j)"
      proof -
        have "v < 2 ^ 64" using that sp slot_next [of a k j] by (simp add: span_ok_def)
        then show ?thesis using vpn_slot [OF Suc.prems j, of "of_nat v"] that by (simp add: unat_of_nat_less)
      qed
      show ?thesis
      proof (cases "entry_kind_of (?e j)")
        case None
        then show ?thesis using v by (auto simp: J_def entry_addr_def)
      next
        case (Some kd)
        show ?thesis
        proof (cases kd)
          case (Branch n)
          then show ?thesis
            using Some v Suc.IH [OF sp, of "n + off"] slot_next [of a k j] by (auto simp: J_def entry_addr_def)
        next
          case Leaf
          have al: "2 ^ (12 + 9 * k) dvd slot a k j" using sp by (simp add: span_ok_def)
          have "v = slot a k j" if "2 ^ (12 + 9 * k) dvd v" "slot a k j \<le> v" "v < slot a k (Suc j)"
          proof -
            have "2 ^ (12 + 9 * k) dvd v - slot a k j" using that(1) al by (rule dvd_diff_nat)
            moreover have "v - slot a k j < 2 ^ (12 + 9 * k)" using that(2,3) slot_next [of a k j] by linarith
            ultimately have "v - slot a k j = 0" using nat_dvd_not_less by blast
            then show ?thesis using that(2) by simp
          qed
          moreover have "slot a k j < slot a k (Suc j)" by (simp add: slot_def)
          ultimately show ?thesis using Some Leaf v al by (auto simp: J_def entry_addr_def)
        qed
      qed
    qed
    have "(\<exists>j<512. J j) \<longleftrightarrow> a \<le> v \<and> v < a + 2 ^ (12 + 9 * Suc k) \<and> 2 ^ (12 + 9 * i) dvd v \<and> lookup h off t (of_nat v) (Suc k) = Some (e, i)"
      (is "?L \<longleftrightarrow> ?R")
    proof
      assume ?L
      then obtain j where j: "j < 512" "J j" by blast
      have "a \<le> slot a k j" "slot a k (Suc j) \<le> slot a k 512" using j(1) slot_mono [of "Suc j" 512 a k] by (simp_all add: slot_def)
      then show ?R using J [OF j(1)] j(2) unfolding slot_last by linarith
    next
      assume r: ?R
      then have "v < 2 ^ 64" using Suc.prems by (simp add: span_ok_def)
      then have "J (vpn (of_nat v) k)"
        using J [of "vpn (of_nat v) k"] slot_vpn [OF Suc.prems, of "of_nat v"] r by (simp add: unat_of_nat_less)
      then show ?L using vpn_less by blast
    qed
    then show "x \<in> set (leaves h off t a (Suc k)) \<longleftrightarrow> x \<in> {(i, v, e). a \<le> v \<and> v < a + 2 ^ (12 + 9 * Suc k) \<and>
      2 ^ (12 + 9 * i) dvd v \<and> lookup h off t (of_nat v) (Suc k) = Some (e, i)}" unfolding x mem by (simp del: lookup.simps)
  qed
qed simp

lemma sorted_concat_slots:
  assumes "\<And>j. j < n \<Longrightarrow> sorted_wrt (<) (g j)" "\<And>j x. j < n \<Longrightarrow> x \<in> set (g j) \<Longrightarrow> slot a k j \<le> x \<and> x < slot a k (Suc j)"
  shows "sorted_wrt (<) (concat (map g [0..<n]))"
  using assms
proof (induction n)
  case (Suc n)
  have "x < y" if "j < n" "x \<in> set (g j)" "y \<in> set (g n)" for j x y
  proof -
    have "x < slot a k (Suc j)" "slot a k n \<le> y" using Suc.prems(2) that by auto
    then show ?thesis using slot_mono [of "Suc j" n a k] that(1) by simp
  qed
  then show ?case using Suc by (auto simp: sorted_wrt_append)
qed simp

lemma sorted_leaves:
  assumes "span_ok a k"
  shows "sorted_wrt (<) (map (\<lambda>(i, v, e). v) (leaves h off t a k))"
  using assms
proof (induction k arbitrary: t a)
  case (Suc k)
  let ?g = "\<lambda>j. map (\<lambda>(i, v, e). v) (let e = h (t + 8 * of_nat j) in case entry_kind_of e of None \<Rightarrow> []
     | Some Leaf \<Rightarrow> [(k, slot a k j, e)] | Some (Branch n) \<Rightarrow> leaves h off (n + off) (slot a k j) k)"
  have eq: "map (\<lambda>(i, v, e). v) (leaves h off t a (Suc k)) = concat (map ?g [0..<512])" by (simp add: map_concat comp_def)
  show ?case unfolding eq
  proof (rule sorted_concat_slots [where a = a and k = k])
    fix j :: nat assume j: "j < 512"
    note sp = span_ok_slot [OF Suc.prems j]
    show "sorted_wrt (<) (?g j)" using Suc.IH [OF sp] by (auto simp: Let_def split: option.splits entry_kind.splits)
    fix x assume x: "x \<in> set (?g j)"
    have "slot a k j < slot a k (Suc j)" by (simp add: slot_def)
    moreover have "slot a k j \<le> x \<and> x < slot a k (Suc j)" if "entry_kind_of (h (t + 8 * of_nat j)) = Some (Branch n)" for n
      using x that set_leaves [OF sp, of h off "n + off"] slot_next [of a k j] by auto
    ultimately show "slot a k j \<le> x \<and> x < slot a k (Suc j)"
      using x by (cases "entry_kind_of (h (t + 8 * of_nat j))"; cases "the (entry_kind_of (h (t + 8 * of_nat j)))") auto
  qed
qed simp

section \<open>The printer visits the leaves\<close>

lemma span_bits: "2 ^ m dvd unat a \<Longrightarrow> n < m \<Longrightarrow> \<not> bit a n" for a :: "'a::len word"
proof -
  assume d: "2 ^ m dvd unat a" and n: "n < m"
  have "take_bit m (unat a) = 0" using d by (simp add: take_bit_nat_def dvd_eq_mod_eq_0)
  then have "\<not> bit (take_bit m (unat a)) n" by simp
  then show ?thesis using n by (simp add: bit_take_bit_iff bit_unsigned_iff)
qed

lemma set_vpn_slot:
  assumes "span_ok (unat a) (Suc k)" "k < 4" "j < 512"
  shows "\<exists>v. set_vpn a k (of_nat j) = Some v \<and> unat v = slot (unat a) k j"
proof -
  let ?n = "12 + 9 * k"
  let ?v = "push_bit ?n (of_nat j) :: usize"
  have clear: "\<not> bit a n" if "n < ?n + 9" for n
    using span_bits [of "12 + 9 * Suc k" a n] assms(1) that by (simp add: span_ok_def)
  have u: "unat (of_nat j :: usize) = j" using assms(3) by (simp add: unat_of_nat)
  have jm: "of_nat j AND mask 9 = (of_nat j :: usize)"
    using assms(3) u by (simp add: take_bit_eq_mask [symmetric] word_unat_eq_iff unsigned_take_bit_eq take_bit_nat_eq_self)
  have j: "\<not> bit (of_nat j :: usize) m" if "9 \<le> m" for m
    using assms(3) u high_bits_clear [of "of_nat j :: usize" 9 m] that by simp
  have bits: "?n \<le> n \<and> n < ?n + 9" if "bit ?v n" for n
  proof -
    have "?n \<le> n" "bit (of_nat j :: usize) (n - ?n)" using that by (simp_all add: bit_push_bit_iff)
    then show ?thesis using j [of "n - ?n"] by linarith
  qed
  have "a AND NOT (push_bit ?n (mask 9)) = a"
    using clear by (intro bit_eqI) (auto simp: bit_simps not_less)
  moreover have "a OR ?v = a + ?v" using clear bits by (intro disjunctive_add [symmetric]) blast
  moreover have "unat ?v = j * 2 ^ ?n"
  proof -
    have "j * 2 ^ ?n < 512 * 2 ^ ?n" using assms(3) by simp
    also have "\<dots> = 2 ^ (12 + 9 * Suc k)" by (simp add: power_add)
    also have "\<dots> < 2 ^ 64" using assms(2) by (intro power_strict_increasing) auto
    finally show ?thesis using u unat_pow2 [of ?n, where 'a = 64] assms(2) by (simp add: push_bit_eq_mult unat_word_ariths)
  qed
  moreover have "unat (a + ?v) = unat a + unat ?v"
  proof -
    have "unat a + j * 2 ^ ?n + 2 ^ ?n \<le> 2 ^ 64" "(0::nat) < 2 ^ ?n"
      using span_ok_slot [OF assms(1,3)] by (simp_all add: span_ok_def slot_def)
    then have "unat a + j * 2 ^ ?n < 2 ^ 64" by linarith
    then show ?thesis using calculation(3) by (intro unat_add_lem [THEN iffD1]) simp
  qed
  moreover have "set_vpn a k (of_nat j) = Some ((a AND NOT (push_bit ?n (mask 9))) OR ?v)"
  proof -
    have "shl_chk (1 :: usize) 9 = Some 512" "sub_chk (512 :: usize) 1 = Some (mask 9)" by (simp_all add: shl_chk_def sub_chk_def mask_numeral)
    moreover have "shl_chk x (k * 9 + 12) = Some (push_bit ?n x)" for x :: usize using assms(2) by (simp add: shl_chk_def ac_simps)
    ultimately show ?thesis by (simp only: set_vpn_def bind.bind_lunit Let_def jm)
  qed
  ultimately show ?thesis by (simp only: slot_def) blast
qed

definition line_of :: "nat \<times> nat \<times> u64 \<Rightarrow> page_size \<times> usize \<times> usize \<times> u8" where
  "line_of = (\<lambda>(i, v, e). (the (size_of_idx i), of_nat v, push_bit 12 (drop_bit 10 e), entry_flags e))"

lemma size_of_vpn_idx: "vpn_idx sz < 3 \<Longrightarrow> the (size_of_idx (vpn_idx sz)) = sz"
  by (cases sz) auto

lemma step_vpn_idx: "vpn_idx sz = Suc k \<Longrightarrow> \<exists>sz'. step sz = Some sz' \<and> vpn_idx sz' = k"
  by (cases sz) auto

text \<open>The text for a list of leaves, and the loop over one table, given what happens at its branches.\<close>

abbreviation leaf_text :: "style \<Rightarrow> (nat \<times> nat \<times> u64) list \<Rightarrow> string" where
  "leaf_text sty xs \<equiv> concat (map (\<lambda>x. leaf_line sty (line_of x)) xs)"

abbreviation leaf_piece :: "'a machine_scheme \<Rightarrow> usize \<Rightarrow> nat \<Rightarrow> nat \<Rightarrow> nat \<Rightarrow> (nat \<times> nat \<times> u64) list" where
  "leaf_piece s t a k j \<equiv> (let e = mem s (t + 8 * of_nat j) in
     case entry_kind_of e of None \<Rightarrow> [] | Some Leaf \<Rightarrow> [(k, slot a k j, e)]
     | Some (Branch n) \<Rightarrow> leaves (mem s) (phys_off s) (n + phys_off s) (slot a k j) k)"

lemma debug_loop:
  assumes w: "appends wstr out" and k: "vpn_idx sz = k" "k < 4" "span_ok (unat a) (Suc k)"
    and leaf: "\<And>j. j < 512 \<Longrightarrow> entry_kind_of (mem s (t + 8 * of_nat j)) = Some Leaf \<Longrightarrow> k < 3"
    and branch: "\<And>j n v f. j < 512 \<Longrightarrow> entry_kind_of (mem s (t + 8 * of_nat j)) = Some (Branch n) \<Longrightarrow> unat v = slot (unat a) k j \<Longrightarrow>
      \<exists>sz' f'. phys2virt s n = Some (n + phys_off s) \<and> n + phys_off s \<noteq> 0 \<and> step sz = Some sz' \<and>
        debug_fmt sty wstr s (n + phys_off s) sz' v 0 f = Some (Ok (), f') \<and>
        out f' = out f @ leaf_text sty (leaves (mem s) (phys_off s) (n + phys_off s) (slot (unat a) k j) k)"
    and idx: "idx \<le> 512"
  shows "\<exists>f'. debug_fmt sty wstr s t sz a idx f = Some (Ok (), f') \<and>
    out f' = out f @ leaf_text sty (concat (map (leaf_piece s t (unat a) k) [idx..<512]))"
  using idx
proof (induction idx arbitrary: f rule: inc_induct)
  case base
  show ?case by (subst debug_fmt.simps) simp
next
  case (step j)
  let ?e = "mem s (t + 8 * of_nat j)"
  define X where "X = (case entry_kind_of ?e of None \<Rightarrow> Some (Ok (), f)
     | Some Leaf \<Rightarrow> do { v \<leftarrow> set_vpn a (vpn_idx sz) (of_nat j); wstr f (leaf_line sty (sz, v, push_bit 12 (drop_bit 10 ?e), entry_flags ?e)) }
     | Some (Branch next) \<Rightarrow> do { t \<leftarrow> phys2virt s next;
         if t = 0 then None else do { sz' \<leftarrow> Page_Types.step sz; v \<leftarrow> set_vpn a (vpn_idx sz) (of_nat j); debug_fmt sty wstr s t sz' v 0 f } })"
  obtain v where v: "set_vpn a k (of_nat j) = Some v" "unat v = slot (unat a) k j" using set_vpn_slot [OF k(3,2)] step(2) by blast
  have "\<exists>f1. X = Some (Ok (), f1) \<and> out f1 = out f @ leaf_text sty (leaf_piece s t (unat a) k j)"
  proof (cases "entry_kind_of ?e")
    case None
    then show ?thesis by (simp add: X_def)
  next
    case (Some kd)
    show ?thesis
    proof (cases kd)
      case (Branch n)
      then show ?thesis using branch [OF step(2) _ v(2), of n f] Some v(1) by (auto simp: X_def k(1))
    next
      case Leaf
      have "of_nat (slot (unat a) k j) = v" unfolding v(2) [symmetric] by simp
      moreover have "the (size_of_idx k) = sz" using size_of_vpn_idx [of sz] leaf [OF step(2)] Some Leaf k(1) by simp
      moreover obtain f1 where "wstr f (leaf_line sty (sz, v, push_bit 12 (drop_bit 10 ?e), entry_flags ?e)) = Some (Ok (), f1)"
        "out f1 = out f @ leaf_line sty (sz, v, push_bit 12 (drop_bit 10 ?e), entry_flags ?e)"
        using w unfolding appends_def by blast
      ultimately show ?thesis using Some Leaf v(1) by (simp add: X_def k(1) line_of_def del: size_of_idx.simps)
    qed
  qed
  then obtain f1 where f1: "X = Some (Ok (), f1)" "out f1 = out f @ leaf_text sty (leaf_piece s t (unat a) k j)" by blast
  have "debug_fmt sty wstr s t sz a j f = and_then X (\<lambda>f. debug_fmt sty wstr s t sz a (Suc j) f)"
    using step(2) by (subst debug_fmt.simps) (simp add: X_def Let_def)
  then show ?case using f1 step(3) [of f1] step(2) by (simp add: upt_conv_Cons)
qed

lemma debug_fmt_leaves:
  assumes w: "appends wstr out" and tree: "pt_tree (mem s) (phys_off s) rt L F" "L \<le> 4"
    and at: "p \<in> paths L" "tbl (mem s) (phys_off s) rt p = Some t" "Suc k + length p = L" "vpn_idx sz = k" "span_ok (unat a) (Suc k)"
  shows "\<exists>f'. debug_fmt sty wstr s t sz a 0 f = Some (Ok (), f') \<and>
    out f' = out f @ leaf_text sty (leaves (mem s) (phys_off s) t (unat a) (Suc k))"
  using at
proof (induction k arbitrary: p t sz a f rule: less_induct)
  case (less k)
  have ok: "entry_ok (phys_off s) L p (mem s (t + 8 * of_nat j))" if "j < 512" for j
    using pt_treeD(2) [OF tree(1) less.prems(1,2) that] .
  have k: "k < 4" using less.prems(3) tree(2) by simp
  show ?case unfolding leaves.simps
  proof (rule debug_loop [OF w less.prems(4) k less.prems(5)])
    fix j assume "j < 512" "entry_kind_of (mem s (t + 8 * of_nat j)) = Some Leaf"
    then show "k < 3" using ok [of j] less.prems(3) by (simp add: entry_ok_def)
  next
    fix j n f and v :: usize assume j: "j < 512" "entry_kind_of (mem s (t + 8 * of_nat j)) = Some (Branch n)" "unat v = slot (unat a) k j"
    then have n: "Suc (length p) < L" "unat n + unat (phys_off s) < 2 ^ 64" using ok [of j] by (simp_all add: entry_ok_def)
    then obtain k' where k': "k = Suc k'" using less.prems(3) by (cases k) auto
    obtain sz' where sz': "step sz = Some sz'" "vpn_idx sz' = k'" using step_vpn_idx less.prems(4) k' by blast
    have t': "tbl (mem s) (phys_off s) rt (p @ [j]) = Some (n + phys_off s)" "p @ [j] \<in> paths L"
      using j(1,2) less.prems(1,2) n(1) by (simp_all add: tbl_snoc paths_snoc)
    have "n + phys_off s \<noteq> 0" using pt_treeD(1) [OF tree(1) t'(2,1)] by (simp add: table_ok_def)
    moreover have "span_ok (unat v) (Suc k')" using span_ok_slot [OF less.prems(5) j(1)] j(3) k' by simp
    then have "\<exists>f'. debug_fmt sty wstr s (n + phys_off s) sz' v 0 f = Some (Ok (), f') \<and>
        out f' = out f @ leaf_text sty (leaves (mem s) (phys_off s) (n + phys_off s) (unat v) (Suc k'))"
      using less.IH [OF _ t'(2,1) _ sz'(2)] less.prems(3) k' by simp
    ultimately show "\<exists>sz' f'. phys2virt s n = Some (n + phys_off s) \<and> n + phys_off s \<noteq> 0 \<and> step sz = Some sz' \<and>
        debug_fmt sty wstr s (n + phys_off s) sz' v 0 f = Some (Ok (), f') \<and>
        out f' = out f @ leaf_text sty (leaves (mem s) (phys_off s) (n + phys_off s) (slot (unat a) k j) k)"
      using sz'(1) phys2virt_eq [OF n(2)] j(3) k' by auto
  qed simp
qed

section \<open>The printer lists the mappings\<close>

lemma translate_aligned:
  assumes "paging_inv m s pt fl" "2 ^ (12 + 9 * i) dvd unat v" "walk m s pt v = Some (e, i)"
  shows "translate m s pt v = Some (Some (push_bit 12 (drop_bit 10 e), the (size_of_idx i), entry_flags e))"
proof -
  have "take_bit (12 + 9 * i) v = 0"
    using assms(2) by (simp add: word_unat_eq_iff unsigned_take_bit_eq take_bit_nat_def dvd_eq_mod_eq_0)
  then show ?thesis using assms(3) by (simp add: translate_walk [OF assms(1)] translation_def)
qed

text \<open>A mapping is a leaf that the walk finds at the start of its page.\<close>

lemma mapping_iff_leaf:
  assumes "paging_inv m s pt fl"
  shows "is_aligned sz v \<and> translate m s pt v = Some (Some (p, sz, flags)) \<longleftrightarrow>
    (\<exists>i e. 2 ^ (12 + 9 * i) dvd unat v \<and> walk m s pt v = Some (e, i) \<and> sz = the (size_of_idx i) \<and> p = push_bit 12 (drop_bit 10 e) \<and> flags = entry_flags e)"
    (is "?T \<longleftrightarrow> ?R")
proof
  have lvl: "i < 3" if "walk m s pt v = Some (e, i)" for e i using traverse_walk [OF assms, of v] that by metis
  show ?T if ?R using that translate_aligned [OF assms] lvl size_of_idx_small by (metis is_aligned_iff)
  show ?R if t: ?T
  proof -
    obtain e i where w: "walk m s pt v = Some (e, i)" "sz = the (size_of_idx i)"
      using t by (auto simp: translate_walk [OF assms] translation_def simp del: size_of_idx.simps)
    then have "2 ^ (12 + 9 * i) dvd unat v" using t lvl size_of_idx_small by (metis is_aligned_iff)
    then show ?R using w t translate_aligned [OF assms] by (metis option.inject prod.inject)
  qed
qed

lemma lines_of_leaves:
  assumes "paging_inv m s pt fl" "span_ok 0 (LEVELS m)"
  defines "ls \<equiv> map line_of (leaves (mem s) (phys_off s) (entries pt) 0 (LEVELS m))"
  shows "sorted_wrt (<) (map (\<lambda>(sz, v, p, flags). unat v) ls)"
    "set ls = {(sz, v, p, flags). is_aligned sz v \<and> unat v < 2 ^ (12 + 9 * LEVELS m) \<and> translate m s pt v = Some (Some (p, sz, flags))}"
proof -
  let ?ls = "leaves (mem s) (phys_off s) (entries pt) 0 (LEVELS m)"
  have set: "set ?ls = {(i, v, e). v < 2 ^ (12 + 9 * LEVELS m) \<and> 2 ^ (12 + 9 * i) dvd v \<and> walk m s pt (of_nat v) = Some (e, i)}"
    using set_leaves [OF assms(2)] by simp
  have small: "v < 2 ^ 64" if "(i, v, e) \<in> set ?ls" for i v e using that assms(2) unfolding set span_ok_def by auto
  have "map (\<lambda>(sz, v, p, flags). unat v) ls = map (\<lambda>(i, v, e). v) ?ls"
    using small by (auto simp: ls_def line_of_def unat_of_nat_less)
  then show "sorted_wrt (<) (map (\<lambda>(sz, v, p, flags). unat v) ls)" using sorted_leaves [OF assms(2)] by metis
  show "set ls = {(sz, v, p, flags). is_aligned sz v \<and> unat v < 2 ^ (12 + 9 * LEVELS m) \<and> translate m s pt v = Some (Some (p, sz, flags))}"
  proof (rule set_eqI)
    fix x :: "page_size \<times> usize \<times> usize \<times> u8"
    obtain sz v p flags where x: "x = (sz, v, p, flags)" by (cases x)
    have "x \<in> set ls \<longleftrightarrow> (\<exists>i e. unat v < 2 ^ (12 + 9 * LEVELS m) \<and> 2 ^ (12 + 9 * i) dvd unat v \<and> walk m s pt v = Some (e, i) \<and>
        sz = the (size_of_idx i) \<and> p = push_bit 12 (drop_bit 10 e) \<and> flags = entry_flags e)" (is "_ \<longleftrightarrow> ?R")
    proof
      assume "x \<in> set ls"
      then obtain i w e where y: "(i, w, e) \<in> set ?ls" "x = line_of (i, w, e)" unfolding ls_def set_map by auto
      then show ?R using small [OF y(1)] x unfolding set line_of_def by (auto simp: unat_of_nat_less simp del: size_of_idx.simps)
    next
      assume ?R
      then obtain i e where "(i, unat v, e) \<in> set ?ls" "x = line_of (i, unat v, e)" unfolding set x line_of_def by auto
      then show "x \<in> set ls" unfolding ls_def by (metis image_eqI set_map)
    qed
    then show "x \<in> set ls \<longleftrightarrow> x \<in> {(sz, v, p, flags). is_aligned sz v \<and> unat v < 2 ^ (12 + 9 * LEVELS m) \<and> translate m s pt v = Some (Some (p, sz, flags))}"
      using mapping_iff_leaf [OF assms(1), of sz v p flags] unfolding x mem_Collect_eq prod.case by blast
  qed
qed

text \<open>C25: Printing a page table lists exactly its mappings: one line for every page that \<open>translate\<close> knows, with its size, first address,
  physical address and flags, each once and in the order of the addresses.\<close>

theorem debug_lists_mappings:
  assumes "paging_inv m s pt fl" "mode_ok m" "appends wstr out"
  shows "\<exists>f' ls. debug_page_table sty wstr m s pt f = Some (Ok (), f') \<and> out f' = out f @ concat (map (leaf_line sty) ls) \<and>
    sorted_wrt (<) (map (\<lambda>(sz, v, p, flags). unat v) ls) \<and>
    set ls = {(sz, v, p, flags). is_aligned sz v \<and> unat v < 2 ^ (12 + 9 * LEVELS m) \<and> translate m s pt v = Some (Some (p, sz, flags))}"
proof -
  obtain k where L: "LEVELS m = Suc k" "vpn_idx (TOP_LEVEL_SIZE m) = k" "LEVELS m \<le> 4"
    using assms(2) by (auto simp: mode_ok_def mode_Sv39_def mode_Sv48_def)
  have tree: "pt_tree (mem s) (phys_off s) (entries pt) (LEVELS m) (free_bytes fl)" using assms(1) by (simp add: paging_inv_def)
  have "(2::nat) ^ (12 + 9 * Suc k) \<le> 2 ^ 64" using L by (intro power_increasing) auto
  then have sp: "span_ok 0 (LEVELS m)" using L by (simp add: span_ok_def)
  obtain f' where f': "debug_page_table sty wstr m s pt f = Some (Ok (), f')"
    "out f' = out f @ leaf_text sty (leaves (mem s) (phys_off s) (entries pt) 0 (LEVELS m))"
    using debug_fmt_leaves [OF assms(3) tree L(3), of "[]" "entries pt" k "TOP_LEVEL_SIZE m" 0 sty f] L sp
    by (auto simp: debug_page_table_def paths_def)
  then have "out f' = out f @ concat (map (leaf_line sty) (map line_of (leaves (mem s) (phys_off s) (entries pt) 0 (LEVELS m))))"
    by (simp add: comp_def)
  then show ?thesis using f'(1) lines_of_leaves [OF assms(1) sp] by blast
qed

theorem debug_lists_mappings_witness:
  "\<exists>f' ls. debug_page_table plain (\<lambda>l s. Some (Ok (), l @ s)) mode_Sv48 example_kernel example_table [] = Some (Ok (), f') \<and>
    f' = concat (map (leaf_line plain) ls) \<and>
    set ls = {(sz, v, p, flags). is_aligned sz v \<and> unat v < 2 ^ 48 \<and> translate mode_Sv48 example_kernel example_table v = Some (Some (p, sz, flags))}"
proof -
  have "appends (\<lambda>l s. Some (Ok (), l @ s)) (\<lambda>l. l)" "mode_ok mode_Sv48" by (simp_all add: appends_def mode_ok_def)
  moreover have L: "12 + 9 * LEVELS mode_Sv48 = 48" by (simp add: mode_Sv48_def)
  ultimately show ?thesis using debug_lists_mappings [OF example_paging_inv, of _ "\<lambda>l. l" plain "[]"] unfolding L append_Nil by blast
qed

end
