(* ===== verification/Page_Frame.thy ===== *)
theory Page_Frame
  imports Page_Map
begin

text \<open>
  What other memory operations do to a page table: nothing, as long as they do not write to the memory of the tables, which
  \<^const>\<open>pt_bytes\<close> names. Allocating a block is such an operation.
\<close>

section \<open>Accounting\<close>

lemma accounts_refl [simp]: "accounts m s pt fl s pt fl"
  by (simp add: accounts_def)

lemma accounts_trans:
  assumes "accounts m s pt fl s1 pt1 fl1" "accounts m s1 pt1 fl1 s2 pt1 fl1"
  shows "accounts m s pt fl s2 pt1 fl1"
proof -
  note a = assms [unfolded accounts_def]
  have "table_bytes m s2 pt1 \<subseteq> table_bytes m s pt \<union> (free_bytes fl - free_bytes fl1)" using a by blast
  moreover have "mem s2 (x + phys_off s) = mem s (x + phys_off s)" if "unat x \<notin> free_bytes fl \<union> table_bytes m s pt" for x
  proof -
    have "unat x \<notin> free_bytes fl1 \<union> table_bytes m s1 pt1" using that a by blast
    then show ?thesis using a that by simp
  qed
  ultimately show ?thesis using a by (simp add: accounts_def)
qed

lemma translate_table:
  assumes "paging_inv m s pt fl" "translate m s pt v = Some (Some (p, Kilopage, g))"
  obtains t where "tbl (mem s) (phys_off s) (entries pt) (vpath v (LEVELS m) (Suc 0)) = Some t"
proof (rule traverse_walk [OF assms(1), of v])
  fix mib kib
  assume w: "\<And>e j. walk m s pt v = Some (e, j) \<Longrightarrow> j < 3 \<and> j < LEVELS m \<and>
    (\<exists>t. tbl (mem s) (phys_off s) (entries pt) (vpath v (LEVELS m) (Suc j)) = Some t \<and> mem s (entry_addr t v j) = e)"
  obtain e j where j: "walk m s pt v = Some (e, j)" "the (size_of_idx j) = Kilopage"
    using assms(2) unfolding translate_walk [OF assms(1)] by (auto simp: translation_def simp del: size_of_idx.simps)
  have "vpn_idx (the (size_of_idx j)) = j" using w [OF j(1)] size_of_idx_small by blast
  then have "j = 0" using j(2) by simp
  then show thesis using w [OF j(1)] that by blast
qed

section \<open>Writes outside of the tables\<close>

lemma lookup_same:
  assumes "pt_tree h off rt L F" "\<And>x. unat x \<in> pt_bytes h off rt L \<Longrightarrow> h' (x + off) = h (x + off)"
  shows "pt_bytes h' off rt L = pt_bytes h off rt L" "lookup h' off rt v L = lookup h off rt v L"
    "F' \<inter> pt_bytes h off rt L = {} \<Longrightarrow> pt_tree h' off rt L F'"
proof -
  have tb: "tbl h' off rt p = tbl h off rt p" if "p \<in> paths L" for p using pt_bytes_same [OF assms that] .
  have en: "h' (t + 8 * of_nat i) = h (t + 8 * of_nat i)" if "p \<in> paths L" "tbl h off rt p = Some t" "i < 512" for p t i
    using assms(2) [of "t + 8 * of_nat i - off"] cell_in_page [OF pt_treeD(1) [OF assms(1) that(1,2)] that(3)] pt_bytes_table [OF that(1,2)] by auto
  show "pt_bytes h' off rt L = pt_bytes h off rt L" using tb by (auto simp: pt_bytes_def) (metis+)
  have same: "same_but L h h' off rt [] 512" using en by (simp add: same_but_def)
  have "vpath v L 0 \<noteq> [] @ [512] @ r" for r
  proof
    assume "vpath v L 0 = [] @ [512] @ r"
    then have "512 \<in> set (vpath v L 0)" by simp
    then obtain i where "vpn v i = 512" by (auto simp: vpath_def)
    then show False using vpn_less [of v i] by simp
  qed
  then show "lookup h' off rt v L = lookup h off rt v L" by (rule lookup_other [OF same])
  assume F': "F' \<inter> pt_bytes h off rt L = {}"
  have "table_ok off F' t" if "p \<in> paths L" "tbl h off rt p = Some t" for p t
    using pt_treeD(1) [OF assms(1) that] pt_bytes_table [OF that] F' by (auto simp: table_ok_def)
  then show "pt_tree h' off rt L F'" using assms(1) tb en unfolding pt_tree_def by metis
qed

lemma paging_frame:
  assumes "paging_inv m s pt fl" "buddy_inv s' fl'" "free_bytes fl' \<inter> table_bytes m s pt = {}" "free_bytes fl' \<subseteq> {..<2 ^ 56}"
    "phys_off s' = phys_off s" "\<And>x. unat x \<in> table_bytes m s pt \<Longrightarrow> mem s' (x + phys_off s) = mem s (x + phys_off s)"
  shows "paging_inv m s' pt fl'" "table_bytes m s' pt = table_bytes m s pt" "translate m s' pt w = translate m s pt w"
proof -
  have tree: "pt_tree (mem s) (phys_off s) (entries pt) (LEVELS m) (free_bytes fl)" using assms(1) by (simp add: paging_inv_def)
  note l = lookup_same [OF tree assms(6)]
  show inv: "paging_inv m s' pt fl'" using assms(1-5) l(3) by (auto simp: paging_inv_def)
  show "table_bytes m s' pt = table_bytes m s pt" using l(1) assms(5) by simp
  show "translate m s' pt w = translate m s pt w" unfolding translate_walk [OF inv] translate_walk [OF assms(1)] using l(2) assms(5) by simp
qed

lemma table_bytes_free: "paging_inv m s pt fl \<Longrightarrow> free_bytes fl \<inter> table_bytes m s pt = {}"
  using pt_bytes_free unfolding paging_inv_def by blast

text \<open>A block that is allocated leaves the page table alone.\<close>

lemma paging_allocates:
  assumes "paging_inv m s pt fl" "allocates s fl k b s1 fl1"
  shows "paging_inv m s1 pt fl1" "table_bytes m s1 pt = table_bytes m s pt" "translate m s1 pt w = translate m s pt w"
    "block_bytes k b \<inter> (free_bytes fl1 \<union> table_bytes m s1 pt) = {}"
proof -
  have a: "buddy_inv s1 fl1" "free_bytes fl1 = free_bytes fl - block_bytes k b" "frame (free_bytes fl) s s1" "block_bytes k b \<subseteq> free_bytes fl"
    "phys_off s1 = phys_off s" using assms(2) by (auto simp: allocates_def frame_def)
  have d: "free_bytes fl \<inter> table_bytes m s pt = {}" "free_bytes fl \<subseteq> {..<2 ^ 56}"
    using table_bytes_free [OF assms(1)] assms(1) by (auto simp: paging_inv_def)
  have "mem s1 (x + phys_off s) = mem s (x + phys_off s)" if "unat x \<in> table_bytes m s pt" for x
    using a(3) that d(1) by (auto simp: frame_def)
  note fr = paging_frame [OF assms(1) a(1) _ _ a(5) this]
  show "paging_inv m s1 pt fl1" "table_bytes m s1 pt = table_bytes m s pt" "translate m s1 pt w = translate m s pt w"
    using fr a(2) d by blast+
  then show "block_bytes k b \<inter> (free_bytes fl1 \<union> table_bytes m s1 pt) = {}" using a(2,4) d(1) by auto
qed

text \<open>Freeing a block that holds no table.\<close>

lemma paging_deallocates:
  fixes s :: "'a kernel_scheme"
  assumes inv: "paging_inv m s pt fl" and k: "k < 12" and b: "block_ok (phys_off s) k b" "block_bytes k b \<inter> (free_bytes fl \<union> table_bytes m s pt) = {}"
    "2 ^ (k + 12) \<le> unat (allocated (stats s))" "block_bytes k b \<subseteq> {..<2 ^ 56}"
  obtains s' fl' where "deallocate s b k = Some (Ok (), s')" "paging_inv m s' pt fl'" "free_bytes fl' = free_bytes fl \<union> block_bytes k b"
    "table_bytes m s' pt = table_bytes m s pt" "\<And>w. translate m s' pt w = translate m s pt w" "phys_off s' = phys_off s" "total (stats s') = total (stats s)"
    "unat (allocated (stats s)) = unat (allocated (stats s')) + 2 ^ (k + 12)" "root_table s' = root_table s" "root_locked s' = root_locked s"
proof -
  have bi: "buddy_inv s fl" "block_bytes k b \<inter> free_bytes fl = {}" using inv b(2) by (auto simp: paging_inv_def)
  obtain s' fl' where d: "deallocate s b k = Some (Ok (), s')" "deallocates s fl k b s' fl'" using deallocate_ok [OF k bi(1) b(1) bi(2) b(3)] by blast
  have dd: "buddy_inv s' fl'" "free_bytes fl' = free_bytes fl \<union> block_bytes k b" "frame (free_bytes fl \<union> block_bytes k b) s s'"
    "total (stats s') = total (stats s)" "phys_off s' = phys_off s" using d(2) by (auto simp: deallocates_def frame_def)
  have tb: "(free_bytes fl \<union> block_bytes k b) \<inter> table_bytes m s pt = {}" using table_bytes_free [OF inv] b(2) by blast
  have low: "free_bytes fl' \<subseteq> {..<2 ^ 56}" using dd(2) b(4) inv by (auto simp: paging_inv_def)
  have "mem s' (x + phys_off s) = mem s (x + phys_off s)" if "unat x \<in> table_bytes m s pt" for x
    using dd(3) that tb by (auto simp: frame_def)
  note fr = paging_frame [OF inv dd(1) _ low dd(5) this, unfolded dd(2), OF tb]
  have "unat (allocated (stats s)) = unat (allocated (stats s')) + card (block_bytes k b)"
  proof (rule stats_inv_allocated)
    show "stats_inv (stats s') (free_bytes fl')" "stats_inv (stats s) (free_bytes fl' - block_bytes k b)"
      using dd(1,2) bi by (auto simp: buddy_inv_def Un_Diff Diff_triv Int_commute)
  qed (use dd(2,4) in auto)
  moreover have "root_table s' = root_table s \<and> root_locked s' = root_locked s" using dd(3) by (cases s; cases s') (simp add: frame_def)
  ultimately show thesis using that [OF d(1) fr(1) dd(2) fr(2,3) dd(5,4)] by simp
qed

section \<open>An example\<close>

text \<open>A kernel in the higher half with 2 MiB of free memory.\<close>

definition stack_kernel :: kernel where
  "stack_kernel = \<lparr>mem = (\<lambda>_. 0), phys_off = KERNEL_PHYS_MEM_BASE, orders = [None, None, None, None, None, None, None, None, None, Some 0x80400000, None, None],
     stats = \<lparr>name = ''Physical Memory'', allocated = 0, free = 0x200000, total = 0x200000\<rparr>,
     root_table = None, root_locked = False, fences = []\<rparr>"

definition stack_table :: page_table where
  "stack_table = from_raw_parts (0x90000000 + KERNEL_PHYS_MEM_BASE) (0x91000000 + KERNEL_PHYS_MEM_BASE) [] 4"

definition stack_lists :: "usize list list" where
  "stack_lists = [[], [], [], [], [], [], [], [], [], [0x80400000], [], []]"

lemma stack_lists_nth: "k < 12 \<Longrightarrow> stack_lists ! k = (if k = 9 then [0x80400000] else [])"
  by (simp add: stack_lists_def nth_Cons' split: if_splits)

lemma stack_bytes: "free_bytes stack_lists = {0x80400000..<0x80600000}"
  by (auto simp: free_bytes_def stack_lists_nth block_bytes_def split: if_splits)

lemma stack_buddy: "buddy_inv stack_kernel stack_lists"
proof -
  have "orders stack_kernel ! k = (if k = 9 then Some 0x80400000 else None)" if "k < 12" for k
    using that by (simp add: stack_kernel_def nth_Cons' split: if_splits)
  then have "free_lists stack_kernel stack_lists"
    unfolding free_lists_def by (auto simp: stack_lists_nth) (simp_all add: stack_kernel_def stack_lists_def dec_ptr_def KERNEL_PHYS_MEM_BASE_def HIGHER_HALF_START_def)
  then show ?thesis
    unfolding buddy_inv_def stats_inv_def stack_bytes
    by (auto simp: blocks_inv_def stack_lists_nth split: if_splits)
      (simp_all add: stack_kernel_def block_ok_def KERNEL_PHYS_MEM_BASE_def HIGHER_HALF_START_def)
qed

lemma stack_paging: "paging_inv mode_Sv48 stack_kernel stack_table stack_lists"
proof -
  have mem: "mem stack_kernel = (\<lambda>_. 0)" "phys_off stack_kernel = 0x4A0000000000" "entries stack_table = 0x4A0090000000"
    by (simp_all add: stack_kernel_def stack_table_def from_raw_parts_def KERNEL_PHYS_MEM_BASE_def HIGHER_HALF_START_def)
  then show ?thesis
    unfolding paging_inv_def pt_tree_def mem tbl_zero stack_bytes using stack_buddy
    by (auto simp: mode_Sv48_def table_ok_def table_page_def entry_ok_def entry_kind_of_def VALID_def)
qed

lemma stack_unmapped: "translate mode_Sv48 stack_kernel stack_table w = Some None"
  using translate_walk [OF stack_paging, of w] by (simp add: stack_kernel_def lookup_zero)

end
