(* ===== verification/Page_Alloc.thy ===== *)
theory Page_Alloc
  imports Page_Frame
begin

text \<open>
  Virtual allocations (\<open>map_alloc\<close> and \<open>free\<close> of \<open>crates/kernel/src/page.rs\<close>): every page of a range is mapped to a block of its own that is
  taken from the allocator, and freeing the range gives the blocks back.
\<close>

section \<open>Pages of a range\<close>

text \<open>The pages of size \<open>sz\<close> of a range of \<open>n\<close> pages that starts at \<open>v\<close>.\<close>

definition pages :: "page_size \<Rightarrow> usize \<Rightarrow> nat \<Rightarrow> usize list" where
  "pages sz v n = map (\<lambda>i. v + of_nat i * size_bytes sz) [0..<n]"

lemma step_by_pages:
  assumes "unat stop = unat v + n * unat (size_bytes sz)"
  shows "step_by v stop (size_bytes sz) = pages sz v n"
proof -
  have d: "0 < unat (size_bytes sz)" unfolding unat_size_bytes by simp
  have "(unat stop - unat v + unat (size_bytes sz) - 1) div unat (size_bytes sz) = n"
    unfolding assms by (intro div_nat_eqI) (use d in \<open>simp_all add: mult.commute\<close>)
  then show ?thesis by (simp add: step_by_def pages_def)
qed

definition page_list_ok :: "paging_mode \<Rightarrow> page_size \<Rightarrow> usize list \<Rightarrow> bool" where
  "page_list_ok m sz vs \<longleftrightarrow> distinct vs \<and> (\<forall>v \<in> set vs. v < MAX_ADDRESS m \<and> is_aligned sz v)"

lemma pages_ok:
  assumes "is_aligned sz v" "unat v + n * unat (size_bytes sz) \<le> unat (MAX_ADDRESS m)"
  shows "page_list_ok m sz (pages sz v n)" "i < n \<Longrightarrow> unat (v + of_nat i * size_bytes sz) = unat v + i * unat (size_bytes sz)"
proof -
  have d: "0 < unat (size_bytes sz)" unfolding unat_size_bytes by simp
  have lt: "unat v + n * unat (size_bytes sz) < 2 ^ 64" using assms(2) unat_less_2p [of "MAX_ADDRESS m"] by simp
  show u: "unat (v + of_nat i * size_bytes sz) = unat v + i * unat (size_bytes sz)" if "i < n" for i
  proof -
    have le: "i * unat (size_bytes sz) \<le> n * unat (size_bytes sz)" using that by simp
    have "i \<le> i * unat (size_bytes sz)" using d by simp
    then have i: "unat (of_nat i :: usize) = i" using le lt by (intro unat_of_nat_less) linarith
    have lt': "unat v + i * unat (size_bytes sz) < 2 ^ 64" using le lt by linarith
    then have "unat (of_nat i * size_bytes sz) = i * unat (size_bytes sz)" using i by (subst unat_mult_lem [THEN iffD1]) simp_all
    then show ?thesis using lt' by (subst unat_add_lem [THEN iffD1]) simp_all
  qed
  have "i = j" if "i < n" "j < n" "v + of_nat i * size_bytes sz = v + of_nat j * size_bytes sz" for i j
  proof -
    have "unat v + i * unat (size_bytes sz) = unat v + j * unat (size_bytes sz)" using u that by metis
    then show ?thesis using d by simp
  qed
  then have "distinct (pages sz v n)" by (auto simp: pages_def distinct_map inj_on_def)
  moreover have "v + of_nat i * size_bytes sz < MAX_ADDRESS m" "is_aligned sz (v + of_nat i * size_bytes sz)" if i: "i < n" for i
  proof -
    have "i * unat (size_bytes sz) < n * unat (size_bytes sz)" using i d by simp
    then show "v + of_nat i * size_bytes sz < MAX_ADDRESS m" unfolding word_less_nat_alt u [OF i] using assms(2) by linarith
    show "is_aligned sz (v + of_nat i * size_bytes sz)"
      unfolding is_aligned_iff u [OF i] unat_size_bytes using assms(1) [unfolded is_aligned_iff] by simp
  qed
  ultimately show "page_list_ok m sz (pages sz v n)" by (auto simp: page_list_ok_def pages_def)
qed

text \<open>Aligned pages of one size that share an address are the same page.\<close>

lemma page_unique:
  assumes "is_aligned sz v" "is_aligned sz v'" "in_page sz v w" "in_page sz v' w"
  shows "v = v'"
proof -
  let ?n = "12 + 9 * vpn_idx sz"
  have "unat w div 2 ^ ?n = unat v div 2 ^ ?n" "unat w div 2 ^ ?n = unat v' div 2 ^ ?n"
    using same_page_iff [of ?n "unat v" "unat w"] same_page_iff [of ?n "unat v'" "unat w"] assms
    by (simp_all add: is_aligned_iff in_page_def unat_size_bytes del: size_bytes.simps)
  moreover have "unat v = unat v div 2 ^ ?n * 2 ^ ?n" "unat v' = unat v' div 2 ^ ?n * 2 ^ ?n"
    using assms(1,2) by (simp_all add: is_aligned_iff)
  ultimately show ?thesis by (metis word_unat_eq_iff)
qed

lemma in_page_self: "in_page sz v v"
  by (simp add: in_page_def unat_size_bytes del: size_bytes.simps)

section \<open>Pages with blocks\<close>

text \<open>A page and the block it is mapped to: the block belongs neither to the free memory nor to a table.\<close>

definition backed :: "paging_mode \<Rightarrow> 'a pmem_scheme \<Rightarrow> page_table \<Rightarrow> usize list list \<Rightarrow> page_size \<Rightarrow> u8 \<Rightarrow> (usize \<times> usize) list \<Rightarrow> bool" where
  "backed m s pt fl sz g vbs \<longleftrightarrow>
     (\<forall>(v, b) \<in> set vbs. block_ok (phys_off s) (9 * vpn_idx sz) b \<and> block_bytes (9 * vpn_idx sz) b \<inter> (free_bytes fl \<union> table_bytes m s pt) = {} \<and>
        (\<forall>w\<le>MAX_ADDRESS m. in_page sz v w \<longrightarrow> translate m s pt w = Some (Some (b + (w - v), sz, g)))) \<and>
     pairwise (\<lambda>(v, b) (v', b'). block_bytes (9 * vpn_idx sz) b \<inter> block_bytes (9 * vpn_idx sz) b' = {}) (set vbs)"

abbreviation blocks_of :: "page_size \<Rightarrow> usize list \<Rightarrow> nat set" where
  "blocks_of sz bs \<equiv> (\<Union>b \<in> set bs. block_bytes (9 * vpn_idx sz) b)"

definition page_at :: "page_size \<Rightarrow> u8 \<Rightarrow> (usize \<times> usize) list \<Rightarrow> usize \<Rightarrow> (usize \<times> page_size \<times> u8) option" where
  "page_at sz g vbs w = map_option (\<lambda>(v, b). (b + (w - v), sz, g)) (find (\<lambda>(v, b). in_page sz v w) vbs)"

lemma backed_Cons:
  assumes "backed m s pt fl sz g vbs" "block_ok (phys_off s) (9 * vpn_idx sz) b" "block_bytes (9 * vpn_idx sz) b \<inter> (free_bytes fl \<union> table_bytes m s pt) = {}"
    "\<And>w. w\<le>MAX_ADDRESS m \<Longrightarrow> in_page sz v w \<Longrightarrow> translate m s pt w = Some (Some (b + (w - v), sz, g))"
    "\<And>v' b'. (v', b') \<in> set vbs \<Longrightarrow> block_bytes (9 * vpn_idx sz) b \<inter> block_bytes (9 * vpn_idx sz) b' = {}"
  shows "backed m s pt fl sz g ((v, b) # vbs)"
proof -
  have "pairwise (\<lambda>(v, b) (v', b'). block_bytes (9 * vpn_idx sz) b \<inter> block_bytes (9 * vpn_idx sz) b' = {}) (set ((v, b) # vbs))"
    unfolding list.set pairwise_insert using assms(1,5) by (auto simp: backed_def Int_commute)
  moreover note assms(1) [unfolded backed_def, THEN conjunct1]
  ultimately show ?thesis unfolding backed_def list.set ball_simps using assms(2-4) by simp
qed

lemma backed_keep:
  assumes "backed m s pt fl sz g vbs" "phys_off s' = phys_off s"
    "\<And>v b. (v, b) \<in> set vbs \<Longrightarrow> block_bytes (9 * vpn_idx sz) b \<inter> (free_bytes fl' \<union> table_bytes m s' pt) = {}"
    "\<And>v b w. (v, b) \<in> set vbs \<Longrightarrow> w \<le> MAX_ADDRESS m \<Longrightarrow> in_page sz v w \<Longrightarrow> translate m s' pt w = translate m s pt w"
  shows "backed m s' pt fl' sz g vbs"
  using assms unfolding backed_def by (auto split: prod.splits)

lemma backedD:
  assumes "backed m s pt fl sz g vbs" "(v, b) \<in> set vbs"
  shows "block_ok (phys_off s) (9 * vpn_idx sz) b" "block_bytes (9 * vpn_idx sz) b \<inter> (free_bytes fl \<union> table_bytes m s pt) = {}"
    "w \<le> MAX_ADDRESS m \<Longrightarrow> in_page sz v w \<Longrightarrow> translate m s pt w = Some (Some (b + (w - v), sz, g))"
    "(v', b') \<in> set vbs \<Longrightarrow> (v, b) \<noteq> (v', b') \<Longrightarrow> block_bytes (9 * vpn_idx sz) b \<inter> block_bytes (9 * vpn_idx sz) b' = {}"
proof -
  show "(v', b') \<in> set vbs \<Longrightarrow> (v, b) \<noteq> (v', b') \<Longrightarrow> block_bytes (9 * vpn_idx sz) b \<inter> block_bytes (9 * vpn_idx sz) b' = {}"
    using pairwiseD [OF assms(1) [unfolded backed_def, THEN conjunct2] assms(2), of "(v', b')"] by simp
qed (use bspec [OF assms(1) [unfolded backed_def, THEN conjunct1] assms(2)] in auto)

lemma backed_tl: "backed m s pt fl sz g (x # vbs) \<Longrightarrow> backed m s pt fl sz g vbs"
  by (auto simp: backed_def intro: pairwise_subset)

section \<open>\<open>map_alloc\<close>\<close>

text \<open>
  The loop maps the first \<open>n\<close> pages, all of them on success; the only error is the one of the allocator. The pages that are mapped
  are backed by blocks of their own, and nothing else changes.
\<close>

definition alloc_result :: "paging_mode \<Rightarrow> 'a kernel_scheme \<Rightarrow> page_table \<Rightarrow> usize list list \<Rightarrow> page_size \<Rightarrow> u8 \<Rightarrow> usize list \<Rightarrow>
    (unit, page_error) result \<Rightarrow> page_table \<Rightarrow> 'a kernel_scheme \<Rightarrow> usize list list \<Rightarrow> usize list \<Rightarrow> bool" where
  "alloc_result m s pt fl sz g vs r pt' s' fl' bs \<longleftrightarrow> paging_inv m s' pt' fl' \<and> length bs \<le> length vs \<and>
     (case r of Ok _ \<Rightarrow> length bs = length vs | Err e \<Rightarrow> (\<exists>a. e = AllocErr a) \<and> (\<forall>j<12. 9 * vpn_idx sz \<le> j \<longrightarrow> fl' ! j = []) \<and>
        card (free_bytes fl) \<le> card (free_bytes fl') + length vs * (2 ^ (12 + 9 * vpn_idx sz) + 4096 * 3)) \<and> backed m s' pt' fl' sz g (zip vs bs) \<and>
     phys_off s' = phys_off s \<and> total (stats s') = total (stats s) \<and> sub_cap pt' = sub_cap pt \<and>
     free_bytes fl' \<subseteq> free_bytes fl \<and> blocks_of sz bs \<subseteq> free_bytes fl \<and> length (subtables pt) \<le> length (subtables pt') \<and>
     (r = Ok () \<longrightarrow> card (free_bytes fl) = card (free_bytes fl') + length bs * 2 ^ (12 + 9 * vpn_idx sz) + 4096 * (length (subtables pt') - length (subtables pt))) \<and>
     table_bytes m s' pt' \<subseteq> table_bytes m s pt \<union> free_bytes fl \<and>
     (\<forall>w\<le>MAX_ADDRESS m. translate m s' pt' w = (case page_at sz g (zip vs bs) w of Some x \<Rightarrow> Some (Some x) | None \<Rightarrow> translate m s pt w))"

lemma page_at_None: "page_at sz g vbs w = None \<longleftrightarrow> (\<forall>(v, b) \<in> set vbs. \<not> in_page sz v w)"
  by (auto simp: page_at_def find_None_iff)

lemma page_at_Cons: "page_at sz g ((v, b) # vbs) w = (if in_page sz v w then Some (b + (w - v), sz, g) else page_at sz g vbs w)"
  by (simp add: page_at_def)

lemma free_bytes_empty:
  assumes "free_bytes fl = {}" "j < 12"
  shows "fl ! j = []"
proof (cases "fl ! j")
  case (Cons b bs)
  then have "block_bytes j b \<subseteq> free_bytes fl" using assms(2) by (force simp: free_bytes_def)
  then show ?thesis using assms(1) by (simp add: block_bytes_def)
qed simp

text \<open>One round of the loop that succeeds, and the rest of the loop.\<close>

lemma alloc_result_Cons:
  fixes s :: "'a kernel_scheme"
  assumes inv: "paging_inv m s pt fl" and al: "allocates s fl (9 * vpn_idx sz) b s1 fl1" and mp: "accounts m s1 pt fl1 s2 pt2 fl2"
    and t2: "\<And>w. w\<le>MAX_ADDRESS m \<Longrightarrow> translate m s2 pt2 w = (if in_page sz v w then Some (Some (b + (w - v), sz, g)) else translate m s pt w)"
    and vs: "page_list_ok m sz (v # vs)" and res: "alloc_result m (sfence v s2) pt2 fl2 sz g vs r pt' s' fl' bs"
  shows "alloc_result m s pt fl sz g (v # vs) r pt' s' fl' (b # bs)"
proof -
  let ?k = "9 * vpn_idx sz"
  note al' = paging_allocates [OF inv al] and acc = mp [unfolded accounts_def]
  have a: "block_ok (phys_off s) ?k b" "block_bytes ?k b \<subseteq> free_bytes fl" "free_bytes fl1 = free_bytes fl - block_bytes ?k b" "phys_off s1 = phys_off s"
    "total (stats s1) = total (stats s)" using al by (auto simp: allocates_def frame_def)
  have same: "mem (sfence v s2) = mem s2" "phys_off (sfence v s2) = phys_off s2" "stats (sfence v s2) = stats s2" by (simp_all add: sfence_def)
  note res = res [unfolded alloc_result_def same]
  have other: "page_at sz g (zip vs bs) w = None" if "in_page sz v w" for w
    using page_unique [of sz v _ w] vs that by (auto simp: page_at_None page_list_ok_def dest!: set_zip_leftD)
  have sub: "free_bytes fl' \<subseteq> free_bytes fl1" "blocks_of sz bs \<subseteq> free_bytes fl1" "table_bytes m s' pt' \<subseteq> table_bytes m s1 pt \<union> free_bytes fl1"
    using res acc by blast+
  have tr: "translate m s' pt' w = (case page_at sz g (zip (v # vs) (b # bs)) w of Some x \<Rightarrow> Some (Some x) | None \<Rightarrow> translate m s pt w)"
    if w: "w \<le> MAX_ADDRESS m" for w
    using res w t2 [OF w] other [of w] by (auto simp: page_at_Cons split: option.splits)
  have bk: "backed m s' pt' fl' sz g (zip (v # vs) (b # bs))"
    unfolding zip_Cons_Cons
  proof (rule backed_Cons)
    show "block_bytes ?k b \<inter> (free_bytes fl' \<union> table_bytes m s' pt') = {}" using al'(4) sub by blast
    show "translate m s' pt' w = Some (Some (b + (w - v), sz, g))" if "w \<le> MAX_ADDRESS m" "in_page sz v w" for w
      using tr [OF that(1)] that(2) by (simp add: page_at_Cons)
    show "block_bytes ?k b \<inter> block_bytes ?k b' = {}" if "(v', b') \<in> set (zip vs bs)" for v' b'
      using that sub(2) al'(4) by (blast dest: set_zip_rightD)
  qed (use res a(1,4) acc in simp_all)
  have c1: "card (free_bytes fl) = card (free_bytes fl1) + 2 ^ (12 + ?k)"
    using a(2,3) card_Diff_subset [OF block_bytes_finite a(2)] card_mono [OF free_bytes_finite a(2)] by (simp add: add.commute)
  obtain d1 d2 where d: "length (subtables pt2) = length (subtables pt) + d1" "length (subtables pt') = length (subtables pt2) + d2"
    using acc res by (metis le_Suc_ex)
  have c2: "card (free_bytes fl1) = card (free_bytes fl2) + 4096 * d1" "d1 \<le> 3" using acc d(1) by simp_all
  have "card (free_bytes fl) = card (free_bytes fl') + length (b # bs) * 2 ^ (12 + ?k) + 4096 * (length (subtables pt') - length (subtables pt))" if "r = Ok ()"
    using res d that c1 c2 by simp
  moreover have "card (free_bytes fl) \<le> card (free_bytes fl') + length (v # vs) * (2 ^ (12 + ?k) + 4096 * 3)" if "r = Err e" for e
    using res that c1 c2 by simp
  ultimately show ?thesis unfolding alloc_result_def using res acc a al'(2) bk tr sub by (auto split: result.splits)
qed

text \<open>A round that ends the loop with the error of the allocator.\<close>

lemma alloc_result_fails:
  fixes s :: "'a kernel_scheme"
  assumes "paging_inv m s' pt' fl'" "\<forall>j<12. 9 * vpn_idx sz \<le> j \<longrightarrow> fl' ! j = []"
    "card (free_bytes fl) \<le> card (free_bytes fl') + (2 ^ (12 + 9 * vpn_idx sz) + 4096 * 3)" "phys_off s' = phys_off s" "total (stats s') = total (stats s)"
    "sub_cap pt' = sub_cap pt" "free_bytes fl' \<subseteq> free_bytes fl" "length (subtables pt) \<le> length (subtables pt')"
    "table_bytes m s' pt' \<subseteq> table_bytes m s pt \<union> free_bytes fl" "\<And>w. translate m s' pt' w = translate m s pt w"
  shows "alloc_result m s pt fl sz g (v # vs) (Err (AllocErr a)) pt' s' fl' []"
  using assms by (simp add: alloc_result_def backed_def page_at_def)

lemma map_alloc_loop_ok:
  fixes s :: "'a kernel_scheme"
  assumes m: "mode_ok m" and sz: "order_of_page sz = Some k" and g: "flags_ok g" "g \<noteq> 0"
  shows "\<lbrakk>paging_inv m s pt fl; page_list_ok m sz vs; length (subtables pt) + 3 * length vs \<le> sub_cap pt; \<forall>v \<in> set vs. translate m s pt v = Some None\<rbrakk> \<Longrightarrow>
    \<exists>r pt' s' fl' bs. map_alloc_loop m s pt k sz g vs = Some (r, pt', s') \<and> alloc_result m s pt fl sz g vs r pt' s' fl' bs"
proof (induction vs arbitrary: s pt fl)
  case Nil
  then show ?case by (intro exI [of _ "Ok ()"] exI [of _ pt] exI [of _ s] exI [of _ fl] exI [of _ "[]"]) (simp add: alloc_result_def backed_def page_at_def)
next
  case (Cons v vs)
  have k: "k = 9 * vpn_idx sz" "sz \<noteq> Terapage" "k < 12" using sz by (cases sz; simp)+
  have v: "v < MAX_ADDRESS m" "is_aligned sz v" "page_list_ok m sz vs" using Cons.prems(2) by (auto simp: page_list_ok_def)
  have inv: "buddy_inv s fl" using Cons.prems(1) by (simp add: paging_inv_def)
  show ?case
  proof (cases "\<exists>j. k \<le> j \<and> j < 12 \<and> fl ! j \<noteq> []")
    case False
    then have "alloc_result m s pt fl sz g (v # vs) (Err (AllocErr NoMemoryAvailable)) pt s fl []"
      using Cons.prems(1) k(1) by (intro alloc_result_fails) auto
    moreover have "allocate s k = Some (Err NoMemoryAvailable, s)" using allocate_none [OF inv k(3)] False by blast
    then have "map_alloc_loop m s pt k sz g (v # vs) = Some (Err (AllocErr NoMemoryAvailable), pt, s)" by (simp add: alloc_order_def)
    ultimately show ?thesis by blast
  next
    case True
    then obtain b s1 fl1 where block: "allocate s k = Some (Ok b, s1)" "allocates s fl k b s1 fl1" using allocate_ok [OF inv, of k] by fastforce
    note al = paging_allocates [OF Cons.prems(1) block(2)]
    have a: "phys_off s1 = phys_off s" "total (stats s1) = total (stats s)" "free_bytes fl1 \<subseteq> free_bytes fl" "card (free_bytes fl) \<le> card (free_bytes fl1) + 2 ^ (k + 12)"
      "block_ok (phys_off s) k b" using block(2) diff_card_le_card_Diff [OF block_bytes_finite [of k b], of "free_bytes fl"] by (auto simp: allocates_def frame_def)
    have bal: "is_aligned sz b" using a(5) k(1) by (simp add: is_aligned_iff block_ok_def add.commute)
    have room: "length (subtables pt) + 3 \<le> sub_cap pt" "translate m s1 pt v = Some None" using Cons.prems(3,4) al(3) by simp_all
    show ?thesis
    proof (cases rule: map_page_unmapped [OF al(1) m k(2) g room(1) v(1) bal v(2) room(2), case_names full maps])
      case (full e pt2 s2 fl2)
      then have "alloc_result m s pt fl sz g (v # vs) (Err (AllocErr e)) pt2 s2 fl2 []"
        using a(1-4) al(2,3) k(1) free_bytes_empty [OF full(5)] by (intro alloc_result_fails) (auto simp: accounts_def add.commute)
      moreover have "map_alloc_loop m s pt k sz g (v # vs) = Some (Err (AllocErr e), pt2, s2)" using block(1) full(1) by (simp add: alloc_order_def)
      ultimately show ?thesis by blast
    next
      case (maps pt2 s2 fl2)
      have t2: "translate m s2 pt2 w = (if in_page sz v w then Some (Some (b + (w - v), sz, g)) else translate m s pt w)" if "w \<le> MAX_ADDRESS m" for w
        using maps(4) [OF that] al(3) by simp
      have un: "\<forall>v' \<in> set vs. translate m (sfence v s2) pt2 v' = Some None"
      proof
        fix v' assume v': "v' \<in> set vs"
        then have "\<not> in_page sz v v'" "v' \<le> MAX_ADDRESS m"
          using Cons.prems(2) page_unique [of sz v v' v'] in_page_self by (auto simp: page_list_ok_def)
        then show "translate m (sfence v s2) pt2 v' = Some None" using t2 Cons.prems(4) v' by simp
      qed
      have "length (subtables pt2) + 3 * length vs \<le> sub_cap pt2" "paging_inv m (sfence v s2) pt2 fl2"
        using maps(2,3) Cons.prems(3) by (simp_all add: accounts_def)
      then obtain r pt' s' fl' bs where ih: "map_alloc_loop m (sfence v s2) pt2 k sz g vs = Some (r, pt', s')"
        "alloc_result m (sfence v s2) pt2 fl2 sz g vs r pt' s' fl' bs" using Cons.IH v(3) un by blast
      have "alloc_result m s pt fl sz g (v # vs) r pt' s' fl' (b # bs)"
        using alloc_result_Cons [OF Cons.prems(1) block(2) [unfolded k(1)] maps(3) t2 Cons.prems(2) ih(2)] .
      moreover have "map_alloc_loop m s pt k sz g (v # vs) = Some (r, pt', s')" using block(1) maps(1) ih(1) by (simp add: alloc_order_def)
      ultimately show ?thesis by blast
    qed
  qed
qed

section \<open>\<open>free\<close>\<close>

lemma free_page_ok:
  fixes s :: "'a kernel_scheme"
  assumes m: "mode_ok m" and sz: "order_of_page sz = Some k" and inv: "paging_inv m s pt fl" and bk: "backed m s pt fl sz g ((v, b) # vbs)"
    and vs: "page_list_ok m sz (v # map fst vbs)" and al: "2 ^ (k + 12) \<le> unat (allocated (stats s))" "block_bytes k b \<subseteq> {..<2 ^ 56}"
  obtains s1 s2 fl2 where "translate m s pt v = Some (Some (b, sz, g))" "unmap m s pt v = Some (Ok True, s1)" "b \<noteq> 0"
    "free_order (sfence v0 s1) b k = Some (Ok (), s2)" "paging_inv m s2 pt fl2" "free_bytes fl2 = free_bytes fl \<union> block_bytes k b"
    "backed m s2 pt fl2 sz g vbs" "unat (allocated (stats s)) = unat (allocated (stats s2)) + 2 ^ (k + 12)" "total (stats s2) = total (stats s)"
    "\<And>w. w \<le> MAX_ADDRESS m \<Longrightarrow> translate m s2 pt w = (if in_page sz v w then Some None else translate m s pt w)" "phys_off s2 = phys_off s"
proof -
  have k: "k = 9 * vpn_idx sz" "k < 12" using sz by (cases sz; simp)+
  have v: "v < MAX_ADDRESS m" "is_aligned sz v" "v \<notin> fst ` set vbs" using vs by (auto simp: page_list_ok_def)
  note vb = backedD [OF bk, of v b, simplified, folded k(1)]
  have tv: "translate m s pt v = Some (Some (b, sz, g))" using vb(3) [of v] v(1) in_page_self by simp
  obtain s1 where um: "unmap m s pt v = Some (Ok True, s1)" "paging_inv m s1 pt fl" "s1 = s\<lparr>mem := mem s1\<rparr>" "table_bytes m s1 pt \<subseteq> table_bytes m s pt"
    "\<And>w. w\<le>MAX_ADDRESS m \<Longrightarrow> translate m s1 pt w =
      (if unat w div unat (size_bytes sz) = unat v div unat (size_bytes sz) then Some None else translate m s pt w)"
    using unmap_spec [OF inv m less_imp_le [OF v(1)]] tv by auto
  have t1: "translate m s1 pt w = (if in_page sz v w then Some None else translate m s pt w)" if "w \<le> MAX_ADDRESS m" for w
    using um(5) [OF that] same_page_iff [of "12 + 9 * vpn_idx sz" "unat v" "unat w"] v(2)
    by (simp add: in_page_def is_aligned_iff unat_size_bytes del: size_bytes.simps)
  let ?s = "sfence v0 s1"
  have st: "phys_off s1 = phys_off s" "stats s1 = stats s" by (subst um(3), simp)+
  have same: "mem ?s = mem s1" "phys_off ?s = phys_off s1" "stats ?s = stats s1" by (simp_all add: sfence_def)
  have inv1: "paging_inv m ?s pt fl" using um(2) by simp
  have b: "block_ok (phys_off ?s) k b" "block_bytes k b \<inter> (free_bytes fl \<union> table_bytes m ?s pt) = {}" "2 ^ (k + 12) \<le> unat (allocated (stats ?s))"
    using vb(1,2) al(1) um(4) st same by auto
  obtain s2 fl2 where d: "deallocate ?s b k = Some (Ok (), s2)" "paging_inv m s2 pt fl2" "free_bytes fl2 = free_bytes fl \<union> block_bytes k b"
    "table_bytes m s2 pt = table_bytes m ?s pt" "\<And>w. translate m s2 pt w = translate m ?s pt w" "phys_off s2 = phys_off s" "total (stats s2) = total (stats s)"
    "unat (allocated (stats s)) = unat (allocated (stats s2)) + 2 ^ (k + 12)"
    by (rule paging_deallocates [OF inv1 k(2) b al(2)]) (simp add: st same)
  have t2: "translate m s2 pt w = (if in_page sz v w then Some None else translate m s pt w)" if "w \<le> MAX_ADDRESS m" for w
    using d(5) t1 [OF that] by simp
  have "backed m s2 pt fl2 sz g vbs"
  proof (rule backed_keep [OF backed_tl [OF bk] d(6)])
    fix v' b' assume vb': "(v', b') \<in> set vbs"
    then have ne: "(v, b) \<noteq> (v', b')" using v(3) by force
    have "block_bytes k b \<inter> block_bytes k b' = {}" using vb(4) [of v' b'] vb' ne by blast
    moreover have "block_bytes k b' \<inter> (free_bytes fl \<union> table_bytes m s pt) = {}" using backedD(2) [OF bk, of v' b'] vb' k(1) by simp
    moreover have "table_bytes m s2 pt \<subseteq> table_bytes m s pt" using d(4) um(4) same by simp
    ultimately show "block_bytes (9 * vpn_idx sz) b' \<inter> (free_bytes fl2 \<union> table_bytes m s2 pt) = {}" unfolding d(3) k(1) by blast
    fix w assume w: "w \<le> MAX_ADDRESS m" "in_page sz v' w"
    have "v' \<noteq> v" "is_aligned sz v'" using v(3) vb' vs by (force simp: page_list_ok_def)+
    then have "\<not> in_page sz v w" using page_unique [OF v(2) _ _ w(2)] by blast
    then show "translate m s2 pt w = translate m s pt w" using t2 [OF w(1)] by simp
  qed
  moreover have "b \<noteq> 0" using block_ok_start [OF vb(1)] by auto
  ultimately show thesis using that [OF tv um(1) _ _ d(2,3) _ d(8,7) t2 d(6)] d(1) by (simp add: free_order_def)
qed

text \<open>The loop of \<open>free\<close> gives every block back, and none of the pages is mapped afterwards.\<close>

lemma free_loop_ok:
  fixes s :: "'a kernel_scheme"
  assumes m: "mode_ok m" and sz: "order_of_page sz = Some k"
  shows "\<lbrakk>paging_inv m s pt fl; backed m s pt fl sz g vbs; page_list_ok m sz (map fst vbs); length vbs * 2 ^ (k + 12) \<le> unat (allocated (stats s));
      \<forall>(v, b) \<in> set vbs. block_bytes k b \<subseteq> {..<2 ^ 56}\<rbrakk> \<Longrightarrow>
    \<exists>s' fl'. free_loop m s pt v0 k (map fst vbs) = Some (Ok (), s') \<and> paging_inv m s' pt fl' \<and>
      free_bytes fl' = free_bytes fl \<union> blocks_of sz (map snd vbs) \<and> card (free_bytes fl') = card (free_bytes fl) + length vbs * 2 ^ (k + 12) \<and>
      (\<forall>w\<le>MAX_ADDRESS m. translate m s' pt w = (if \<exists>v \<in> set (map fst vbs). in_page sz v w then Some None else translate m s pt w))"
proof (induction vbs arbitrary: s fl)
  case Nil
  then show ?case by auto
next
  case (Cons x vbs)
  obtain v b where x: "x = (v, b)" by (cases x)
  have k: "k = 9 * vpn_idx sz" using sz by (cases sz; simp)
  have vs: "page_list_ok m sz (v # map fst vbs)" "page_list_ok m sz (map fst vbs)" using Cons.prems(3) x by (auto simp: page_list_ok_def)
  have al: "2 ^ (k + 12) \<le> unat (allocated (stats s))" "block_bytes k b \<subseteq> {..<2 ^ 56}" using Cons.prems(4,5) x by auto
  obtain s1 s2 fl2 where p: "translate m s pt v = Some (Some (b, sz, g))" "unmap m s pt v = Some (Ok True, s1)" "b \<noteq> 0"
    "free_order (sfence v0 s1) b k = Some (Ok (), s2)" "paging_inv m s2 pt fl2" "free_bytes fl2 = free_bytes fl \<union> block_bytes k b"
    "backed m s2 pt fl2 sz g vbs" "unat (allocated (stats s)) = unat (allocated (stats s2)) + 2 ^ (k + 12)"
    "\<And>w. w \<le> MAX_ADDRESS m \<Longrightarrow> translate m s2 pt w = (if in_page sz v w then Some None else translate m s pt w)"
    using free_page_ok [OF m sz Cons.prems(1) Cons.prems(2) [unfolded x] vs(1) al, of v0] by metis
  have "length vbs * 2 ^ (k + 12) \<le> unat (allocated (stats s2))" using Cons.prems(4) p(8) by simp
  then obtain s' fl' where ih: "free_loop m s2 pt v0 k (map fst vbs) = Some (Ok (), s')" "paging_inv m s' pt fl'"
      "free_bytes fl' = free_bytes fl2 \<union> blocks_of sz (map snd vbs)" "card (free_bytes fl') = card (free_bytes fl2) + length vbs * 2 ^ (k + 12)"
      "\<And>w. w\<le>MAX_ADDRESS m \<Longrightarrow> translate m s' pt w = (if \<exists>v \<in> set (map fst vbs). in_page sz v w then Some None else translate m s2 pt w)"
    using Cons.IH [OF p(5,7) vs(2)] Cons.prems(5) by auto
  have "free_loop m s pt v0 k (map fst (x # vbs)) = Some (Ok (), s')" using p(1-4) ih(1) x by simp
  moreover have "free_bytes fl' = free_bytes fl \<union> blocks_of sz (map snd (x # vbs))" using ih(3) p(6) x k by auto
  moreover have "translate m s' pt w = (if \<exists>v \<in> set (map fst (x # vbs)). in_page sz v w then Some None else translate m s pt w)" if "w \<le> MAX_ADDRESS m" for w
    using ih(5) [OF that] p(9) [OF that] x by auto
  moreover have "card (free_bytes fl') = card (free_bytes fl) + length (x # vbs) * 2 ^ (k + 12)"
  proof -
    have "free_bytes fl \<inter> block_bytes k b = {}" using backedD(2) [OF Cons.prems(2), of v b] x k by auto
    then have "card (free_bytes fl2) = card (free_bytes fl) + 2 ^ (k + 12)"
      unfolding p(6) by (simp add: card_Un_disjoint free_bytes_finite block_bytes_finite)
    then show ?thesis using ih(4) by simp
  qed
  ultimately show ?case using ih(2) by blast
qed

section \<open>Allocating and freeing a range\<close>

text \<open>The ranges that \<open>map_alloc\<close> and \<open>free\<close> walk over.\<close>

lemma range_end:
  fixes m :: paging_mode
  assumes "unat v + unat count * unat (size_bytes sz) \<le> unat (MAX_ADDRESS m)"
  shows "mul_chk (size_bytes sz) count = Some (size_bytes sz * count)" "add_chk v (size_bytes sz * count) = Some (v + size_bytes sz * count)"
    "step_by v (v + size_bytes sz * count) (size_bytes sz) = pages sz v (unat count)"
proof -
  have lt: "unat v + unat count * unat (size_bytes sz) < 2 ^ 64" using assms unat_less_2p [of "MAX_ADDRESS m"] by simp
  have l: "unat (size_bytes sz * count) = unat count * unat (size_bytes sz)" using lt by (subst unat_mult_lem [THEN iffD1]) (simp_all add: mult.commute del: size_bytes.simps)
  then have e: "unat (v + size_bytes sz * count) = unat v + unat count * unat (size_bytes sz)" using lt by (subst unat_add_lem [THEN iffD1]) (simp_all del: size_bytes.simps)
  show "mul_chk (size_bytes sz) count = Some (size_bytes sz * count)" using lt by (simp add: mul_chk_def mult.commute del: size_bytes.simps)
  show "add_chk v (size_bytes sz * count) = Some (v + size_bytes sz * count)" using lt l by (simp add: add_chk_def del: size_bytes.simps)
  show "step_by v (v + size_bytes sz * count) (size_bytes sz) = pages sz v (unat count)" by (rule step_by_pages [OF e])
qed

text \<open>The pages of a range cover exactly the addresses from its start to its end.\<close>

lemma pages_cover:
  fixes m :: paging_mode
  assumes "is_aligned sz v" "unat v + n * unat (size_bytes sz) \<le> unat (MAX_ADDRESS m)"
  shows "(\<exists>p \<in> set (pages sz v n). in_page sz p w) \<longleftrightarrow> unat v \<le> unat w \<and> unat w < unat v + n * unat (size_bytes sz)"
proof -
  let ?z = "unat (size_bytes sz)"
  have d: "0 < ?z" unfolding unat_size_bytes by simp
  have "(\<exists>p \<in> set (pages sz v n). in_page sz p w) \<longleftrightarrow> (\<exists>i<n. unat v + i * ?z \<le> unat w \<and> unat w < unat v + i * ?z + ?z)"
    using pages_ok(2) [OF assms] by (auto simp: pages_def in_page_def simp del: size_bytes.simps)
  also have "\<dots> \<longleftrightarrow> unat v \<le> unat w \<and> unat w < unat v + n * ?z"
  proof (intro iffI conjI; (elim exE conjE)?)
    fix i assume i: "i < n" "unat v + i * ?z \<le> unat w" "unat w < unat v + i * ?z + ?z"
    have "Suc i * ?z \<le> n * ?z" using i(1) by (intro mult_le_mono1) simp
    then show "unat w < unat v + n * ?z" using i(3) by simp
  next
    assume w: "unat v \<le> unat w" "unat w < unat v + n * ?z"
    let ?i = "(unat w - unat v) div ?z"
    have "?i < n" using w d by (intro less_mult_imp_div_less) linarith
    moreover have "?i * ?z \<le> unat w - unat v" "unat w - unat v < ?i * ?z + ?z"
      using d dividend_less_div_times [of ?z "unat w - unat v"] by (simp_all add: add.commute del: size_bytes.simps)
    ultimately show "\<exists>i<n. unat v + i * ?z \<le> unat w \<and> unat w < unat v + i * ?z + ?z" using w(1) by (intro exI [of _ ?i]) linarith
  qed simp
  finally show ?thesis .
qed

text \<open>What a successful \<open>map_alloc\<close> leaves behind, page by page.\<close>

lemma alloc_result_pages:
  fixes s :: "'a kernel_scheme" and count :: usize
  assumes "alloc_result m s pt fl sz g (pages sz v (unat count)) (Ok ()) pt' s' fl' bs" "is_aligned sz v"
    "unat v + unat count * unat (size_bytes sz) \<le> unat (MAX_ADDRESS m)"
  shows "length bs = unat count" "blocks_of sz bs \<subseteq> free_bytes fl" "paging_inv m s' pt' fl'"
    "i < unat count \<Longrightarrow> block_ok (phys_off s) (9 * vpn_idx sz) (bs ! i)"
    "i < unat count \<Longrightarrow> block_bytes (9 * vpn_idx sz) (bs ! i) \<inter> (free_bytes fl' \<union> table_bytes m s' pt') = {}"
    "i < unat count \<Longrightarrow> j < i \<Longrightarrow> block_bytes (9 * vpn_idx sz) (bs ! i) \<inter> block_bytes (9 * vpn_idx sz) (bs ! j) = {}"
    "i < unat count \<Longrightarrow> in_page sz (v + of_nat i * size_bytes sz) w \<Longrightarrow>
       translate m s' pt' w = Some (Some (bs ! i + (w - (v + of_nat i * size_bytes sz)), sz, g))"
proof -
  let ?vs = "pages sz v (unat count)"
  note res = assms(1) [unfolded alloc_result_def]
  have len: "length ?vs = unat count" by (simp add: pages_def)
  show lb: "length bs = unat count" using res len by simp
  show "blocks_of sz bs \<subseteq> free_bytes fl" "paging_inv m s' pt' fl'" using res by blast+
  have bk: "backed m s' pt' fl' sz g (zip ?vs bs)" and off: "phys_off s' = phys_off s" using res by blast+
  have z_in: "(v + of_nat i * size_bytes sz, bs ! i) \<in> set (zip ?vs bs)" if "i < unat count" for i
    using that lb len by (auto simp: in_set_zip pages_def simp del: size_bytes.simps intro!: exI [of _ i])
  show "block_ok (phys_off s) (9 * vpn_idx sz) (bs ! i)" "block_bytes (9 * vpn_idx sz) (bs ! i) \<inter> (free_bytes fl' \<union> table_bytes m s' pt') = {}"
    if "i < unat count" using backedD(1,2) [OF bk z_in [OF that]] off by simp_all
  show "block_bytes (9 * vpn_idx sz) (bs ! i) \<inter> block_bytes (9 * vpn_idx sz) (bs ! j) = {}" if "i < unat count" "j < i"
  proof -
    have j: "j < unat count" using that by simp
    have "?vs ! i \<noteq> ?vs ! j" using pages_ok(1) [OF assms(2,3)] that len by (simp add: page_list_ok_def nth_eq_iff_index_eq)
    then have "(v + of_nat i * size_bytes sz, bs ! i) \<noteq> (v + of_nat j * size_bytes sz, bs ! j)" using that by (simp add: pages_def)
    then show ?thesis using backedD(4) [OF bk z_in [OF that(1)] z_in [OF j]] by simp
  qed
  show "translate m s' pt' w = Some (Some (bs ! i + (w - (v + of_nat i * size_bytes sz)), sz, g))"
    if "i < unat count" "in_page sz (v + of_nat i * size_bytes sz) w"
  proof -
    have "w \<le> MAX_ADDRESS m" using pages_cover [OF assms(2,3), of w] that assms(3) by (auto simp: pages_def word_le_nat_alt simp del: size_bytes.simps)
    then show ?thesis using backedD(3) [OF bk z_in [OF that(1)]] that(2) by blast
  qed
qed

text \<open>Freeing the range afterwards.\<close>

lemma alloc_result_free:
  fixes s :: "'a kernel_scheme" and count :: usize
  assumes res: "alloc_result m s pt fl sz g (pages sz v (unat count)) (Ok ()) pt' s' fl' bs" and inv: "paging_inv m s pt fl" and m: "mode_ok m"
    and sz: "order_of_page sz = Some k" and v: "is_aligned sz v" "0 < count" "unat v + unat count * unat (size_bytes sz) \<le> unat (MAX_ADDRESS m)"
    and un: "\<And>w. unat v \<le> unat w \<Longrightarrow> unat w < unat v + unat count * unat (size_bytes sz) \<Longrightarrow> translate m s pt w = Some None"
  obtains s'' fl'' where "table_free m s' pt' v count = Some (Ok (), s'')" "paging_inv m s'' pt' fl''" "free_bytes fl'' = free_bytes fl' \<union> blocks_of sz bs"
    "card (free_bytes fl) = card (free_bytes fl'') + 4096 * (length (subtables pt') - length (subtables pt))"
    "\<forall>w\<le>MAX_ADDRESS m. translate m s'' pt' w = translate m s pt w"
proof -
  let ?vs = "pages sz v (unat count)"
  note rg = range_end [OF v(3)] and ok = pages_ok [OF v(1,3)] and cover = pages_cover [OF v(1,3)]
  note pg = alloc_result_pages [OF res v(1,3)] and res' = res [unfolded alloc_result_def]
  have k: "k = 9 * vpn_idx sz" using sz by (cases sz; simp)
  have z: "map fst (zip ?vs bs) = ?vs" "map snd (zip ?vs bs) = bs" "length (zip ?vs bs) = unat count" using pg(1) by (simp_all add: pages_def)
  have bk: "backed m s' pt' fl' sz g (zip ?vs bs)" and sub: "free_bytes fl' \<subseteq> free_bytes fl" using res' by blast+
  have cards: "card (free_bytes fl) = card (free_bytes fl') + unat count * 2 ^ (k + 12) + 4096 * (length (subtables pt') - length (subtables pt))"
    using res' pg(1) k by (simp add: add.commute)
  have "free_bytes fl - (free_bytes fl - free_bytes fl') = free_bytes fl'" using sub by blast
  then have "unat (allocated (stats s')) = unat (allocated (stats s)) + card (free_bytes fl - free_bytes fl')"
    using inv res' free_bytes_finite by (intro stats_inv_allocated [of _ "free_bytes fl"]) (auto simp: paging_inv_def buddy_inv_def)
  then have alloc: "length (zip ?vs bs) * 2 ^ (k + 12) \<le> unat (allocated (stats s'))"
    using card_Diff_subset [OF free_bytes_finite sub] cards z(3) by simp
  have low: "\<forall>(v, b) \<in> set (zip ?vs bs). block_bytes k b \<subseteq> {..<2 ^ 56}"
    using pg(2) inv k by (auto simp: paging_inv_def dest!: set_zip_rightD)
  obtain s'' fl'' where fr: "free_loop m s' pt' v k ?vs = Some (Ok (), s'')" "paging_inv m s'' pt' fl''"
    "free_bytes fl'' = free_bytes fl' \<union> blocks_of sz bs" "card (free_bytes fl'') = card (free_bytes fl') + unat count * 2 ^ (k + 12)"
    "\<And>w. w\<le>MAX_ADDRESS m \<Longrightarrow> translate m s'' pt' w = (if \<exists>v \<in> set ?vs. in_page sz v w then Some None else translate m s' pt' w)"
    using free_loop_ok [OF m sz pg(3) bk, unfolded z(1,2), OF ok(1) alloc low, of v] z(3) by auto
  have "translate m s'' pt' w = translate m s pt w" if "w \<le> MAX_ADDRESS m" for w
  proof (cases "\<exists>p \<in> set ?vs. in_page sz p w")
    case True
    then show ?thesis using fr(5) [OF that] cover [of w] un [of w] by simp
  next
    case False
    then have "page_at sz g (zip ?vs bs) w = None" by (auto simp: page_at_None dest!: set_zip_leftD)
    then show ?thesis using fr(5) [OF that] False res' that by simp
  qed
  moreover have "translate m s' pt' v = Some (Some (bs ! 0, sz, g))" using pg(7) [of 0 v] v(2) in_page_self by (simp add: unat_gt_0)
  then have "table_free m s' pt' v count = Some (Ok (), s'')" using rg fr(1) sz by (simp add: table_free_def del: size_bytes.simps)
  ultimately show thesis using that fr(2,3,4) cards by simp
qed

text \<open>C10: \<open>map_alloc\<close> of a range of kilo- or megapages that is not in use, with room in the vector of subtables, either fails with the error
  of the allocator, the tables and the allocator still in order, or it maps every page of the range to a block of its own: the blocks are aligned, pairwise disjoint, were free before
  and belong neither to the free memory nor to a table now. A \<open>free\<close> of the range then succeeds, gives exactly those blocks back,
  and leaves every translation as it was before; of the memory that was free, only the new page tables are still in use.\<close>

theorem map_alloc_free:
  fixes s :: "'a kernel_scheme"
  assumes "paging_inv m s pt fl" "mode_ok m" "order_of_page sz = Some k" "flags_ok g" "g \<noteq> 0" "is_aligned sz v" "0 < count"
    "unat v + unat count * unat (size_bytes sz) \<le> unat (MAX_ADDRESS m)" "length (subtables pt) + 3 * unat count \<le> sub_cap pt"
    "\<And>w. unat v \<le> unat w \<Longrightarrow> unat w < unat v + unat count * unat (size_bytes sz) \<Longrightarrow> translate m s pt w = Some None"
  shows "\<exists>r pt' s' fl'. map_alloc m s pt v count sz g = Some (r, pt', s') \<and> paging_inv m s' pt' fl' \<and>
    (case r of
       Err e \<Rightarrow> (\<exists>a. e = AllocErr a) \<and> (\<forall>j<12. k \<le> j \<longrightarrow> fl' ! j = []) \<and>
         card (free_bytes fl) \<le> card (free_bytes fl') + unat count * (2 ^ (12 + k) + 4096 * 3)
     | Ok _ \<Rightarrow>
         (\<exists>bs. length bs = unat count \<and> (\<Union>b \<in> set bs. block_bytes k b) \<subseteq> free_bytes fl \<and>
            (\<forall>i<unat count. block_ok (phys_off s) k (bs ! i) \<and> block_bytes k (bs ! i) \<inter> (free_bytes fl' \<union> table_bytes m s' pt') = {} \<and>
               (\<forall>j<i. block_bytes k (bs ! i) \<inter> block_bytes k (bs ! j) = {}) \<and>
               (\<forall>w. in_page sz (v + of_nat i * size_bytes sz) w \<longrightarrow>
                  translate m s' pt' w = Some (Some (bs ! i + (w - (v + of_nat i * size_bytes sz)), sz, g)))) \<and>
            (\<exists>s'' fl''. table_free m s' pt' v count = Some (Ok (), s'') \<and> paging_inv m s'' pt' fl'' \<and>
               free_bytes fl'' = free_bytes fl' \<union> (\<Union>b \<in> set bs. block_bytes k b) \<and>
               card (free_bytes fl) = card (free_bytes fl'') + 4096 * (length (subtables pt') - length (subtables pt)) \<and>
               (\<forall>w\<le>MAX_ADDRESS m. translate m s'' pt' w = translate m s pt w))))"
proof -
  let ?vs = "pages sz v (unat count)"
  have k: "k = 9 * vpn_idx sz" using assms(3) by (cases sz; simp)
  have un: "\<forall>p \<in> set ?vs. translate m s pt p = Some None" using pages_cover [OF assms(6,8)] in_page_self assms(10) by blast
  obtain r pt' s' fl' bs where lp: "map_alloc_loop m s pt k sz g ?vs = Some (r, pt', s')" "alloc_result m s pt fl sz g ?vs r pt' s' fl' bs"
    using map_alloc_loop_ok [OF assms(2-5,1) pages_ok(1) [OF assms(6,8)] _ un] assms(9) by (auto simp: pages_def)
  have ma: "map_alloc m s pt v count sz g = Some (r, pt', s')"
    using range_end [OF assms(8)] lp(1) assms(3) by (simp add: map_alloc_def del: size_bytes.simps)
  show ?thesis
  proof (cases r)
    case (Err e)
    then show ?thesis using ma lp(2) k by (auto simp: alloc_result_def pages_def)
  next
    case (Ok u)
    then have res: "alloc_result m s pt fl sz g ?vs (Ok ()) pt' s' fl' bs" using lp(2) by simp
    note pg = alloc_result_pages [OF res assms(6,8), folded k]
    show ?thesis
    proof (rule alloc_result_free [OF res assms(1-3) assms(6-8) assms(10), folded k])
      fix s'' fl''
      assume "table_free m s' pt' v count = Some (Ok (), s'')" "paging_inv m s'' pt' fl''" "free_bytes fl'' = free_bytes fl' \<union> (\<Union>b \<in> set bs. block_bytes k b)"
        "card (free_bytes fl) = card (free_bytes fl'') + 4096 * (length (subtables pt') - length (subtables pt))"
        "\<forall>w\<le>MAX_ADDRESS m. translate m s'' pt' w = translate m s pt w"
      then have fr: "\<exists>s'' fl''. table_free m s' pt' v count = Some (Ok (), s'') \<and> paging_inv m s'' pt' fl'' \<and>
         free_bytes fl'' = free_bytes fl' \<union> (\<Union>b \<in> set bs. block_bytes k b) \<and>
         card (free_bytes fl) = card (free_bytes fl'') + 4096 * (length (subtables pt') - length (subtables pt)) \<and>
         (\<forall>w\<le>MAX_ADDRESS m. translate m s'' pt' w = translate m s pt w)" by blast
      show ?thesis
        unfolding ma Ok
        by (intro exI [of _ "Ok u"] exI [of _ pt'] exI [of _ s'] exI [of _ fl'] conjI refl pg(3); unfold result.case; intro exI [of _ bs] conjI allI impI fr pg)
    qed blast
  qed
qed

theorem map_alloc_free_witness:
  "\<exists>pt' s' s'' p q. map_alloc mode_Sv48 stack_kernel (stack_table\<lparr>sub_cap := 8\<rparr>) 0x40000000 2 Kilopage FLAG_READ = Some (Ok (), pt', s') \<and>
    translate mode_Sv48 s' pt' 0x40000FFF = Some (Some (p + 0xFFF, Kilopage, FLAG_READ)) \<and>
    translate mode_Sv48 s' pt' 0x40001FFF = Some (Some (q + 0xFFF, Kilopage, FLAG_READ)) \<and> p \<noteq> q \<and>
    table_free mode_Sv48 s' pt' 0x40000000 2 = Some (Ok (), s'') \<and> translate mode_Sv48 s'' pt' 0x40001FFF = Some None"
proof -
  let ?pt = "stack_table\<lparr>sub_cap := 8\<rparr>"
  have inv: "paging_inv mode_Sv48 stack_kernel ?pt stack_lists" using stack_paging by (simp add: paging_inv_def)
  have un: "translate mode_Sv48 stack_kernel ?pt w = Some None" for w
    using translate_walk [OF inv, of w] by (simp add: stack_kernel_def lookup_zero)
  have hyps: "mode_ok mode_Sv48" "order_of_page Kilopage = Some 0" "flags_ok FLAG_READ" "FLAG_READ \<noteq> 0" "is_aligned Kilopage 0x40000000" "0 < (2 :: usize)"
    "unat (0x40000000 :: usize) + unat (2 :: usize) * unat (size_bytes Kilopage) \<le> unat (MAX_ADDRESS mode_Sv48)"
    "length (subtables ?pt) + 3 * unat (2 :: usize) \<le> sub_cap ?pt"
    by (simp_all add: mode_ok_def flags_ok_def FLAG_READ_def bit_0 mode_Sv48_def is_aligned_def KIB_def stack_table_def from_raw_parts_def)
  obtain r pt' s' fl' where al: "map_alloc mode_Sv48 stack_kernel ?pt 0x40000000 2 Kilopage FLAG_READ = Some (r, pt', s')"
    "case r of Err e \<Rightarrow> (\<exists>a. e = AllocErr a) \<and> (\<forall>j<12. 0 \<le> j \<longrightarrow> fl' ! j = []) \<and> card (free_bytes stack_lists) \<le> card (free_bytes fl') + unat (2 :: usize) * (2 ^ (12 + 0) + 4096 * 3)
     | Ok _ \<Rightarrow> \<exists>bs. length bs = unat (2 :: usize) \<and> (\<Union>b \<in> set bs. block_bytes 0 b) \<subseteq> free_bytes stack_lists \<and>
         (\<forall>i<unat (2 :: usize). block_ok (phys_off stack_kernel) 0 (bs ! i) \<and> block_bytes 0 (bs ! i) \<inter> (free_bytes fl' \<union> table_bytes mode_Sv48 s' pt') = {} \<and>
          (\<forall>j<i. block_bytes 0 (bs ! i) \<inter> block_bytes 0 (bs ! j) = {}) \<and>
         (\<forall>w. in_page Kilopage (0x40000000 + of_nat i * size_bytes Kilopage) w \<longrightarrow>
            translate mode_Sv48 s' pt' w = Some (Some (bs ! i + (w - (0x40000000 + of_nat i * size_bytes Kilopage)), Kilopage, FLAG_READ)))) \<and>
         (\<exists>s'' fl''. table_free mode_Sv48 s' pt' 0x40000000 2 = Some (Ok (), s'') \<and> paging_inv mode_Sv48 s'' pt' fl'' \<and>
           free_bytes fl'' = free_bytes fl' \<union> (\<Union>b \<in> set bs. block_bytes 0 b) \<and>
           card (free_bytes stack_lists) = card (free_bytes fl'') + 4096 * (length (subtables pt') - length (subtables ?pt)) \<and>
           (\<forall>w\<le>MAX_ADDRESS mode_Sv48. translate mode_Sv48 s'' pt' w = translate mode_Sv48 stack_kernel ?pt w))"
    using map_alloc_free [OF inv hyps un] by (elim exE conjE) (rule that)
  have "card (free_bytes fl') = 0" if "\<forall>j<12. fl' ! j = []" using that by (simp add: free_bytes_def)
  then obtain u where r: "r = Ok u" using al(2) by (cases r) (auto simp: stack_bytes)
  obtain bs s'' where ok: "\<And>i j. i < 2 \<Longrightarrow> j < i \<Longrightarrow> block_bytes 0 (bs ! i) \<inter> block_bytes 0 (bs ! j) = {}"
      "\<And>i w. i < 2 \<Longrightarrow> in_page Kilopage (0x40000000 + of_nat i * 0x1000) w \<Longrightarrow>
        translate mode_Sv48 s' pt' w = Some (Some (bs ! i + (w - (0x40000000 + of_nat i * 0x1000)), Kilopage, FLAG_READ))"
      "table_free mode_Sv48 s' pt' 0x40000000 2 = Some (Ok (), s'')" "\<forall>w\<le>MAX_ADDRESS mode_Sv48. translate mode_Sv48 s'' pt' w = translate mode_Sv48 stack_kernel ?pt w"
    using al(2) unfolding r result.case by (elim exE conjE) (rule that; (assumption | simp add: KIB_def))
  have "bs ! 0 \<noteq> bs ! 1" using ok(1) [of 1 0] by (auto simp: block_bytes_def)
  then show ?thesis
    using al(1) ok(2) [of 0 "0x40000FFF"] ok(2) [of 1 "0x40001FFF"] ok(3) spec [OF ok(4), of "0x40001FFF"] un r
    by (auto simp: in_page_def mode_Sv48_def KIB_def)
qed

end
