(* ===== verification/Page_Drop.thy ===== *)
theory Page_Drop
  imports Page_Frame Buddy_Client
begin

text \<open>
  Dropping a page table (\<open>Drop for PageTable\<close> of \<open>crates/kernel/src/page.rs\<close>) gives back the subtables, the root table and the buffer of the vector.
  The two last go through the \<open>Allocator\<close> instance, which translates their virtual addresses with the global page table.
\<close>

section \<open>Blocks that belong to an owner\<close>

text \<open>
  The memory beside the free memory and the tables of \<open>g\<close>: the blocks \<open>held\<close> are allocated, aligned and disjoint from each other, from the free
  memory and from the tables.
\<close>

definition owns :: "paging_mode \<Rightarrow> page_table \<Rightarrow> 'a kernel_scheme \<Rightarrow> usize list list \<Rightarrow> (usize \<times> nat) list \<Rightarrow> bool" where
  "owns m g s fl held \<longleftrightarrow> paging_inv m s g fl \<and> (\<forall>(b, k) \<in> set held. k < 12 \<and> block_ok (phys_off s) k b) \<and> held_disjoint held \<and>
     held_bytes held \<inter> (free_bytes fl \<union> table_bytes m s g) = {} \<and> held_bytes held \<subseteq> {..<2 ^ 56} \<and> held_size held \<le> unat (allocated (stats s))"

definition frees :: "paging_mode \<Rightarrow> page_table \<Rightarrow> 'a kernel_scheme \<Rightarrow> usize list list \<Rightarrow> nat set \<Rightarrow> 'a kernel_scheme \<Rightarrow> usize list list \<Rightarrow> bool" where
  "frees m g s fl B s' fl' \<longleftrightarrow> free_bytes fl' = free_bytes fl \<union> B \<and> (\<forall>w. translate m s' g w = translate m s g w) \<and>
     root_table s' = root_table s \<and> root_locked s' = root_locked s"

lemma frees_refl: "frees m g s fl {} s fl"
  by (simp add: frees_def)

lemma frees_trans: "frees m g s fl B s1 fl1 \<Longrightarrow> frees m g s1 fl1 C s2 fl2 \<Longrightarrow> frees m g s fl (B \<union> C) s2 fl2"
  by (auto simp: frees_def)

lemma owns_deallocate:
  fixes s :: "'a kernel_scheme"
  assumes "owns m g s fl ((b, k) # held)"
  obtains s' fl' where "deallocate s b k = Some (Ok (), s')" "owns m g s' fl' held" "frees m g s fl (block_bytes k b) s' fl'"
proof -
  note o = assms [unfolded owns_def]
  have inv: "paging_inv m s g fl" and b: "k < 12" "block_ok (phys_off s) k b" "2 ^ (k + 12) \<le> unat (allocated (stats s))"
    "block_bytes k b \<inter> (free_bytes fl \<union> table_bytes m s g) = {}" "block_bytes k b \<subseteq> {..<2 ^ 56}" using o by auto
  obtain s' fl' where d: "deallocate s b k = Some (Ok (), s')" "paging_inv m s' g fl'" "free_bytes fl' = free_bytes fl \<union> block_bytes k b"
    "table_bytes m s' g = table_bytes m s g" "\<And>w. translate m s' g w = translate m s g w" "phys_off s' = phys_off s"
    "unat (allocated (stats s)) = unat (allocated (stats s')) + 2 ^ (k + 12)" "root_table s' = root_table s" "root_locked s' = root_locked s"
    by (rule paging_deallocates [OF inv b(1,2,4,3,5)]) blast
  have "owns m g s' fl' held" using o d(2,3,4,6,7) by (auto simp: owns_def)
  moreover have "frees m g s fl (block_bytes k b) s' fl'" using d(3,5,8,9) by (simp add: frees_def)
  ultimately show thesis using that d(1) by blast
qed

section \<open>The drop\<close>

lemma drop_subtables_ok:
  fixes s :: "'a kernel_scheme"
  assumes "owns m g s fl (map (\<lambda>p. (p, 0)) ps @ held)"
  shows "\<exists>s' fl'. drop_subtables s ps = Some s' \<and> owns m g s' fl' held \<and> frees m g s fl (held_bytes (map (\<lambda>p. (p, 0)) ps)) s' fl'"
  using assms
proof (induction ps arbitrary: s fl)
  case Nil
  then show ?case using frees_refl by fastforce
next
  case (Cons p ps)
  obtain s1 fl1 where s1: "deallocate s p 0 = Some (Ok (), s1)" "owns m g s1 fl1 (map (\<lambda>p. (p, 0)) ps @ held)" "frees m g s fl (block_bytes 0 p) s1 fl1"
    using owns_deallocate [of m g s fl p 0] Cons.prems by auto
  obtain s2 fl2 where "drop_subtables s1 ps = Some s2" "owns m g s2 fl2 held" "frees m g s1 fl1 (held_bytes (map (\<lambda>p. (p, 0)) ps)) s2 fl2"
    using Cons.IH [OF s1(2)] by blast
  then show ?case using s1(1) frees_trans [OF s1(3)] by (auto simp: free_page_def free_order_def)
qed

text \<open>The block behind a pointer: the \<open>Allocator\<close> instance asks the global table, and takes an address it does not map as it is.\<close>

definition block_of :: "'a kernel_scheme \<Rightarrow> page_table \<Rightarrow> usize \<Rightarrow> usize \<Rightarrow> bool" where
  "block_of s g ptr b \<longleftrightarrow> b \<noteq> 0 \<and> (case translate mode_Sv48 s g ptr of Some None \<Rightarrow> b = ptr | Some (Some (a, _, _)) \<Rightarrow> b = a | None \<Rightarrow> False)"

lemma allocator_deallocate_ok:
  fixes s :: "'a kernel_scheme"
  assumes "owns mode_Sv48 g s fl ((b, k) # held)" "root_table s = Some g" "\<not> root_locked s" "block_of s g ptr b" "order_for_size (layout_size l) = Some k"
  shows "\<exists>s' fl'. PhysicalAllocator_deallocate s ptr l = Some s' \<and> owns mode_Sv48 g s' fl' held \<and> frees mode_Sv48 g s fl (block_bytes k b) s' fl'"
proof -
  obtain s' fl' where "deallocate s b k = Some (Ok (), s')" "owns mode_Sv48 g s' fl' held" "frees mode_Sv48 g s fl (block_bytes k b) s' fl'"
    using owns_deallocate [OF assms(1)] by blast
  then show ?thesis
    using assms(2-5) by (auto simp: PhysicalAllocator_deallocate_def page_root_def block_of_def split: option.splits)
qed

lemma block_of_frees: "frees mode_Sv48 g s fl B s' fl' \<Longrightarrow> block_of s' g ptr b \<longleftrightarrow> block_of s g ptr b"
  by (simp add: frees_def block_of_def)

lemma order_of_page_table: "order_for_size 4096 = Some 0"
proof -
  obtain k where k: "order_for_size 4096 = Some k" "\<forall>j<k. (2::nat) ^ (j + 12) < 4096" using order_for_size_spec [of 4096] by auto
  have "\<not> 0 < k" using k(2) by force
  then show ?thesis using k(1) by simp
qed

text \<open>C11: Dropping a page table while the global table is installed and not locked returns, and frees exactly what the table owned: every subtable, the root table and,
  if there is one, the buffer of the vector, each the block behind its pointer. The global table stays in order and translates as before.\<close>

theorem page_table_drop_correct:
  fixes s :: "'a kernel_scheme"
  assumes "owns mode_Sv48 g s fl (map (\<lambda>p. (p, 0)) (subtables pt) @ (r, 0) # (if sub_cap pt = 0 then [] else [(b, k)]))"
    "root_table s = Some g" "\<not> root_locked s" "block_of s g (entries pt) r"
    "0 < sub_cap pt \<Longrightarrow> block_of s g (sub_ptr pt) b \<and> 8 * sub_cap pt < 2 ^ 63 \<and> order_for_size (of_nat (8 * sub_cap pt)) = Some k"
  shows "\<exists>s' fl'. page_table_drop s pt = Some s' \<and> paging_inv mode_Sv48 s' g fl' \<and>
    free_bytes fl' = free_bytes fl \<union> (\<Union>p \<in> set (subtables pt). block_bytes 0 p) \<union> block_bytes 0 r \<union> (if sub_cap pt = 0 then {} else block_bytes k b) \<and>
    (\<forall>w. translate mode_Sv48 s' g w = translate mode_Sv48 s g w)"
proof -
  let ?m = mode_Sv48 and ?rest = "if sub_cap pt = 0 then [] else [(b, k)]"
  obtain s1 fl1 where s1: "drop_subtables s (subtables pt) = Some s1" "owns ?m g s1 fl1 ((r, 0) # ?rest)"
    "frees ?m g s fl (held_bytes (map (\<lambda>p. (p, 0)) (subtables pt))) s1 fl1" using drop_subtables_ok [OF assms(1)] by blast
  have g1: "root_table s1 = Some g" "\<not> root_locked s1" "block_of s1 g (entries pt) r" using s1(3) assms(2-4) block_of_frees [OF s1(3)] by (auto simp: frees_def)
  obtain s2 fl2 where s2: "PhysicalAllocator_deallocate s1 (entries pt) \<lparr>layout_size = 4096, layout_align = 8\<rparr> = Some s2" "owns ?m g s2 fl2 ?rest"
    "frees ?m g s1 fl1 (block_bytes 0 r) s2 fl2" using order_of_page_table allocator_deallocate_ok [OF s1(2) g1, of "\<lparr>layout_size = 4096, layout_align = 8\<rparr>"] by auto
  note f2 = frees_trans [OF s1(3) s2(3)]
  have held: "held_bytes (map (\<lambda>p. (p, 0)) (subtables pt)) = (\<Union>p \<in> set (subtables pt). block_bytes 0 p)" by (auto simp: held_bytes_def)
  show ?thesis
  proof (cases "sub_cap pt = 0")
    case True
    then have "page_table_drop s pt = Some s2" using s1(1) s2(1) by (simp add: page_table_drop_def)
    then show ?thesis using True f2 s2(2) held by (intro exI [of _ s2] exI [of _ fl2]) (auto simp: frees_def owns_def)
  next
    case False
    have g2: "root_table s2 = Some g" "\<not> root_locked s2" "block_of s2 g (sub_ptr pt) b" "order_for_size (of_nat (8 * sub_cap pt)) = Some k" "8 * sub_cap pt < 2 ^ 63"
      using f2 assms(2,3,5) block_of_frees [OF f2] False by (auto simp: frees_def)
    then obtain s3 fl3 where s3: "PhysicalAllocator_deallocate s2 (sub_ptr pt) \<lparr>layout_size = of_nat (8 * sub_cap pt), layout_align = 8\<rparr> = Some s3" "owns ?m g s3 fl3 []"
      "frees ?m g s2 fl2 (block_bytes k b) s3 fl3"
      using allocator_deallocate_ok [of g s2 fl2 b k "[]" "sub_ptr pt" "\<lparr>layout_size = of_nat (8 * sub_cap pt), layout_align = 8\<rparr>"] s2(2) False by auto
    have "page_table_drop s pt = Some s3" using s1(1) s2(1) s3(1) g2(5) False by (simp add: page_table_drop_def array_layout_def)
    then show ?thesis using False frees_trans [OF f2 s3(3)] s3(2) held by (intro exI [of _ s3] exI [of _ fl3]) (auto simp: frees_def owns_def)
  qed
qed

text \<open>An example: a table with one subtable, and an empty global table.\<close>

definition drop_kernel :: kernel where
  "drop_kernel = stack_kernel\<lparr>stats := \<lparr>name = ''Physical Memory'', allocated = 0x2000, free = 0x200000, total = 0x202000\<rparr>, root_table := Some stack_table\<rparr>"

theorem page_table_drop_correct_witness:
  "\<exists>s' fl'. page_table_drop drop_kernel (from_raw_parts 0x81001000 8 [0x81000000] 0) = Some s' \<and> paging_inv mode_Sv48 s' stack_table fl' \<and>
    free_bytes fl' = {0x80400000..<0x80600000} \<union> {0x81000000..<0x81001000} \<union> {0x81001000..<0x81002000}"
proof -
  let ?pt = "from_raw_parts 0x81001000 8 [0x81000000] 0"
  have b: "buddy_inv drop_kernel stack_lists"
    using stack_buddy unfolding buddy_inv_def stats_inv_def stack_bytes by (simp add: blocks_inv_def free_lists_def drop_kernel_def)
  have mem: "mem drop_kernel = (\<lambda>_. 0)" "phys_off drop_kernel = phys_off stack_kernel" "mem stack_kernel = (\<lambda>_. 0)" by (simp_all add: drop_kernel_def stack_kernel_def)
  have inv: "paging_inv mode_Sv48 drop_kernel stack_table stack_lists" using stack_paging b unfolding paging_inv_def mem by simp
  have "table_bytes mode_Sv48 drop_kernel stack_table = {0x90000000..<0x90001000}"
    unfolding pt_bytes_def mem tbl_zero
    by (auto simp: paths_def mode_Sv48_def table_page_def stack_table_def stack_kernel_def from_raw_parts_def KERNEL_PHYS_MEM_BASE_def HIGHER_HALF_START_def split: if_splits)
  moreover have "block_ok (phys_off drop_kernel) 0 0x81000000" "block_ok (phys_off drop_kernel) 0 0x81001000" "unat (allocated (stats drop_kernel)) = 0x2000"
    by (simp_all add: block_ok_def drop_kernel_def stack_kernel_def KERNEL_PHYS_MEM_BASE_def HIGHER_HALF_START_def)
  ultimately have "owns mode_Sv48 stack_table drop_kernel stack_lists [(0x81000000, 0), (0x81001000, 0)]"
    unfolding owns_def stack_bytes using inv by (auto simp: block_bytes_def)
  moreover have "translate mode_Sv48 drop_kernel stack_table w = Some None" for w
    using translate_walk [OF inv, of w] by (simp add: mem lookup_zero)
  then have "block_of drop_kernel stack_table 0x81001000 0x81001000" by (simp add: block_of_def)
  moreover have "root_table drop_kernel = Some stack_table" "\<not> root_locked drop_kernel" by (simp_all add: drop_kernel_def stack_kernel_def)
  ultimately obtain s' fl' where "page_table_drop drop_kernel ?pt = Some s'" "paging_inv mode_Sv48 s' stack_table fl'"
    "free_bytes fl' = {0x80400000..<0x80600000} \<union> block_bytes 0 0x81000000 \<union> block_bytes 0 0x81001000"
    using page_table_drop_correct [of stack_table drop_kernel stack_lists ?pt "0x81001000"] by (auto simp: from_raw_parts_def stack_bytes)
  then show ?thesis by (intro exI [of _ s'] exI [of _ fl']) (simp add: block_bytes_def)
qed

end
