(* ===== verification/Transition.thy ===== *)
theory Transition
  imports Main
begin

text \<open>
  Runs of a transition system, for the components whose operations interleave. A \<open>simulation\<close> relates the
  states of the code's system to the states of the system that specifies it: every step of the code is matched by steps
  (none, one or several) of the specification, so every reachable state of the code has a reachable state of the
  specification beside it, and what holds of the one holds of the other. A \<open>budget_refinement\<close> is the counterpart for operations that return a value.
\<close>

locale simulation =
  fixes cinit :: 'c
    and cstep :: "'c \<Rightarrow> 'c \<Rightarrow> bool"
    and ainit :: 'a
    and astep :: "'a \<Rightarrow> 'a \<Rightarrow> bool"
    and rel :: "'c \<Rightarrow> 'a \<Rightarrow> bool"
  assumes init_rel: "rel cinit ainit"
    and step_rel: "rel c a \<Longrightarrow> cstep c c' \<Longrightarrow> \<exists>a'. astep\<^sup>*\<^sup>* a a' \<and> rel c' a'"
begin

lemma run_rel:
  assumes "cstep\<^sup>*\<^sup>* c c'" "rel c a"
  shows "\<exists>a'. astep\<^sup>*\<^sup>* a a' \<and> rel c' a'"
  using assms
proof (induction rule: rtranclp_induct)
  case (step y z)
  then obtain b where b: "astep\<^sup>*\<^sup>* a b" "rel y b" by blast
  from step_rel [OF b(2) step.hyps(2)] obtain d where "astep\<^sup>*\<^sup>* b d" "rel z d" by blast
  then show ?case using b(1) by (meson rtranclp_trans)
qed blast

lemma reachable_rel: "cstep\<^sup>*\<^sup>* cinit c \<Longrightarrow> \<exists>a. astep\<^sup>*\<^sup>* ainit a \<and> rel c a"
  using run_rel init_rel by blast

lemma reachable_property:
  assumes "cstep\<^sup>*\<^sup>* cinit c" "\<And>c a. rel c a \<Longrightarrow> Q c"
  shows "Q c"
  using reachable_rel [OF assms(1)] assms(2) by blast

end

section \<open>Operations that consume a budget\<close>

text \<open>
  A component whose operations refine those of a specification as long as its resources last: \<open>cost\<close> is what an operation may use up, and
  \<open>ok n\<close> holds of the states that have \<open>n\<close> left.
\<close>

fun run_ops :: "('s \<Rightarrow> 'op \<Rightarrow> ('out \<times> 's) option) \<Rightarrow> 's \<Rightarrow> 'op list \<Rightarrow> ('out list \<times> 's) option" where
  "run_ops step_of s [] = Some ([], s)"
| "run_ops step_of s (x # xs) = (case step_of s x of None \<Rightarrow> None | Some (y, s1) \<Rightarrow> map_option (\<lambda>(ys, s2). (y # ys, s2)) (run_ops step_of s1 xs))"

fun run_spec :: "('a \<Rightarrow> 'op \<Rightarrow> 'out \<times> 'a) \<Rightarrow> 'a \<Rightarrow> 'op list \<Rightarrow> 'out list \<times> 'a" where
  "run_spec spec a [] = ([], a)"
| "run_spec spec a (x # xs) = (let (y, a1) = spec a x; (ys, a2) = run_spec spec a1 xs in (y # ys, a2))"

locale budget_refinement =
  fixes step_of :: "'s \<Rightarrow> 'op \<Rightarrow> ('out \<times> 's) option" and spec :: "'a \<Rightarrow> 'op \<Rightarrow> 'out \<times> 'a" and abs_of :: "'s \<Rightarrow> 'a"
    and ok :: "nat \<Rightarrow> 's \<Rightarrow> bool" and adm :: "'op \<Rightarrow> bool" and cost :: "'op \<Rightarrow> nat"
  assumes step_spec: "ok (cost x + n) s \<Longrightarrow> adm x \<Longrightarrow> spec (abs_of s) x = (y, a) \<Longrightarrow> \<exists>s'. step_of s x = Some (y, s') \<and> ok n s' \<and> abs_of s' = a"
begin

lemma run_refines:
  assumes "ok (sum_list (map cost xs) + n) s" "\<forall>x \<in> set xs. adm x" "run_spec spec (abs_of s) xs = (ys, a)"
  shows "\<exists>s'. run_ops step_of s xs = Some (ys, s') \<and> ok n s' \<and> abs_of s' = a"
  using assms
proof (induction xs arbitrary: s ys)
  case (Cons x xs)
  obtain y a1 zs where sp: "spec (abs_of s) x = (y, a1)" "run_spec spec a1 xs = (zs, a)" "ys = y # zs"
    using Cons.prems(3) by (auto split: prod.splits)
  have "ok (cost x + (sum_list (map cost xs) + n)) s" "adm x" using Cons.prems(1,2) by (simp_all add: add.assoc)
  then obtain s1 where s1: "step_of s x = Some (y, s1)" "ok (sum_list (map cost xs) + n) s1" "abs_of s1 = a1" using step_spec sp(1) by blast
  then show ?case using Cons.IH [OF s1(2) _ sp(2) [folded s1(3)]] Cons.prems(2) sp(3) by auto
qed simp

end

end
