(* ===== verification/Page_Refine.thy ===== *)
theory Page_Refine
  imports Page_Frame Transition
begin

text \<open>
  A page table as an address map. The specification is a function from the addresses of the address space to what they translate to; \<open>map\<close> and
  \<open>unmap\<close> update it and \<open>translate\<close> reads it. A sequence of operations on the tables in memory returns what the same sequence returns on
  the map, as long as the vector of subtables has room and there is memory for the tables.
\<close>

section \<open>Address maps\<close>

type_synonym addr_map = "usize \<Rightarrow> (usize \<times> page_size \<times> u8) option"

datatype pt_op = MapOp usize usize page_size u8 | UnmapOp usize | TranslateOp usize
datatype pt_out = MapOut "(unit, page_error) result" | UnmapOut "(bool, page_error) result" | TranslateOut "(usize \<times> page_size \<times> u8) option"

text \<open>The operations on an address map. Mapping a page replaces the smaller pages in it.\<close>

fun map_step :: "paging_mode \<Rightarrow> addr_map \<Rightarrow> pt_op \<Rightarrow> pt_out \<times> addr_map" where
  "map_step m A (MapOp p v sz f) =
     (if MAX_ADDRESS m \<le> v then (MapOut (Err InvalidAddress), A)
      else if \<not> is_aligned sz p \<or> \<not> is_aligned sz v then (MapOut (Err UnalignedAddress), A)
      else if (case A v of None \<Rightarrow> False | Some (_, z, _) \<Rightarrow> vpn_idx sz \<le> vpn_idx z) then (MapOut (Err AlreadyMapped), A)
      else (MapOut (Ok ()), \<lambda>w. if w \<le> MAX_ADDRESS m \<and> in_page sz v w then Some (p + (w - v), sz, f) else A w))"
| "map_step m A (UnmapOp v) =
     (case A v of
        None \<Rightarrow> (UnmapOut (Ok False), A)
      | Some (_, z, _) \<Rightarrow> (UnmapOut (Ok True), \<lambda>w. if unat w div unat (size_bytes z) = unat v div unat (size_bytes z) then None else A w))"
| "map_step m A (TranslateOp v) = (TranslateOut (A v), A)"

text \<open>The operations of the code on the tables.\<close>

fun pt_step :: "paging_mode \<Rightarrow> page_table \<times> 'a kernel_scheme \<Rightarrow> pt_op \<Rightarrow> (pt_out \<times> page_table \<times> 'a kernel_scheme) option" where
  "pt_step m (pt, s) (MapOp p v sz f) = do { (r, pt', s') \<leftarrow> map_page m s pt p v sz f; Some (MapOut r, pt', s') }"
| "pt_step m (pt, s) (UnmapOp v) = do { (r, s') \<leftarrow> unmap m s pt v; Some (UnmapOut r, pt, s') }"
| "pt_step m (pt, s) (TranslateOp v) = do { t \<leftarrow> translate m s pt v; Some (TranslateOut t, pt, s) }"

fun op_ok :: "paging_mode \<Rightarrow> pt_op \<Rightarrow> bool" where
  "op_ok m (MapOp p v sz f) \<longleftrightarrow> sz \<noteq> Terapage \<and> flags_ok f \<and> f \<noteq> 0"
| "op_ok m (UnmapOp v) \<longleftrightarrow> v \<le> MAX_ADDRESS m"
| "op_ok m (TranslateOp v) \<longleftrightarrow> v \<le> MAX_ADDRESS m"

fun op_maps :: "pt_op \<Rightarrow> nat" where
  "op_maps (MapOp _ _ _ _) = 1"
| "op_maps _ = 0"

definition map_of_table :: "paging_mode \<Rightarrow> page_table \<times> 'a kernel_scheme \<Rightarrow> addr_map" where
  "map_of_table m = (\<lambda>(pt, s) w. if w \<le> MAX_ADDRESS m then the (translate m s pt w) else None)"

definition table_room :: "paging_mode \<Rightarrow> nat \<Rightarrow> page_table \<times> 'a kernel_scheme \<Rightarrow> bool" where
  "table_room m n = (\<lambda>(pt, s). mode_ok m \<and>
     (\<exists>fl. paging_inv m s pt fl \<and> length (subtables pt) + 3 * n \<le> sub_cap pt \<and> 4096 * 3 * n < card (free_bytes fl)))"

lemma map_of_tableI:
  assumes "\<And>w. w \<le> MAX_ADDRESS m \<Longrightarrow> translate m s pt w = Some (A w)" "\<And>w. \<not> w \<le> MAX_ADDRESS m \<Longrightarrow> A w = None"
  shows "map_of_table m (pt, s) = A"
  using assms by (auto simp: map_of_table_def)

lemma translate_map:
  assumes "paging_inv m s pt fl" "w \<le> MAX_ADDRESS m"
  shows "translate m s pt w = Some (map_of_table m (pt, s) w)"
  using assms(2) by (simp add: map_of_table_def translate_walk [OF assms(1)])

section \<open>The refinement\<close>

lemma map_op_refines:
  fixes s :: "'a kernel_scheme"
  assumes "table_room m (Suc n) (pt, s)" "op_ok m (MapOp p v sz f)" "map_step m (map_of_table m (pt, s)) (MapOp p v sz f) = (y, A)"
  shows "\<exists>t. pt_step m (pt, s) (MapOp p v sz f) = Some (y, t) \<and> table_room m n t \<and> map_of_table m t = A"
proof -
  let ?A = "map_of_table m (pt, s)"
  obtain fl where fl: "mode_ok m" "paging_inv m s pt fl" "length (subtables pt) + 3 * Suc n \<le> sub_cap pt" "4096 * 3 * Suc n < card (free_bytes fl)"
    using assms(1) by (auto simp: table_room_def)
  have room: "length (subtables pt) + 3 \<le> sub_cap pt" and f: "sz \<noteq> Terapage" "flags_ok f" "f \<noteq> 0" using fl(3) assms(2) by simp_all
  obtain r pt' s' fl' where r: "map_page m s pt p v sz f = Some (r, pt', s')" "paging_inv m s' pt' fl'" "accounts m s pt fl s' pt' fl'"
    "map_outcome m s pt p v sz f r pt' s' fl'" using map_page_spec [OF fl(2,1) f room, of p v] by blast
  have left: "length (subtables pt') + 3 * n \<le> sub_cap pt'" "4096 * 3 * n < card (free_bytes fl')" using r(3) fl(3,4) by (auto simp: accounts_def)
  then have "table_room m n (pt', s')" using fl(1) r(2) by (auto simp: table_room_def)
  moreover note tv = translate_map [OF fl(2)]
  have "y = MapOut r \<and> map_of_table m (pt', s') = A"
  proof (cases r)
    case (Ok u)
    then have ok: "\<not> MAX_ADDRESS m \<le> v" "is_aligned sz p" "is_aligned sz v" "\<And>q z g. translate m s pt v = Some (Some (q, z, g)) \<Longrightarrow> vpn_idx z < vpn_idx sz"
      "\<And>w. w\<le>MAX_ADDRESS m \<Longrightarrow> translate m s' pt' w = (if in_page sz v w then Some (Some (p + (w - v), sz, f)) else translate m s pt w)"
      using r(4) by (auto simp: map_outcome_def)
    have "\<not> (case ?A v of None \<Rightarrow> False | Some (_, z, _) \<Rightarrow> vpn_idx sz \<le> vpn_idx z)"
      using ok(1,4) tv [of v] by (auto split: option.splits)
    then have "y = MapOut (Ok ())" "A = (\<lambda>w. if w \<le> MAX_ADDRESS m \<and> in_page sz v w then Some (p + (w - v), sz, f) else ?A w)"
      using assms(3) ok(1-3) by simp_all
    moreover have "map_of_table m (pt', s') = A" unfolding calculation(2) using ok(5) tv by (intro map_of_tableI) (auto simp: map_of_table_def)
    ultimately show ?thesis using Ok by simp
  next
    case (Err e)
    then have same: "map_of_table m (pt', s') = ?A" using r(4) by (auto simp: map_outcome_def map_of_table_def)
    have "free_bytes fl' \<noteq> {}" using left(2) by auto
    moreover have "?A v = Some x" if "v < MAX_ADDRESS m" "translate m s pt v = Some (Some x)" for x using tv [of v] that by simp
    ultimately show ?thesis
      using r(4) assms(3) unfolding Err same map_outcome_def by (auto simp: not_le split: page_error.splits if_splits)
  qed
  ultimately show ?thesis using r(1) by auto
qed

lemma unmap_op_refines:
  fixes s :: "'a kernel_scheme"
  assumes "table_room m n (pt, s)" "v \<le> MAX_ADDRESS m" "map_step m (map_of_table m (pt, s)) (UnmapOp v) = (y, A)"
  shows "\<exists>t. pt_step m (pt, s) (UnmapOp v) = Some (y, t) \<and> table_room m n t \<and> map_of_table m t = A"
proof -
  let ?A = "map_of_table m (pt, s)"
  obtain fl where fl: "mode_ok m" "paging_inv m s pt fl" "length (subtables pt) + 3 * n \<le> sub_cap pt" "4096 * 3 * n < card (free_bytes fl)"
    using assms(1) by (auto simp: table_room_def)
  note tv = translate_map [OF fl(2)] and um = unmap_spec [OF fl(2,1) assms(2)]
  show ?thesis
  proof (cases "?A v")
    case None
    then have "unmap m s pt v = Some (Ok False, s)" using um tv [OF assms(2)] by simp
    then show ?thesis using None assms(1,3) by simp
  next
    case (Some x)
    obtain q z g where x: "x = (q, z, g)" by (cases x)
    then obtain s' where s': "unmap m s pt v = Some (Ok True, s')" "paging_inv m s' pt fl"
      "\<And>w. w\<le>MAX_ADDRESS m \<Longrightarrow> translate m s' pt w =
        (if unat w div unat (size_bytes z) = unat v div unat (size_bytes z) then Some None else translate m s pt w)"
      using um tv [OF assms(2)] Some by auto
    have y: "y = UnmapOut (Ok True)" "A = (\<lambda>w. if unat w div unat (size_bytes z) = unat v div unat (size_bytes z) then None else ?A w)"
      using assms(3) Some x by simp_all
    have "map_of_table m (pt, s') = A" unfolding y(2) using s'(3) tv by (intro map_of_tableI) (auto simp: map_of_table_def)
    moreover have "table_room m n (pt, s')" using fl s'(2) by (auto simp: table_room_def)
    ultimately show ?thesis using s'(1) y(1) by simp
  qed
qed

interpretation paging: budget_refinement "pt_step m" "map_step m" "map_of_table m" "table_room m" "op_ok m" op_maps for m
proof
  fix x n t y A
  assume t: "table_room m (op_maps x + n) t" "op_ok m x" "map_step m (map_of_table m t) x = (y, A)"
  obtain pt s where ts: "t = (pt, s)" by (cases t)
  show "\<exists>t'. pt_step m t x = Some (y, t') \<and> table_room m n t' \<and> map_of_table m t' = A"
  proof (cases x)
    case (MapOp p v sz f)
    then show ?thesis using map_op_refines [of m n pt s p v sz f y A] t ts by simp
  next
    case (UnmapOp v)
    then show ?thesis using unmap_op_refines [of m n pt s v y A] t ts by simp
  next
    case (TranslateOp v)
    then obtain fl where "paging_inv m s pt fl" using t ts by (auto simp: table_room_def)
    from translate_map [OF this] show ?thesis using TranslateOp t ts by auto
  qed
qed

text \<open>C9: A page table behaves like an address map: any sequence of \<open>map\<close>, \<open>unmap\<close> and \<open>translate\<close> on the tables in memory returns, call by call, what the
  same sequence returns on the function from addresses to translations, and ends with the tables that translate every address of the
  address space as that function does. Three free entries in the vector of subtables and three free pages of memory per \<open>map\<close> are enough.\<close>

theorem page_table_refines_map:
  fixes s :: "'a kernel_scheme"
  assumes "paging_inv m s pt fl" "mode_ok m" "\<forall>x \<in> set xs. op_ok m x"
    "length (subtables pt) + 3 * sum_list (map op_maps xs) \<le> sub_cap pt" "4096 * 3 * sum_list (map op_maps xs) < card (free_bytes fl)"
    "\<And>w. w \<le> MAX_ADDRESS m \<Longrightarrow> translate m s pt w = Some (A w)" "\<And>w. MAX_ADDRESS m < w \<Longrightarrow> A w = None"
  shows "\<exists>pt' s'. run_ops (pt_step m) (pt, s) xs = Some (fst (run_spec (map_step m) A xs), pt', s') \<and>
    (\<exists>fl'. paging_inv m s' pt' fl') \<and> (\<forall>w\<le>MAX_ADDRESS m. translate m s' pt' w = Some (snd (run_spec (map_step m) A xs) w))"
proof -
  have A: "map_of_table m (pt, s) = A" using assms(6,7) by (intro map_of_tableI) (simp_all add: not_le)
  have "table_room m (sum_list (map op_maps xs) + 0) (pt, s)" using assms(1,2,4,5) by (auto simp: table_room_def)
  from paging.run_refines [OF this assms(3)] obtain pt' s' where r: "run_ops (pt_step m) (pt, s) xs = Some (fst (run_spec (map_step m) A xs), pt', s')"
    "table_room m 0 (pt', s')" "map_of_table m (pt', s') = snd (run_spec (map_step m) A xs)" unfolding A by (metis prod.collapse)
  then obtain fl' where "paging_inv m s' pt' fl'" by (auto simp: table_room_def)
  then show ?thesis using r translate_map by metis
qed

theorem page_table_refines_map_witness:
  "\<exists>pt' s'. run_ops (pt_step mode_Sv48) (stack_table, stack_kernel)
      [MapOp 0x80000000 0x1000 Kilopage FLAG_READ, TranslateOp 0x1234, UnmapOp 0x1FFF, TranslateOp 0x1234] =
    Some ([MapOut (Ok ()), TranslateOut (Some (0x80000234, Kilopage, FLAG_READ)), UnmapOut (Ok True), TranslateOut None], pt', s')"
proof -
  let ?xs = "[MapOp 0x80000000 0x1000 Kilopage FLAG_READ, TranslateOp 0x1234, UnmapOp 0x1FFF, TranslateOp 0x1234]"
  have "mode_ok mode_Sv48" "\<forall>x \<in> set ?xs. op_ok mode_Sv48 x" "length (subtables stack_table) + 3 * sum_list (map op_maps ?xs) \<le> sub_cap stack_table"
    "4096 * 3 * sum_list (map op_maps ?xs) < card (free_bytes stack_lists)"
    by (simp_all add: mode_ok_def flags_ok_def FLAG_READ_def bit_0 mode_Sv48_def stack_table_def from_raw_parts_def stack_bytes)
  from page_table_refines_map [OF stack_paging this, of "\<lambda>_. None"] stack_unmapped
  obtain pt' s' where "run_ops (pt_step mode_Sv48) (stack_table, stack_kernel) ?xs = Some (fst (run_spec (map_step mode_Sv48) (\<lambda>_. None) ?xs), pt', s')" by blast
  moreover have "fst (run_spec (map_step mode_Sv48) (\<lambda>_. None) ?xs) =
      [MapOut (Ok ()), TranslateOut (Some (0x80000234, Kilopage, FLAG_READ)), UnmapOut (Ok True), TranslateOut None]"
    by (simp add: mode_Sv48_def is_aligned_def KIB_def in_page_def)
  ultimately show ?thesis by auto
qed

end
