(* ===== verification/Fdt_Parse.thy ===== *)
theory Fdt_Parse
  imports Prelude
begin

text \<open>
  \<open>crates/devicetree/src/parse.rs\<close> and the byte helpers of \<open>crates/devicetree/src/lib.rs\<close>. A slice is a list of
  bytes and a \<open>str\<close> the list of its UTF-8 bytes; lengths of slices are \<^typ>\<open>nat\<close>. Slicing out of range panics.
  An iterator's \<open>next\<close> returns the item together with the rest of the buffer it then holds, also
  where it returns \<open>None\<close> after consuming part of the buffer.
\<close>

type_synonym bytes = "u8 list"

section \<open>Slices and big endian numbers\<close>

definition slice_to :: "bytes \<Rightarrow> nat \<Rightarrow> bytes option" where
  "slice_to b n = (if n \<le> length b then Some (take n b) else None)"

definition slice_from :: "bytes \<Rightarrow> nat \<Rightarrow> bytes option" where
  "slice_from b n = (if n \<le> length b then Some (drop n b) else None)"

definition slice :: "bytes \<Rightarrow> nat \<Rightarrow> nat \<Rightarrow> bytes option" where
  "slice b i j = (if i \<le> j \<and> j \<le> length b then Some (take (j - i) (drop i b)) else None)"

definition be_num :: "bytes \<Rightarrow> nat" where
  "be_num b = foldl (\<lambda>n x. n * 256 + unat x) 0 b"

definition u32_from_be :: "bytes \<Rightarrow> u32 option" where
  "u32_from_be b = (if length b = 4 then Some (of_nat (be_num b)) else None)"

definition u64_from_be :: "bytes \<Rightarrow> u64 option" where
  "u64_from_be b = (if length b = 8 then Some (of_nat (be_num b)) else None)"

text \<open>\<open>memchr\<close>: \<open>haystack.iter().position(|&x| x == needle)\<close>.\<close>

fun memchr :: "u8 \<Rightarrow> bytes \<Rightarrow> nat option" where
  "memchr needle [] = None"
| "memchr needle (x # xs) = (if x = needle then Some 0 else map_option Suc (memchr needle xs))"

definition dt_align_up :: "usize \<Rightarrow> usize \<Rightarrow> usize option" where
  "dt_align_up val alignment =
     do { m \<leftarrow> sub_chk alignment 1;
          up \<leftarrow> add_chk val m;
          Some (up AND NOT m) }"

definition next_str :: "bytes \<Rightarrow> bytes option" where
  "next_str b = (case memchr 0 b of None \<Rightarrow> None | Some nul_pos \<Rightarrow> Some (take nul_pos b))"

text \<open>\<open>core::str::from_utf8\<close>: the well-formed byte sequences of the Unicode standard (table 3-7).\<close>

definition cont :: "u8 \<Rightarrow> bool" where
  "cont b \<longleftrightarrow> 0x80 \<le> b \<and> b \<le> 0xBF"

fun utf8_valid :: "bytes \<Rightarrow> bool" where
  "utf8_valid [] = True"
| "utf8_valid (a # r) =
    (if a \<le> 0x7F then utf8_valid r
     else if 0xC2 \<le> a \<and> a \<le> 0xDF then (case r of b # r1 \<Rightarrow> cont b \<and> utf8_valid r1 | _ \<Rightarrow> False)
     else if 0xE0 \<le> a \<and> a \<le> 0xEF then
       (case r of b # c # r2 \<Rightarrow> cont b \<and> cont c \<and> (a = 0xE0 \<longrightarrow> 0xA0 \<le> b) \<and> (a = 0xED \<longrightarrow> b \<le> 0x9F) \<and> utf8_valid r2
        | _ \<Rightarrow> False)
     else if 0xF0 \<le> a \<and> a \<le> 0xF4 then
       (case r of b # c # d # r3 \<Rightarrow> cont b \<and> cont c \<and> cont d \<and> (a = 0xF0 \<longrightarrow> 0x90 \<le> b) \<and> (a = 0xF4 \<longrightarrow> b \<le> 0x8F) \<and> utf8_valid r3
        | _ \<Rightarrow> False)
     else False)"

definition next_str_checked :: "bytes \<Rightarrow> bytes option" where
  "next_str_checked b = (case memchr 0 b of
     None \<Rightarrow> None
   | Some nul_pos \<Rightarrow>
       let s = take nul_pos b in
       if utf8_valid s \<and> s \<noteq> [] then Some s else None)"

section \<open>Tokens\<close>

definition FDT_BEGIN_NODE :: u32 where "FDT_BEGIN_NODE = 1"
definition FDT_END_NODE :: u32 where "FDT_END_NODE = 2"
definition FDT_PROP :: u32 where "FDT_PROP = 3"
definition FDT_NOP :: u32 where "FDT_NOP = 4"

text \<open>\<open>Property data name_off\<close> and \<open>BeginNode name\<close> carry the fields of \<open>PropertyToken\<close> and \<open>BeginNodeToken\<close>.\<close>

datatype token = BeginNode bytes | Property bytes nat | EndNode

definition next_u32 :: "bytes \<Rightarrow> u32 option \<times> bytes" where
  "next_u32 buf =
     (if length buf < 4 then (None, buf) else (u32_from_be (take 4 buf), drop 4 buf))"

lemma next_u32_short: "next_u32 buf = (Some x, rest) \<Longrightarrow> length rest < length buf"
  by (auto simp: next_u32_def split: if_splits)

function token_next :: "bytes \<Rightarrow> (token option \<times> bytes) option" where
  "token_next buf =
     (case next_u32 buf of
        (None, b) \<Rightarrow> Some (None, b)
      | (Some tok, b) \<Rightarrow>
          if tok = FDT_BEGIN_NODE then
            (case next_str b of
               None \<Rightarrow> Some (None, b)
             | Some nm \<Rightarrow> do {
                 len \<leftarrow> dt_align_up (of_nat (length nm + 1)) 4;
                 b' \<leftarrow> slice_from b (unat len);
                 Some (Some (BeginNode nm), b') })
          else if tok = FDT_PROP then
            (case next_u32 b of
               (None, b1) \<Rightarrow> Some (None, b1)
             | (Some len, b1) \<Rightarrow>
                 (case next_u32 b1 of
                    (None, b2) \<Rightarrow> Some (None, b2)
                  | (Some name_off, b2) \<Rightarrow> do {
                      data \<leftarrow> slice_to b2 (unat len);
                      len' \<leftarrow> dt_align_up (ucast len) 4;
                      b3 \<leftarrow> slice_from b2 (unat len');
                      Some (Some (Property data (unat name_off)), b3) }))
          else if tok = FDT_END_NODE then Some (Some EndNode, b)
          else if tok = FDT_NOP then token_next b
          else Some (None, b))"
  by pat_completeness auto
termination
  by (relation "measure length") (auto dest!: next_u32_short [OF sym])

declare token_next.simps [simp del]

lemmas [exec_defs] = slice_to_def slice_from_def slice_def be_num_def u32_from_be_def u64_from_be_def dt_align_up_def
  next_str_def next_str_checked_def cont_def FDT_BEGIN_NODE_def FDT_END_NODE_def FDT_PROP_def FDT_NOP_def next_u32_def
  token_next.simps

lemma slice_from_length: "slice_from b n = Some b' \<Longrightarrow> length b' \<le> length b"
  by (auto simp: slice_from_def split: if_splits)

lemma token_next_shorter: "token_next buf = Some (Some t, rest) \<Longrightarrow> length rest < length buf"
proof (induction buf rule: measure_induct_rule [of length])
  case (less buf)
  obtain tok b where b: "next_u32 buf = (tok, b)" by fastforce
  show ?case
  proof (cases "tok = Some FDT_NOP")
    case True
    then have "token_next buf = token_next b"
      using b by (subst token_next.simps) (simp add: FDT_NOP_def FDT_BEGIN_NODE_def FDT_PROP_def FDT_END_NODE_def)
    then show ?thesis using less.IH [of b] less.prems next_u32_short [of buf] b True by force
  next
    case False
    then show ?thesis
      using less.prems b by (subst (asm) token_next.simps)
        (auto split: prod.splits option.splits if_splits bind_splits dest!: next_u32_short slice_from_length)
  qed
qed

end
