(* ===== verification/Fdt_Tree.thy ===== *)
theory Fdt_Tree
  imports Fdt_Parse
begin

text \<open>
  \<open>crates/devicetree/src/lib.rs\<close>: the header, \<open>find_node\<close>, \<open>find_nodes\<close>, the node iterator and the memory
  reservations. A \<open>DeviceTree\<close> is its buffer. Nesting levels are \<open>u8\<close> with overflow checks. A \<open>Node\<close> holds the
  buffer that follows its begin token; the reference to its tree is an argument of the functions that need it.
\<close>

definition MAGIC :: u32 where "MAGIC = 0xD00DFEED"

type_synonym phandle = u32

record device_tree =
  buf :: bytes

section \<open>Construction and header\<close>

text \<open>\<open>from_ptr\<close> reads the bytes of memory; the aligned 32-bit reads are four bytes each.\<close>

definition read_bytes :: "(usize \<Rightarrow> u8) \<Rightarrow> usize \<Rightarrow> nat \<Rightarrow> bytes" where
  "read_bytes bm ptr n = map (\<lambda>i. bm (ptr + of_nat i)) [0..<n]"

definition from_ptr :: "(usize \<Rightarrow> u8) \<Rightarrow> usize \<Rightarrow> device_tree option" where
  "from_ptr bm ptr =
     (if u32_from_be (read_bytes bm ptr 4) \<noteq> Some MAGIC then None
      else do {
        size \<leftarrow> u32_from_be (read_bytes bm (ptr + 4) 4);
        Some \<lparr>buf = read_bytes bm ptr (unat size)\<rparr> })"

text \<open>\<open>copy_to_slice\<close>: the new tree keeps the whole target slice.\<close>

definition copy_to_slice :: "device_tree \<Rightarrow> bytes \<Rightarrow> device_tree option" where
  "copy_to_slice t target =
     (if length (buf t) \<le> length target then Some \<lparr>buf = buf t @ drop (length (buf t)) target\<rparr> else None)"

definition u32_at :: "device_tree \<Rightarrow> nat \<Rightarrow> u32 option" where
  "u32_at t idx = do { b \<leftarrow> slice (buf t) (idx * 4) (idx * 4 + 4); u32_from_be b }"

definition total_size :: "device_tree \<Rightarrow> u32 option" where "total_size t = u32_at t 1"
definition struct_offset :: "device_tree \<Rightarrow> u32 option" where "struct_offset t = u32_at t 2"
definition strings_offset :: "device_tree \<Rightarrow> u32 option" where "strings_offset t = u32_at t 3"
definition mem_rsv_offset :: "device_tree \<Rightarrow> u32 option" where "mem_rsv_offset t = u32_at t 4"
definition dt_version :: "device_tree \<Rightarrow> u32 option" where "dt_version t = u32_at t 5"
definition last_comp_version :: "device_tree \<Rightarrow> u32 option" where "last_comp_version t = u32_at t 6"
definition boot_cpu :: "device_tree \<Rightarrow> u32 option" where "boot_cpu t = u32_at t 7"
definition strings_size :: "device_tree \<Rightarrow> u32 option" where "strings_size t = u32_at t 8"
definition struct_size :: "device_tree \<Rightarrow> u32 option" where "struct_size t = u32_at t 9"

definition tokens :: "device_tree \<Rightarrow> bytes option" where
  "tokens t = do { start \<leftarrow> struct_offset t; size \<leftarrow> struct_size t;
     slice (buf t) (unat start) (unat start + unat size) }"

text \<open>\<open>string_at\<close>; the inner option is the result, and \<open>get\<close> does not panic.\<close>

definition string_at :: "device_tree \<Rightarrow> nat \<Rightarrow> bytes option option" where
  "string_at t off =
     do { start \<leftarrow> strings_offset t;
          Some (case slice_from (buf t) (unat start + off) of None \<Rightarrow> None | Some b \<Rightarrow> next_str b) }"

section \<open>Finding nodes\<close>

record node =
  node_name :: bytes
  node_level :: u8
  node_children :: bytes

text \<open>\<open>str::split_terminator('/')\<close>\<close>

fun split_on :: "u8 \<Rightarrow> bytes \<Rightarrow> bytes list" where
  "split_on c [] = [[]]"
| "split_on c (x # xs) = (if x = c then [] # split_on c xs
     else (case split_on c xs of y # ys \<Rightarrow> (x # y) # ys | [] \<Rightarrow> [[x]]))"

definition split_terminator :: "u8 \<Rightarrow> bytes \<Rightarrow> bytes list" where
  "split_terminator c s = (let ps = split_on c s in if last ps = [] then butlast ps else ps)"

definition SLASH :: u8 where "SLASH = 0x2F"

definition starts_with :: "bytes \<Rightarrow> bytes \<Rightarrow> bool" where
  "starts_with nm part \<longleftrightarrow> take (length part) nm = part"

function find_node_loop :: "bytes \<Rightarrow> bytes list \<Rightarrow> u8 \<Rightarrow> u8 \<Rightarrow> node option option" where
  "find_node_loop iter path nesting looking =
     (case token_next iter of
        None \<Rightarrow> None
      | Some (None, _) \<Rightarrow> Some None
      | Some (Some (BeginNode nm), iter') \<Rightarrow> do {
          let level = nesting;
          nesting' \<leftarrow> add_chk nesting 1;
          if nesting' \<noteq> looking then find_node_loop iter' path nesting' looking
          else (case path of
             [] \<Rightarrow> Some None
           | next_part # path' \<Rightarrow>
               if \<not> starts_with nm next_part then find_node_loop iter' path nesting' looking
               else if path' = [] then Some (Some \<lparr>node_name = nm, node_level = level, node_children = iter'\<rparr>)
               else do {
                 looking' \<leftarrow> add_chk looking 1;
                 find_node_loop iter' path' nesting' looking' }) }
      | Some (Some EndNode, iter') \<Rightarrow> do {
          nesting' \<leftarrow> sub_chk nesting 1;
          l \<leftarrow> sub_chk looking 1;
          if nesting' < l then Some None else find_node_loop iter' path nesting' looking }
      | Some (Some (Property _ _), iter') \<Rightarrow> find_node_loop iter' path nesting looking)"
  by pat_completeness auto
termination
  by (relation "measure (\<lambda>(iter, path, nesting, looking). length iter)") (auto dest!: token_next_shorter)

declare find_node_loop.simps [simp del]

definition find_node :: "device_tree \<Rightarrow> bytes \<Rightarrow> node option option" where
  "find_node t path = do { iter \<leftarrow> tokens t; find_node_loop iter (split_terminator SLASH path) 0 1 }"

text \<open>The state captured by the closure of \<open>find_nodes\<close>, and one call of it.\<close>

record finder =
  f_path :: "bytes list"
  f_nesting :: u8
  f_looking :: u8
  f_iter :: bytes
  f_last :: "bytes option"

definition find_nodes :: "device_tree \<Rightarrow> bytes \<Rightarrow> finder option" where
  "find_nodes t path = do { iter \<leftarrow> tokens t;
     Some \<lparr>f_path = split_terminator SLASH path, f_nesting = 0, f_looking = 1, f_iter = iter, f_last = None\<rparr> }"

function find_nodes_next :: "finder \<Rightarrow> (node option \<times> finder) option" where
  "find_nodes_next f =
     (case token_next (f_iter f) of
        None \<Rightarrow> None
      | Some (None, iter') \<Rightarrow> Some (None, f\<lparr>f_iter := iter'\<rparr>)
      | Some (Some (BeginNode nm), iter') \<Rightarrow> do {
          let level = f_nesting f;
          nesting' \<leftarrow> add_chk (f_nesting f) 1;
          let f1 = f\<lparr>f_iter := iter', f_nesting := nesting'\<rparr>;
          if nesting' \<noteq> f_looking f then find_nodes_next f1
          else (case (case f_path f of p # _ \<Rightarrow> Some p | [] \<Rightarrow> f_last f) of
             None \<Rightarrow> Some (None, f1)
           | Some next_part \<Rightarrow>
               if \<not> starts_with nm next_part then find_nodes_next f1
               else (let f2 = f1\<lparr>f_path := tl (f_path f)\<rparr> in
                 if tl (f_path f) = [] then
                   Some (Some \<lparr>node_name = nm, node_level = level, node_children = iter'\<rparr>, f2\<lparr>f_last := Some next_part\<rparr>)
                 else do {
                   looking' \<leftarrow> add_chk (f_looking f) 1;
                   find_nodes_next (f2\<lparr>f_looking := looking'\<rparr>) })) }
      | Some (Some EndNode, iter') \<Rightarrow> do {
          nesting' \<leftarrow> sub_chk (f_nesting f) 1;
          l \<leftarrow> sub_chk (f_looking f) 1;
          let f1 = f\<lparr>f_iter := iter', f_nesting := nesting'\<rparr>;
          if nesting' < l then Some (None, f1) else find_nodes_next f1 }
      | Some (Some (Property _ _), iter') \<Rightarrow> find_nodes_next (f\<lparr>f_iter := iter'\<rparr>))"
  by pat_completeness auto
termination
  by (relation "measure (\<lambda>f. length (f_iter f))") (auto dest!: token_next_shorter simp: Let_def)

declare find_nodes_next.simps [simp del]

text \<open>String literals of the source as bytes.\<close>

definition str :: "string \<Rightarrow> bytes" where
  "str s = map (\<lambda>c. of_char c) s"

definition dt_root :: "device_tree \<Rightarrow> node option" where
  "dt_root t = do { r \<leftarrow> find_node t (str ''/''); r }"

definition dt_memory :: "device_tree \<Rightarrow> node option" where
  "dt_memory t = do { r \<leftarrow> find_node t (str ''/memory''); r }"

definition dt_cpus :: "device_tree \<Rightarrow> node option" where
  "dt_cpus t = do { r \<leftarrow> find_node t (str ''/cpus''); r }"

definition dt_chosen :: "device_tree \<Rightarrow> node option" where
  "dt_chosen t = do { r \<leftarrow> find_node t (str ''/chosen''); r }"

section \<open>All nodes\<close>

text \<open>\<open>Nodes::next\<close>, over the buffer and the level.\<close>

function nodes_next :: "bytes \<Rightarrow> u8 \<Rightarrow> (node option \<times> bytes \<times> u8) option" where
  "nodes_next iter level =
     (case token_next iter of
        None \<Rightarrow> None
      | Some (None, iter') \<Rightarrow> Some (None, iter', level)
      | Some (Some (BeginNode nm), iter') \<Rightarrow> do {
          level' \<leftarrow> add_chk level 1;
          Some (Some \<lparr>node_name = nm, node_level = level, node_children = iter'\<rparr>, iter', level') }
      | Some (Some EndNode, iter') \<Rightarrow> do { level' \<leftarrow> sub_chk level 1; nodes_next iter' level' }
      | Some (Some (Property _ _), iter') \<Rightarrow> nodes_next iter' level)"
  by pat_completeness auto
termination
  by (relation "measure (\<lambda>(iter, level). length iter)") (auto dest!: token_next_shorter)

declare nodes_next.simps [simp del]

section \<open>Memory reservations\<close>

record reservation =
  rsv_start :: usize
  rsv_size :: usize

definition rsv_end :: "reservation \<Rightarrow> usize option" where
  "rsv_end r = add_chk (rsv_start r) (rsv_size r)"

definition memory_reservations :: "device_tree \<Rightarrow> bytes option" where
  "memory_reservations t = do { start \<leftarrow> mem_rsv_offset t; slice_from (buf t) (unat start) }"

definition reservations_next :: "bytes \<Rightarrow> reservation option \<times> bytes" where
  "reservations_next data =
     (if length data < 8 then (None, data)
      else (let start = take 8 data; data1 = drop 8 data in
        if length data1 < 8 then (None, data1)
        else (let size = take 8 data1; data2 = drop 8 data1;
                  st = of_nat (be_num start); sz = of_nat (be_num size) in
          if st = 0 \<and> sz = 0 then (None, [])
          else (Some \<lparr>rsv_start = st, rsv_size = sz\<rparr>, data2))))"

lemmas [exec_defs] = MAGIC_def read_bytes_def from_ptr_def copy_to_slice_def u32_at_def total_size_def struct_offset_def
  strings_offset_def mem_rsv_offset_def dt_version_def last_comp_version_def boot_cpu_def strings_size_def
  struct_size_def tokens_def string_at_def split_terminator_def SLASH_def starts_with_def find_node_loop.simps find_node_def
  find_nodes_def find_nodes_next.simps dt_root_def dt_memory_def dt_cpus_def dt_chosen_def str_def nodes_next.simps
  rsv_end_def memory_reservations_def reservations_next_def

end
