(* ===== verification/Fdt_Node.thy ===== *)
theory Fdt_Node
  imports Fdt_Tree
begin

text \<open>
  \<open>crates/devicetree/src/node.rs\<close>: properties, children and regions of a node. The iterators are used
  through loops that stop at the first \<open>None\<close> (\<open>Fuse\<close> only matters after it).
\<close>

record property =
  prop_name :: bytes
  prop_data :: bytes

section \<open>Properties\<close>

definition properties_next :: "device_tree \<Rightarrow> bytes \<Rightarrow> (property option \<times> bytes) option" where
  "properties_next t iter =
     do { (tok, iter') \<leftarrow> token_next iter;
          (case tok of
             Some (Property data name_off) \<Rightarrow> do {
               nm \<leftarrow> string_at t name_off;
               Some (case nm of None \<Rightarrow> None | Some n \<Rightarrow> Some \<lparr>prop_name = n, prop_data = data\<rparr>, iter') }
           | _ \<Rightarrow> Some (None, iter')) }"

lemma properties_next_shorter: "properties_next t iter = Some (Some p, rest) \<Longrightarrow> length rest < length iter"
  by (auto simp: properties_next_def split: bind_splits option.splits token.splits dest: token_next_shorter)

text \<open>\<open>props()\<close> run to its end, and \<open>prop(name)\<close>, which stops at the first property of that name.\<close>

function props :: "device_tree \<Rightarrow> bytes \<Rightarrow> property list option" where
  "props t iter =
     (case properties_next t iter of
        None \<Rightarrow> None
      | Some (None, _) \<Rightarrow> Some []
      | Some (Some p, iter') \<Rightarrow> map_option (Cons p) (props t iter'))"
  by pat_completeness auto
termination
  by (relation "measure (\<lambda>(t, iter). length iter)") (auto dest!: properties_next_shorter)

function prop_loop :: "device_tree \<Rightarrow> bytes \<Rightarrow> bytes \<Rightarrow> property option option" where
  "prop_loop t nm iter =
     (case properties_next t iter of
        None \<Rightarrow> None
      | Some (None, _) \<Rightarrow> Some None
      | Some (Some p, iter') \<Rightarrow> if prop_name p = nm then Some (Some p) else prop_loop t nm iter')"
  by pat_completeness auto
termination
  by (relation "measure (\<lambda>(t, nm, iter). length iter)") (auto dest!: properties_next_shorter)

declare props.simps [simp del] prop_loop.simps [simp del]

definition node_prop :: "device_tree \<Rightarrow> node \<Rightarrow> bytes \<Rightarrow> property option option" where
  "node_prop t n nm = prop_loop t nm (node_children n)"

definition as_u32 :: "property \<Rightarrow> u32 option" where
  "as_u32 p = u32_from_be (prop_data p)"

definition as_u64 :: "property \<Rightarrow> u64 option" where
  "as_u64 p = u64_from_be (prop_data p)"

definition as_str :: "property \<Rightarrow> bytes option" where
  "as_str p = next_str_checked (prop_data p)"

definition as_phandle :: "property \<Rightarrow> phandle option" where
  "as_phandle p = as_u32 p"

text \<open>\<open>Strings::next\<close>; the slice it keeps is in range because a terminator follows the string.\<close>

definition strings_next :: "bytes \<Rightarrow> (bytes option \<times> bytes) option" where
  "strings_next table =
     (case next_str_checked table of
        None \<Rightarrow> Some (None, table)
      | Some s \<Rightarrow> do { rest \<leftarrow> slice_from table (length s + 1); Some (Some s, rest) })"

lemma strings_next_shorter: "strings_next table = Some (Some s, rest) \<Longrightarrow> length rest < length table"
  by (auto simp: strings_next_def slice_from_def split: option.splits bind_splits if_splits)

function strings_any :: "bytes \<Rightarrow> bytes \<Rightarrow> bool option" where
  "strings_any x table =
     (case strings_next table of
        None \<Rightarrow> None
      | Some (None, _) \<Rightarrow> Some False
      | Some (Some s, rest) \<Rightarrow> if s = x then Some True else strings_any x rest)"
  by pat_completeness auto
termination
  by (relation "measure (\<lambda>(x, table). length table)") (auto dest!: strings_next_shorter)

declare strings_any.simps [simp del]

definition compatible_with :: "device_tree \<Rightarrow> node \<Rightarrow> bytes \<Rightarrow> bool option" where
  "compatible_with t n x =
     do { p \<leftarrow> node_prop t n (str ''compatible'');
          (case p of Some p \<Rightarrow> strings_any x (prop_data p) | None \<Rightarrow> Some False) }"

section \<open>Children\<close>

function children_next :: "bytes \<Rightarrow> u8 \<Rightarrow> u8 \<Rightarrow> (node option \<times> bytes \<times> u8) option" where
  "children_next iter node_lvl nesting =
     (case token_next iter of
        None \<Rightarrow> None
      | Some (None, iter') \<Rightarrow> Some (None, iter', nesting)
      | Some (Some (BeginNode nm), iter') \<Rightarrow> do {
          let level = nesting;
          nesting' \<leftarrow> add_chk nesting 1;
          nl \<leftarrow> add_chk node_lvl 1;
          if level = nl then Some (Some \<lparr>node_name = nm, node_level = level, node_children = iter'\<rparr>, iter', nesting')
          else children_next iter' node_lvl nesting' }
      | Some (Some EndNode, iter') \<Rightarrow> do {
          nesting' \<leftarrow> sub_chk nesting 1;
          if nesting' \<le> node_lvl then Some (None, iter', nesting') else children_next iter' node_lvl nesting' }
      | Some (Some (Property _ _), iter') \<Rightarrow> children_next iter' node_lvl nesting)"
  by pat_completeness auto
termination
  by (relation "measure (\<lambda>(iter, l, n). length iter)") (auto dest!: token_next_shorter)

declare children_next.simps [simp del]

lemma children_next_shorter: "children_next iter l n = Some (Some c, rest, n') \<Longrightarrow> length rest < length iter"
proof (induction iter l n rule: children_next.induct)
  case (1 iter l n)
  obtain x where x: "token_next iter = Some x" using 1(4) by (subst (asm) children_next.simps) (auto split: option.splits)
  obtain tok iter' where t: "x = (tok, iter')" by fastforce
  show ?case
  proof (cases tok)
    case (Some a)
    have "length iter' < length iter" using x t Some token_next_shorter by blast
    then show ?thesis using 1 x t Some
      by (subst (asm) (4) children_next.simps)
        (cases a; auto split: bind_splits if_splits; fastforce)
  qed (use 1(4) x t in \<open>subst (asm) children_next.simps, simp\<close>)
qed

function children_loop :: "bytes \<Rightarrow> u8 \<Rightarrow> u8 \<Rightarrow> node list option" where
  "children_loop iter node_lvl nesting =
     (case children_next iter node_lvl nesting of
        None \<Rightarrow> None
      | Some (None, _, _) \<Rightarrow> Some []
      | Some (Some c, iter', nesting') \<Rightarrow> map_option (Cons c) (children_loop iter' node_lvl nesting'))"
  by pat_completeness auto
termination
  by (relation "measure (\<lambda>(iter, l, n). length iter)") (auto dest!: children_next_shorter)

declare children_loop.simps [simp del]

definition children :: "node \<Rightarrow> node list option" where
  "children n = do { nl \<leftarrow> add_chk (node_level n) 1; children_loop (node_children n) (node_level n) nl }"

section \<open>Regions\<close>

record region =
  reg_start :: usize
  reg_size :: usize

definition reg_end :: "region \<Rightarrow> usize option" where
  "reg_end r = add_chk (reg_start r) (reg_size r)"

text \<open>\<open>address_cells\<close> and \<open>size_cells\<close> are \<open>NonZeroU32\<close>; 0 is never stored.\<close>

record regions =
  address_cells :: "u32 option"
  size_cells :: "u32 option"
  reg_data :: bytes

definition read_num :: "u32 \<Rightarrow> bytes \<Rightarrow> (usize option \<times> bytes) option" where
  "read_num cnt data =
     (if cnt = 1 then
        Some (if length data < 4 then (None, data) else (Some (of_nat (be_num (take 4 data))), drop 4 data))
      else if cnt = 2 then
        Some (if length data < 8 then (None, data) else (Some (of_nat (be_num (take 8 data))), drop 8 data))
      else None)"

definition regions_next :: "regions \<Rightarrow> (region option \<times> regions) option" where
  "regions_next r =
     (case address_cells r of
        None \<Rightarrow> Some (None, r)
      | Some ac \<Rightarrow> do {
          (start, d1) \<leftarrow> read_num ac (reg_data r);
          (case start of
             None \<Rightarrow> Some (None, r\<lparr>reg_data := d1\<rparr>)
           | Some st \<Rightarrow>
               (case size_cells r of
                  None \<Rightarrow> Some (None, r\<lparr>reg_data := d1\<rparr>)
                | Some sc \<Rightarrow> do {
                    (size, d2) \<leftarrow> read_num sc d1;
                    Some (case size of None \<Rightarrow> None | Some sz \<Rightarrow> Some \<lparr>reg_start = st, reg_size = sz\<rparr>, r\<lparr>reg_data := d2\<rparr>) })) })"

definition nonzero_cells :: "property option \<Rightarrow> u32 option" where
  "nonzero_cells p = (case p of None \<Rightarrow> None | Some p \<Rightarrow>
     (case as_u32 p of Some x \<Rightarrow> if x = 0 then None else Some x | None \<Rightarrow> None))"

definition node_regions :: "device_tree \<Rightarrow> node \<Rightarrow> regions option" where
  "node_regions t n =
     do { rt1 \<leftarrow> dt_root t;
          ac \<leftarrow> node_prop t rt1 (str ''#address-cells'');
          rt2 \<leftarrow> dt_root t;
          sc \<leftarrow> node_prop t rt2 (str ''#size-cells'');
          reg \<leftarrow> node_prop t n (str ''reg'');
          Some \<lparr>address_cells = nonzero_cells ac, size_cells = nonzero_cells sc,
                reg_data = (case reg of Some p \<Rightarrow> prop_data p | None \<Rightarrow> [])\<rparr> }"

lemma read_num_shorter: "read_num c d = Some (Some x, rest) \<Longrightarrow> length rest < length d"
  by (auto simp: read_num_def split: if_splits)

lemma regions_next_shorter: "regions_next r = Some (Some x, r') \<Longrightarrow> length (reg_data r') < length (reg_data r)"
  by (auto simp: regions_next_def split: option.splits bind_splits dest!: read_num_shorter)

text \<open>The iterator run to its end.\<close>

function regions_list :: "regions \<Rightarrow> region list option" where
  "regions_list r =
     (case regions_next r of
        None \<Rightarrow> None
      | Some (None, _) \<Rightarrow> Some []
      | Some (Some x, r') \<Rightarrow> map_option (Cons x) (regions_list r'))"
  by pat_completeness auto
termination
  by (relation "measure (\<lambda>r. length (reg_data r))") (auto dest!: regions_next_shorter)

declare regions_list.simps [simp del]

section \<open>Names and the chosen node\<close>

definition AT :: u8 where "AT = 0x40"

text \<open>\<open>str::parse::<u64>\<close>: an optional plus sign, at least one decimal digit, and no overflow.\<close>

fun parse_digits :: "u64 \<Rightarrow> bytes \<Rightarrow> u64 option" where
  "parse_digits acc [] = Some acc"
| "parse_digits acc (c # cs) =
     (if 0x30 \<le> c \<and> c \<le> 0x39 then do {
        m \<leftarrow> mul_chk acc 10;
        a \<leftarrow> add_chk m (ucast (c - 0x30));
        parse_digits a cs }
      else None)"

definition parse_u64 :: "bytes \<Rightarrow> u64 option" where
  "parse_u64 s = (case s of
     [] \<Rightarrow> None
   | c # cs \<Rightarrow> if c = 0x2B then (if cs = [] then None else parse_digits 0 cs) else parse_digits 0 s)"

definition unit_address :: "node \<Rightarrow> u64 option" where
  "unit_address n = (case split_on AT (node_name n) of _ # addr # _ \<Rightarrow> parse_u64 addr | _ \<Rightarrow> None)"

definition bootargs :: "device_tree \<Rightarrow> node \<Rightarrow> bytes option option" where
  "bootargs t chosen =
     do { p \<leftarrow> node_prop t chosen (str ''bootargs'');
          Some (case p of None \<Rightarrow> None | Some p \<Rightarrow>
            (case as_str p of None \<Rightarrow> None | Some args \<Rightarrow> if args = [] then None else Some args)) }"

definition std_node :: "string \<Rightarrow> device_tree \<Rightarrow> node \<Rightarrow> node option option" where
  "std_node key t chosen =
     do { p \<leftarrow> node_prop t chosen (str key);
          (case p of None \<Rightarrow> Some None | Some p \<Rightarrow>
            (case as_str p of None \<Rightarrow> Some None | Some path \<Rightarrow> find_node t path)) }"

definition stdout_node :: "device_tree \<Rightarrow> node \<Rightarrow> node option option" where
  "stdout_node = std_node ''stdout-path''"

definition stdin_node :: "device_tree \<Rightarrow> node \<Rightarrow> node option option" where
  "stdin_node = std_node ''stdin-path''"

lemmas [exec_defs] = properties_next_def props.simps prop_loop.simps node_prop_def as_u32_def as_u64_def as_str_def
  as_phandle_def strings_next_def strings_any.simps compatible_with_def children_next.simps children_loop.simps
  children_def reg_end_def read_num_def regions_next_def nonzero_cells_def node_regions_def regions_list.simps
  AT_def parse_u64_def unit_address_def bootargs_def std_node_def stdout_node_def stdin_node_def

end
