(* ===== verification/Fdt_Encode.thy ===== *)
theory Fdt_Encode
  imports Fdt_Node
begin

text \<open>
  The flattened device tree format as an encoder, and the token iterator as its inverse: big endian
  numbers, padding to four bytes, tokens, and trees as nested begin and end tokens.
\<close>

section \<open>Numbers and padding\<close>

fun be_bytes :: "nat \<Rightarrow> nat \<Rightarrow> bytes" where
  "be_bytes 0 n = []"
| "be_bytes (Suc k) n = be_bytes k (n div 256) @ [of_nat n]"

lemma be_bytes_length [simp]: "length (be_bytes k n) = k"
  by (induction k arbitrary: n) auto

lemma be_num_snoc: "be_num (b @ [x]) = be_num b * 256 + unat x"
  by (simp add: be_num_def)

lemma be_num_bytes: "n < 256 ^ k \<Longrightarrow> be_num (be_bytes k n) = n"
proof (induction k arbitrary: n)
  case (Suc k)
  then have "n div 256 < 256 ^ k" by (simp add: less_mult_imp_div_less mult.commute)
  then show ?case using Suc.IH by (simp add: be_num_snoc unat_of_nat)
qed (simp add: be_num_def)

lemma u32_from_be_bytes: "n < 2 ^ 32 \<Longrightarrow> u32_from_be (be_bytes 4 n) = Some (of_nat n)"
  by (simp add: u32_from_be_def be_num_bytes)

lemma next_u32_bytes: "n < 2 ^ 32 \<Longrightarrow> next_u32 (be_bytes 4 n @ rest) = (Some (of_nat n), rest)"
  by (simp add: next_u32_def u32_from_be_bytes)

definition pad :: "nat \<Rightarrow> bytes" where
  "pad n = replicate ((n + 3) div 4 * 4 - n) 0"

lemma pad_length: "n + length (pad n) = (n + 3) div 4 * 4"
  by (simp add: pad_def)

lemma dt_align_up_4:
  assumes "unat n + 3 < 2 ^ 64"
  shows "\<exists>r. dt_align_up n 4 = Some r \<and> unat r = (unat n + 3) div 4 * 4"
proof -
  have "sub_chk (4 :: usize) 1 = Some 3" by (simp add: sub_chk_def)
  moreover have "unat (n + 3) = unat n + 3" "add_chk n 3 = Some (n + 3)"
    using assms by (simp_all add: add_chk_def unat_add_lem [THEN iffD1])
  moreover have "(3 :: usize) = mask 2" by (simp add: mask_numeral)
  ultimately show ?thesis
    using unat_and_not_mask [of "n + 3" 2] by (simp add: dt_align_up_def)
qed

lemma slice_from_append: "n = length xs \<Longrightarrow> slice_from (xs @ ys) n = Some ys"
  by (simp add: slice_from_def)

lemma memchr_found: "x \<notin> set s \<Longrightarrow> memchr x (s @ x # r) = Some (length s)"
  by (induction s) auto

lemma next_str_found: "0 \<notin> set s \<Longrightarrow> next_str (s @ 0 # r) = Some s"
  by (simp add: next_str_def memchr_found)

section \<open>Tokens\<close>

fun enc_token :: "token \<Rightarrow> bytes" where
  "enc_token (BeginNode nm) = be_bytes 4 1 @ nm @ 0 # pad (length nm + 1)"
| "enc_token (Property d off) = be_bytes 4 3 @ be_bytes 4 (length d) @ be_bytes 4 off @ d @ pad (length d)"
| "enc_token EndNode = be_bytes 4 2"

fun token_ok :: "token \<Rightarrow> bool" where
  "token_ok (BeginNode nm) \<longleftrightarrow> 0 \<notin> set nm \<and> length nm < 2 ^ 32"
| "token_ok (Property d off) \<longleftrightarrow> length d < 2 ^ 32 \<and> off < 2 ^ 32"
| "token_ok EndNode \<longleftrightarrow> True"

definition enc_nop :: bytes where "enc_nop = be_bytes 4 4"

text \<open>The token that ends the structure block.\<close>

definition enc_end :: bytes where "enc_end = be_bytes 4 9"

lemmas token_consts = FDT_NOP_def FDT_BEGIN_NODE_def FDT_PROP_def FDT_END_NODE_def

lemma token_next_begin:
  assumes "0 \<notin> set nm" "length nm < 2 ^ 32"
  shows "token_next (enc_token (BeginNode nm) @ rest) = Some (Some (BeginNode nm), rest)"
proof -
  let ?b = "nm @ 0 # pad (length nm + 1) @ rest"
  have u: "next_u32 (enc_token (BeginNode nm) @ rest) = (Some 1, ?b)" using next_u32_bytes [of 1 ?b] by simp
  have len: "unat (of_nat (length nm + 1) :: usize) = length nm + 1"
    using assms(2) unat_of_nat [of "length nm + 1", where 'a = 64] by (simp del: of_nat_Suc of_nat_add)
  then obtain r where r: "dt_align_up (of_nat (length nm + 1)) 4 = Some r" "unat r = (length nm + 1 + 3) div 4 * 4"
    using dt_align_up_4 [of "of_nat (length nm + 1)"] assms(2) by auto
  have "unat r = length (nm @ 0 # pad (length nm + 1))"
    using pad_length [of "length nm + 1"] r(2) by simp
  then have "slice_from ?b (unat r) = Some rest" using slice_from_append [of "unat r" _ rest] by fastforce
  then show ?thesis
    using u r(1) next_str_found [OF assms(1)] by (subst token_next.simps) (simp add: token_consts)
qed

lemma token_next_prop:
  assumes "length d < 2 ^ 32" "off < 2 ^ 32"
  shows "token_next (enc_token (Property d off) @ rest) = Some (Some (Property d off), rest)"
proof -
  let ?b = "d @ pad (length d) @ rest"
  have u: "next_u32 (enc_token (Property d off) @ rest) = (Some 3, be_bytes 4 (length d) @ be_bytes 4 off @ ?b)"
    "next_u32 (be_bytes 4 (length d) @ be_bytes 4 off @ ?b) = (Some (of_nat (length d)), be_bytes 4 off @ ?b)"
    "next_u32 (be_bytes 4 off @ ?b) = (Some (of_nat off), ?b)"
    using next_u32_bytes [of 3] next_u32_bytes [OF assms(1)] next_u32_bytes [OF assms(2)] by simp_all
  have len: "unat (of_nat (length d) :: u32) = length d" "unat (of_nat off :: u32) = off"
    using assms by (simp_all add: unat_of_nat)
  have len64: "unat (ucast (of_nat (length d) :: u32) :: usize) = length d"
    using assms(1) by (simp add: unsigned_ucast_eq unat_of_nat take_bit_nat_eq_self)
  then obtain r where r: "dt_align_up (ucast (of_nat (length d) :: u32)) 4 = Some r" "unat r = (length d + 3) div 4 * 4"
    using dt_align_up_4 [of "ucast (of_nat (length d) :: u32)"] assms(1) by auto
  have "unat r = length (d @ pad (length d))" using r(2) pad_length [of "length d"] by simp
  then have "slice_from ?b (unat r) = Some rest" using slice_from_append [of "unat r" _ rest] by fastforce
  then show ?thesis
    using u r(1) len by (subst token_next.simps) (simp add: token_consts slice_to_def)
qed

lemma token_next_enc: "token_ok t \<Longrightarrow> token_next (enc_token t @ rest) = Some (Some t, rest)"
proof (cases t)
  case EndNode
  then show ?thesis
    using next_u32_bytes [of 2 rest] by (subst token_next.simps) (simp add: token_consts)
qed (use token_next_begin token_next_prop in auto)

lemma token_next_nop: "token_next (enc_nop @ rest) = token_next rest"
  using next_u32_bytes [of 4 rest] by (subst token_next.simps) (simp add: token_consts enc_nop_def)

lemma token_next_end: "token_next (enc_end @ rest) = Some (None, rest)"
  using next_u32_bytes [of 9 rest] by (subst token_next.simps) (simp add: token_consts enc_end_def)

text \<open>The iterator run to its end.\<close>

function token_list :: "bytes \<Rightarrow> token list option" where
  "token_list iter = (case token_next iter of
     None \<Rightarrow> None | Some (None, _) \<Rightarrow> Some [] | Some (Some t, iter') \<Rightarrow> map_option (Cons t) (token_list iter'))"
  by pat_completeness auto
termination
  by (relation "measure length") (auto dest!: token_next_shorter)

declare token_list.simps [simp del]

text \<open>C37: Parsing inverts encoding: for every list of tokens, with any number of \<open>FDT_NOP\<close> tokens in front of each, the
  token iterator returns exactly these tokens and stops at the end token, whatever follows it.\<close>

theorem token_list_roundtrip:
  assumes "list_all (token_ok \<circ> snd) ts"
  shows "token_list (concat (map (\<lambda>(n, t). concat (replicate n enc_nop) @ enc_token t) ts) @ enc_end @ rest) = Some (map snd ts)"
  using assms
proof (induction ts)
  case Nil
  show ?case by (subst token_list.simps) (simp add: token_next_end)
next
  case (Cons x ts)
  obtain n t where x: "x = (n, t)" by fastforce
  have nops: "token_next (concat (replicate k enc_nop) @ b) = token_next b" for k b
    by (induction k) (auto simp: token_next_nop)
  show ?case using Cons x by (subst token_list.simps) (simp add: nops token_next_enc)
qed

theorem token_list_roundtrip_witness:
  "token_list (concat (map (\<lambda>(n, t). concat (replicate n enc_nop) @ enc_token t) [(1, BeginNode []), (0, Property [1, 2] 5), (2, EndNode)]) @
     enc_end @ [7]) = Some [BeginNode [], Property [1, 2] 5, EndNode]"
  using token_list_roundtrip [of "[(1, BeginNode []), (0, Property [1, 2] 5), (2, EndNode)]" "[7]"] by simp

end
