(* ===== verification/Fdt_Correct.thy ===== *)
theory Fdt_Correct
  imports Fdt_Encode
begin

text \<open>
  The device tree as an abstract tree, its encoding, and the functions of the crate as functions on
  the abstract tree: \<open>find_node\<close> is the search along the path that takes the first child whose name starts
  with the path component, \<open>props\<close> and \<open>children\<close> return the properties and children of the node.
\<close>

section \<open>Abstract trees\<close>

text \<open>A node: its name, its properties (data and offset of the name in the strings block), its children.\<close>

datatype dtree = DTree (dname: bytes) (dprops: "(bytes \<times> nat) list") (dkids: "dtree list")

definition enc_props :: "(bytes \<times> nat) list \<Rightarrow> bytes" where
  "enc_props ps = concat (map (\<lambda>(d, off). enc_token (Property d off)) ps)"

fun enc_tree :: "dtree \<Rightarrow> bytes" where
  "enc_tree (DTree nm ps ks) = enc_token (BeginNode nm) @ enc_props ps @ concat (map enc_tree ks) @ enc_token EndNode"

definition enc_body :: "dtree \<Rightarrow> bytes" where
  "enc_body T = enc_props (dprops T) @ concat (map enc_tree (dkids T)) @ enc_token EndNode"

lemma enc_tree_eq: "enc_tree T = enc_token (BeginNode (dname T)) @ enc_body T"
  by (cases T) (simp add: enc_body_def)

fun tree_ok :: "dtree \<Rightarrow> bool" where
  "tree_ok (DTree nm ps ks) \<longleftrightarrow> token_ok (BeginNode nm) \<and> list_all (\<lambda>(d, off). token_ok (Property d off)) ps \<and> list_all tree_ok ks"

fun height :: "dtree \<Rightarrow> nat" where
  "height (DTree nm ps ks) = Suc (foldr max (map height ks) 0)"

lemma height_kid: "k \<in> set ks \<Longrightarrow> height k \<le> foldr max (map height ks) 0"
  by (induction ks) auto

lemma height_kids: "k \<in> set (dkids T) \<Longrightarrow> height k < height T"
  by (cases T) (auto simp: less_Suc_eq_le intro: height_kid)

lemma add_chk_1: "unat x < 255 \<Longrightarrow> \<exists>y. add_chk x 1 = Some y \<and> unat y = unat x + 1" for x :: u8
  by (simp add: add_chk_def unat_add_lem [THEN iffD1])

lemma sub_chk_1: "0 < unat x \<Longrightarrow> \<exists>y. sub_chk x 1 = Some y \<and> unat y = unat x - 1" for x :: u8
  by (simp add: sub_chk_def word_le_nat_alt unat_sub Suc_le_eq)

section \<open>The search loop\<close>

lemma loop_prop:
  "token_ok (Property d off) \<Longrightarrow> find_node_loop (enc_token (Property d off) @ r) path n l = find_node_loop r path n l"
  by (subst find_node_loop.simps) (simp add: token_next_enc del: enc_token.simps)

lemma loop_props:
  "list_all (\<lambda>(d, off). token_ok (Property d off)) ps \<Longrightarrow> find_node_loop (enc_props ps @ r) path n l = find_node_loop r path n l"
  by (induction ps) (auto simp: enc_props_def loop_prop simp del: enc_token.simps)

text \<open>A subtree below the level that is searched is skipped.\<close>

lemma loop_skip:
  assumes "tree_ok T" "unat n + height T < 256" "unat l \<le> unat n" "0 < unat l"
  shows "find_node_loop (enc_tree T @ r) path n l = find_node_loop r path n l"
  using assms
proof (induction T arbitrary: n r)
  case (DTree nm ps ks)
  obtain n1 where n1: "add_chk n 1 = Some n1" "unat n1 = unat n + 1" using DTree.prems(2) add_chk_1 [of n] by auto
  obtain l1 where l1: "sub_chk l 1 = Some l1" "unat l1 = unat l - 1" using DTree.prems(4) sub_chk_1 by blast
  obtain n2 where n2: "sub_chk n1 1 = Some n2" "unat n2 = unat n" using sub_chk_1 [of n1] n1(2) by auto
  then have eq: "n2 = n" by (simp add: word_unat_eq_iff)
  have ne: "n1 \<noteq> l" using n1(2) DTree.prems(3) by auto
  have "find_node_loop (enc_tree (DTree nm ps ks) @ r) path n l =
      find_node_loop (enc_props ps @ concat (map enc_tree ks) @ enc_token EndNode @ r) path n1 l"
    using DTree.prems(1) n1(1) ne
    by (subst find_node_loop.simps) (simp add: token_next_enc del: enc_token.simps)
  also have "\<dots> = find_node_loop (concat (map enc_tree ks) @ enc_token EndNode @ r) path n1 l"
    using DTree.prems(1) by (simp add: loop_props del: enc_token.simps)
  also have "\<dots> = find_node_loop (enc_token EndNode @ r) path n1 l"
  proof -
    have "find_node_loop (concat (map enc_tree ks') @ x) path n1 l = find_node_loop x path n1 l" if "set ks' \<subseteq> set ks" for ks' x
      using that
    proof (induction ks')
      case (Cons k ks')
      have "unat n1 + height k < 256" using height_kid [of k ks] Cons.prems DTree.prems(2) n1(2) by auto
      then have "find_node_loop (enc_tree k @ y) path n1 l = find_node_loop y path n1 l" for y
        using DTree.IH [of k n1 y] Cons.prems DTree.prems n1(2) by (auto simp: list_all_iff)
      then show ?case using Cons by simp
    qed simp
    then show ?thesis by blast
  qed
  also have "\<dots> = find_node_loop r path n l"
    using n2(1) l1 eq DTree.prems(3,4) token_next_enc [of EndNode]
    by (subst find_node_loop.simps) (auto simp: word_less_nat_alt simp del: enc_token.simps)
  finally show ?case .
qed

lemma loop_skip_forest:
  "list_all tree_ok ks \<Longrightarrow> (\<And>k. k \<in> set ks \<Longrightarrow> unat n + height k < 256) \<Longrightarrow> unat l \<le> unat n \<Longrightarrow> 0 < unat l \<Longrightarrow>
    find_node_loop (concat (map enc_tree ks) @ r) path n l = find_node_loop r path n l"
  by (induction ks) (auto simp: loop_skip)

text \<open>A node on the level that is searched, with another name.\<close>

lemma loop_other:
  assumes "tree_ok T" "unat n + height T < 256" "unat l = unat n + 1" "\<not> starts_with (dname T) p"
  shows "find_node_loop (enc_tree T @ r) (p # ps) n l = find_node_loop r (p # ps) n l"
proof -
  obtain nm qs ks where T: "T = DTree nm qs ks" by (cases T)
  have l: "add_chk n 1 = Some l" using assms(2,3) add_chk_1 [of n] T by (auto simp: word_unat_eq_iff)
  obtain l1 where l1: "sub_chk l 1 = Some l1" "unat l1 = unat n" using assms(3) sub_chk_1 [of l] by auto
  then have eq: "l1 = n" by (simp add: word_unat_eq_iff)
  have "find_node_loop (enc_tree T @ r) (p # ps) n l =
      find_node_loop (enc_props qs @ concat (map enc_tree ks) @ enc_token EndNode @ r) (p # ps) l l"
    using assms(1,4) l T by (subst find_node_loop.simps) (simp add: token_next_enc del: enc_token.simps)
  also have "\<dots> = find_node_loop (concat (map enc_tree ks) @ enc_token EndNode @ r) (p # ps) l l"
    using assms(1) T by (simp add: loop_props del: enc_token.simps)
  also have "\<dots> = find_node_loop (enc_token EndNode @ r) (p # ps) l l"
    using assms(1-3) T height_kid [of _ ks] by (intro loop_skip_forest) (fastforce simp: list_all_iff)+
  also have "\<dots> = find_node_loop r (p # ps) n l"
    using l1 eq assms(3) token_next_enc [of EndNode] by (subst find_node_loop.simps) (simp del: enc_token.simps)
  finally show ?thesis .
qed

section \<open>find_node\<close>

text \<open>The search along a path: the first node whose name starts with the component, without backtracking.\<close>

function find_in :: "bytes list \<Rightarrow> dtree list \<Rightarrow> dtree option" where
  "find_in [] Ts = None"
| "find_in (p # ps) [] = None"
| "find_in (p # ps) (T # Ts) =
     (if starts_with (dname T) p then (if ps = [] then Some T else find_in ps (dkids T)) else find_in (p # ps) Ts)"
  by pat_completeness auto
termination
  by (relation "measure length <*lex*> measure length") auto

text \<open>A node value stands for an abstract node: same name, and the body of the node follows in its buffer.\<close>

definition represents :: "node \<Rightarrow> dtree \<Rightarrow> bool" where
  "represents n T \<longleftrightarrow> node_name n = dname T \<and> tree_ok T \<and> unat (node_level n) + height T < 256 \<and>
     (\<exists>rest. node_children n = enc_body T @ rest)"

text \<open>What ends a list of siblings: the end of the parent, or of the structure block.\<close>

definition forest_end :: "bytes \<Rightarrow> bool" where
  "forest_end r \<longleftrightarrow> (\<exists>r'. r = enc_token EndNode @ r' \<or> r = enc_end @ r')"

lemma loop_end:
  assumes "forest_end r" "unat l = unat n + 1" "\<And>r'. r = enc_token EndNode @ r' \<Longrightarrow> 0 < unat n"
  shows "find_node_loop r path n l = Some None"
proof (cases "\<exists>r'. r = enc_end @ r'")
  case True
  then show ?thesis by (subst find_node_loop.simps) (auto simp: token_next_end)
next
  case False
  then obtain r' where r': "r = enc_token EndNode @ r'" using assms(1) by (auto simp: forest_end_def)
  then have "0 < unat n" using assms(3) by blast
  then obtain n1 where n1: "sub_chk n 1 = Some n1" "unat n1 = unat n - 1" using sub_chk_1 [of n] by auto
  obtain l1 where l1: "sub_chk l 1 = Some l1" "unat l1 = unat n" using sub_chk_1 [of l] assms(2) by auto
  show ?thesis
    using r' n1 l1 \<open>0 < unat n\<close> token_next_enc [of EndNode r']
    by (subst find_node_loop.simps) (simp add: word_less_nat_alt del: enc_token.simps)
qed

lemma loop_found:
  assumes "list_all tree_ok Ts" "\<And>T. T \<in> set Ts \<Longrightarrow> unat n + height T < 255" "unat l = unat n + 1" "path \<noteq> []"
    "forest_end r" "\<And>r'. r = enc_token EndNode @ r' \<Longrightarrow> 0 < unat n"
  shows "\<exists>res. find_node_loop (concat (map enc_tree Ts) @ r) path n l = Some res \<and>
    (case find_in path Ts of None \<Rightarrow> res = None | Some T \<Rightarrow> \<exists>nd. res = Some nd \<and> represents nd T)"
  using assms
proof (induction path Ts arbitrary: n l r rule: find_in.induct)
  case (2 p ps)
  then show ?case by (simp add: loop_end)
next
  case (3 p ps T Ts)
  have T: "tree_ok T" "unat n + height T < 255" "unat n + height T < 256" using 3(3) 3(4) [of T] by auto
  then have n: "unat n < 254" by (cases T) auto
  then have l: "add_chk n 1 = Some l" using 3(5) add_chk_1 [of n] by (auto simp: word_unat_eq_iff)
  let ?r = "concat (map enc_tree Ts) @ r"
  let ?nd = "\<lparr>node_name = dname T, node_level = n, node_children = enc_body T @ ?r\<rparr>"
  have beg: "token_next (enc_tree T @ ?r) = Some (Some (BeginNode (dname T)), enc_body T @ ?r)"
    using T(1) token_next_enc [of "BeginNode (dname T)"] by (cases T) (simp add: enc_tree_eq del: enc_token.simps enc_tree.simps)
  consider (other) "\<not> starts_with (dname T) p" | (last) "starts_with (dname T) p" "ps = []"
    | (down) "starts_with (dname T) p" "ps \<noteq> []" by blast
  then show ?case
  proof cases
    case other
    then show ?thesis using 3(2) [OF other _ _ 3(5) _ 3(7,8)] 3(3,4) loop_other [OF T(1,3) 3(5) other] by simp
  next
    case last
    have "find_node_loop (enc_tree T @ ?r) (p # ps) n l = Some (Some ?nd)"
      using beg l last by (subst find_node_loop.simps) simp
    then show ?thesis using last T by (auto simp: represents_def)
  next
    case down
    obtain l2 where l2: "add_chk l 1 = Some l2" "unat l2 = unat l + 1" using add_chk_1 [of l] 3(5) n by auto
    have kids: "list_all tree_ok (dkids T)" "list_all (\<lambda>(d, off). token_ok (Property d off)) (dprops T)" using T(1) by (cases T; simp)+
    have ht: "unat l + height k < 255" if "k \<in> set (dkids T)" for k using height_kids [OF that] T(2) 3(5) by simp
    have "find_node_loop (enc_tree T @ ?r) (p # ps) n l = find_node_loop (enc_body T @ ?r) ps l l2"
      using beg l l2(1) down by (subst find_node_loop.simps) simp
    also have "\<dots> = find_node_loop (concat (map enc_tree (dkids T)) @ enc_token EndNode @ ?r) ps l l2"
      using kids(2) by (simp add: enc_body_def loop_props del: enc_token.simps)
    finally have eq: "find_node_loop (enc_tree T @ ?r) (p # ps) n l = find_node_loop (concat (map enc_tree (dkids T)) @ enc_token EndNode @ ?r) ps l l2" .
    have fe: "forest_end (enc_token EndNode @ ?r)" unfolding forest_end_def by blast
    show ?thesis
      using 3(1) [OF down kids(1) ht l2(2) down(2) fe] down 3(5) eq by (simp del: enc_token.simps)
  qed
qed simp

lemma find_node_spec:
  assumes "tokens t = Some (enc_tree R @ enc_end @ rest)" "tree_ok R" "height R < 255"
  shows "\<exists>res. find_node t path = Some res \<and>
    (case find_in (split_terminator SLASH path) [R] of None \<Rightarrow> res = None | Some T \<Rightarrow> \<exists>nd. res = Some nd \<and> represents nd T)"
proof (cases "split_terminator SLASH path = []")
  case True
  have "token_next (enc_tree R @ enc_end @ rest) = Some (Some (BeginNode (dname R)), enc_body R @ enc_end @ rest)"
    using assms(2) token_next_enc [of "BeginNode (dname R)"] by (cases R) (simp add: enc_tree_eq del: enc_token.simps enc_tree.simps)
  then have "find_node_loop (enc_tree R @ enc_end @ rest) [] 0 1 = Some None"
    by (subst find_node_loop.simps) (simp add: add_chk_def)
  then show ?thesis using True assms(1) by (simp add: find_node_def)
next
  case False
  have "forest_end (enc_end @ rest)" by (auto simp: forest_end_def)
  moreover have "enc_end @ rest \<noteq> enc_token EndNode @ r'" for r'
    using token_next_end [of rest] token_next_enc [of EndNode r'] by (auto simp del: enc_token.simps)
  ultimately show ?thesis
    using loop_found [of "[R]" 0 1 "split_terminator SLASH path" "enc_end @ rest"] False assms by (simp add: find_node_def)
qed

text \<open>C13: On the encoding of any tree (less than 255 levels deep) \<open>find_node\<close> returns, and finds exactly the node the
  abstract search along the path finds: the value returned has its name, and its buffer is positioned
  at the node's properties and children. It returns \<open>None\<close> where the search finds nothing.\<close>

theorem find_node_correct:
  assumes "tokens t = Some (enc_tree R @ enc_end @ rest)" "tree_ok R" "height R < 255"
  shows "\<exists>res. find_node t path = Some res \<and>
    (case find_in (split_terminator SLASH path) [R] of None \<Rightarrow> res = None | Some T \<Rightarrow> \<exists>nd. res = Some nd \<and> represents nd T)"
  using assms by (rule find_node_spec)

section \<open>Properties\<close>

lemma props_enc:
  assumes "list_all (\<lambda>(d, off). token_ok (Property d off)) ps" "\<And>d off. (d, off) \<in> set ps \<Longrightarrow> string_at t off = Some (Some (nm off))"
    "\<exists>tok r'. token_next r = Some (tok, r') \<and> (\<forall>d off. tok \<noteq> Some (Property d off))"
  shows "props t (enc_props ps @ r) = Some (map (\<lambda>(d, off). \<lparr>prop_name = nm off, prop_data = d\<rparr>) ps)"
    "prop_loop t x (enc_props ps @ r) = Some (find (\<lambda>p. prop_name p = x) (map (\<lambda>(d, off). \<lparr>prop_name = nm off, prop_data = d\<rparr>) ps))"
proof -
  have stop: "properties_next t r = Some (None, snd (the (token_next r)))"
    using assms(3) by (auto simp: properties_next_def split: option.splits token.splits)
  have step: "properties_next t (enc_token (Property d off) @ b) = Some (Some \<lparr>prop_name = nm off, prop_data = d\<rparr>, b)"
    if "(d, off) \<in> set ps" for d off b
    using assms(1) assms(2) [OF that] that token_next_enc [of "Property d off" b]
    by (auto simp: properties_next_def list_all_iff simp del: enc_token.simps)
  have "set qs \<subseteq> set ps \<Longrightarrow> props t (enc_props qs @ r) = Some (map (\<lambda>(d, off). \<lparr>prop_name = nm off, prop_data = d\<rparr>) qs) \<and>
      prop_loop t x (enc_props qs @ r) = Some (find (\<lambda>p. prop_name p = x) (map (\<lambda>(d, off). \<lparr>prop_name = nm off, prop_data = d\<rparr>) qs))" for qs
  proof (induction qs)
    case Nil
    then show ?case using stop by (subst props.simps, subst prop_loop.simps) (simp add: enc_props_def)
  next
    case (Cons q qs)
    obtain d off where q: "q = (d, off)" by fastforce
    have e: "enc_props (q # qs) @ r = enc_token (Property d off) @ enc_props qs @ r" by (simp add: enc_props_def q del: enc_token.simps)
    show ?case
      unfolding e using Cons step [of d off "enc_props qs @ r"] q
      by (subst props.simps, subst prop_loop.simps) (simp del: enc_token.simps)
  qed
  then show "props t (enc_props ps @ r) = Some (map (\<lambda>(d, off). \<lparr>prop_name = nm off, prop_data = d\<rparr>) ps)"
    "prop_loop t x (enc_props ps @ r) = Some (find (\<lambda>p. prop_name p = x) (map (\<lambda>(d, off). \<lparr>prop_name = nm off, prop_data = d\<rparr>) ps))"
    by simp_all
qed

text \<open>The properties end at the first child or at the end of the node.\<close>

lemma body_after_props:
  assumes "tree_ok T"
  shows "\<exists>tok r'. token_next (concat (map enc_tree (dkids T)) @ enc_token EndNode @ rest) = Some (tok, r') \<and>
    (\<forall>d off. tok \<noteq> Some (Property d off))"
proof (cases "dkids T")
  case Nil
  then show ?thesis using token_next_enc [of EndNode rest] by (simp del: enc_token.simps)
next
  case (Cons k ks)
  then have "token_ok (BeginNode (dname k))" using assms by (cases T, cases k) auto
  then show ?thesis
    using token_next_enc [of "BeginNode (dname k)"] Cons by (simp add: enc_tree_eq del: enc_token.simps)
qed

lemma node_props_spec:
  assumes "represents n T" "\<And>d off. (d, off) \<in> set (dprops T) \<Longrightarrow> string_at t off = Some (Some (nm off))"
  shows "props t (node_children n) = Some (map (\<lambda>(d, off). \<lparr>prop_name = nm off, prop_data = d\<rparr>) (dprops T)) \<and>
    node_prop t n x = Some (find (\<lambda>p. prop_name p = x) (map (\<lambda>(d, off). \<lparr>prop_name = nm off, prop_data = d\<rparr>) (dprops T)))"
proof -
  obtain rest where rest: "node_children n = enc_body T @ rest" and ok: "tree_ok T" using assms(1) by (auto simp: represents_def)
  have "list_all (\<lambda>(d, off). token_ok (Property d off)) (dprops T)" using ok by (cases T) simp
  from props_enc [OF this assms(2) body_after_props [OF ok, of rest]]
  show ?thesis unfolding node_prop_def rest enc_body_def by (simp del: enc_token.simps)
qed

text \<open>The properties of a node that stands for an abstract node are its properties, in order, with the names of the
  strings block; \<open>prop\<close> finds the first one with the given name and nothing else.\<close>

theorem node_props_correct:
  assumes "represents n T" "\<And>d off. (d, off) \<in> set (dprops T) \<Longrightarrow> string_at t off = Some (Some (nm off))"
  shows "props t (node_children n) = Some (map (\<lambda>(d, off). \<lparr>prop_name = nm off, prop_data = d\<rparr>) (dprops T)) \<and>
    node_prop t n x = Some (find (\<lambda>p. prop_name p = x) (map (\<lambda>(d, off). \<lparr>prop_name = nm off, prop_data = d\<rparr>) (dprops T)))"
  using assms by (rule node_props_spec)

section \<open>Children\<close>

lemma children_prop:
  "list_all (\<lambda>(d, off). token_ok (Property d off)) ps \<Longrightarrow> children_next (enc_props ps @ r) lv n = children_next r lv n"
proof (induction ps)
  case (Cons p ps)
  obtain d off where p: "p = (d, off)" by fastforce
  have "children_next (enc_token (Property d off) @ enc_props ps @ r) lv n = children_next (enc_props ps @ r) lv n"
    using Cons.prems p token_next_enc [of "Property d off"]
    by (subst children_next.simps) (simp del: enc_token.simps)
  then show ?case using Cons p by (simp add: enc_props_def del: enc_token.simps)
qed (simp add: enc_props_def)

lemma children_skip:
  assumes "tree_ok T" "unat n + height T < 256" "unat lv + 1 < unat n"
  shows "children_next (enc_tree T @ r) lv n = children_next r lv n"
  using assms
proof (induction T arbitrary: n r)
  case (DTree nm ps ks)
  obtain n1 where n1: "add_chk n 1 = Some n1" "unat n1 = unat n + 1" using DTree.prems(2) add_chk_1 [of n] by auto
  obtain n2 where n2: "sub_chk n1 1 = Some n2" "unat n2 = unat n" using sub_chk_1 [of n1] n1(2) by auto
  then have eq: "n2 = n" by (simp add: word_unat_eq_iff)
  obtain nl where nl: "add_chk lv 1 = Some nl" "unat nl = unat lv + 1"
    using add_chk_1 [of lv] DTree.prems(2,3) by auto
  have ne: "n \<noteq> nl" using nl(2) DTree.prems(3) by auto
  have "children_next (enc_tree (DTree nm ps ks) @ r) lv n =
      children_next (enc_props ps @ concat (map enc_tree ks) @ enc_token EndNode @ r) lv n1"
    using DTree.prems(1) n1(1) nl(1) ne
    by (subst children_next.simps) (simp add: token_next_enc del: enc_token.simps)
  also have "\<dots> = children_next (concat (map enc_tree ks) @ enc_token EndNode @ r) lv n1"
    using DTree.prems(1) by (simp add: children_prop del: enc_token.simps)
  also have "\<dots> = children_next (enc_token EndNode @ r) lv n1"
  proof -
    have "set ks' \<subseteq> set ks \<Longrightarrow> children_next (concat (map enc_tree ks') @ x) lv n1 = children_next x lv n1" for ks' x
    proof (induction ks')
      case (Cons k ks')
      have "unat n1 + height k < 256" using height_kid [of k ks] Cons.prems DTree.prems(2) n1(2) by auto
      then have "children_next (enc_tree k @ y) lv n1 = children_next y lv n1" for y
        using DTree.IH [of k n1 y] Cons.prems DTree.prems n1(2) by (auto simp: list_all_iff)
      then show ?case using Cons by simp
    qed simp
    then show ?thesis by blast
  qed
  also have "\<dots> = children_next r lv n"
    using n2(1) eq DTree.prems(3) token_next_enc [of EndNode]
    by (subst children_next.simps) (auto simp: word_le_nat_alt simp del: enc_token.simps)
  finally show ?case .
qed

text \<open>Behind the begin token of a child, the next child is the one behind its end token.\<close>

lemma children_body:
  assumes "tree_ok k" "unat n + height k \<le> 256" "unat n = unat lv + 2" "unat nl = unat lv + 1"
  shows "children_next (enc_body k @ r) lv n = children_next r lv nl"
proof -
  have ok: "list_all tree_ok (dkids k)" "list_all (\<lambda>(d, off). token_ok (Property d off)) (dprops k)" using assms(1) by (cases k; simp)+
  have skip: "set ks' \<subseteq> set (dkids k) \<Longrightarrow> children_next (concat (map enc_tree ks') @ x) lv n = children_next x lv n" for ks' x
  proof (induction ks')
    case (Cons c ks')
    have "unat n + height c < 256" "tree_ok c" using height_kids [of c k] Cons.prems assms(2) ok(1) by (auto simp: list_all_iff)
    then show ?case using Cons children_skip [of c n lv] assms(3) by simp
  qed simp
  obtain n2 where n2: "sub_chk n 1 = Some n2" "unat n2 = unat nl" using sub_chk_1 [of n] assms(3,4) by auto
  then have eq: "n2 = nl" by (simp add: word_unat_eq_iff)
  have "children_next (enc_body k @ r) lv n = children_next (enc_token EndNode @ r) lv n"
    using ok(2) skip [of "dkids k"] by (simp add: enc_body_def children_prop del: enc_token.simps)
  also have "\<dots> = children_next r lv nl"
    using n2(1) eq assms(4) token_next_enc [of EndNode]
    by (subst children_next.simps) (auto simp: word_le_nat_alt simp del: enc_token.simps)
  finally show ?thesis .
qed

lemma children_forest:
  assumes "list_all tree_ok ks" "\<And>k. k \<in> set ks \<Longrightarrow> unat lv + 1 + height k < 256" "unat nl = unat lv + 1"
  shows "\<exists>cs. children_loop (concat (map enc_tree ks) @ enc_token EndNode @ rest) lv nl = Some cs \<and>
    list_all2 (\<lambda>c k. represents c k \<and> unat (node_level c) = unat lv + 1) cs ks"
  using assms(1,2)
proof (induction ks)
  case Nil
  obtain n1 where "sub_chk nl 1 = Some n1" "unat n1 = unat lv" using sub_chk_1 [of nl] assms(3) by auto
  then have "children_next (enc_token EndNode @ rest) lv nl = Some (None, rest, n1)"
    using token_next_enc [of EndNode] by (subst children_next.simps) (simp add: word_le_nat_alt del: enc_token.simps)
  then show ?case by (subst children_loop.simps) (simp del: enc_token.simps)
next
  case (Cons k ks)
  let ?r = "concat (map enc_tree ks) @ enc_token EndNode @ rest"
  let ?c = "\<lparr>node_name = dname k, node_level = nl, node_children = enc_body k @ ?r\<rparr>"
  have k: "tree_ok k" "unat lv + 1 + height k < 256" using Cons.prems by auto
  have "1 \<le> height k" by (cases k) simp
  then obtain n where n: "add_chk nl 1 = Some n" "unat n = unat lv + 2" using add_chk_1 [of nl] k(2) assms(3) by auto
  have nl: "add_chk lv 1 = Some nl" using add_chk_1 [of lv] assms(3) k(2) by (auto simp: word_unat_eq_iff)
  have "token_next (enc_tree k @ ?r) = Some (Some (BeginNode (dname k)), enc_body k @ ?r)"
    using k(1) token_next_enc [of "BeginNode (dname k)"] by (cases k) (simp add: enc_tree_eq del: enc_token.simps enc_tree.simps)
  then have "children_next (enc_tree k @ ?r) lv nl = Some (Some ?c, enc_body k @ ?r, n)"
    using n(1) nl by (subst children_next.simps) simp
  moreover have "children_loop (enc_body k @ ?r) lv n = children_loop ?r lv nl"
    using children_body [OF k(1), of n lv nl ?r] n(2) assms(3) k(2)
    by (subst (1 2) children_loop.simps) simp
  ultimately have "children_loop (enc_tree k @ ?r) lv nl = map_option (Cons ?c) (children_loop ?r lv nl)"
    by (subst children_loop.simps) (simp del: enc_token.simps)
  moreover have "represents ?c k" using k assms(3) by (auto simp: represents_def)
  ultimately show ?case using Cons.IH Cons.prems assms(3) by (auto simp del: enc_token.simps)
qed

lemma node_children_spec:
  assumes "represents n T"
  shows "\<exists>cs. children n = Some cs \<and>
    list_all2 (\<lambda>c k. represents c k \<and> unat (node_level c) = unat (node_level n) + 1) cs (dkids T)"
proof -
  obtain rest where rest: "node_children n = enc_body T @ rest" and ok: "tree_ok T" "unat (node_level n) + height T < 256"
    using assms by (auto simp: represents_def)
  have ps: "list_all (\<lambda>(d, off). token_ok (Property d off)) (dprops T)" "list_all tree_ok (dkids T)" "1 \<le> height T" using ok by (cases T; simp)+
  obtain nl where nl: "add_chk (node_level n) 1 = Some nl" "unat nl = unat (node_level n) + 1"
    using add_chk_1 [of "node_level n"] ok(2) ps(3) by auto
  have "children_loop (node_children n) (node_level n) nl =
      children_loop (concat (map enc_tree (dkids T)) @ enc_token EndNode @ rest) (node_level n) nl"
    unfolding rest enc_body_def using ps(1)
    by (subst (1 2) children_loop.simps) (simp add: children_prop del: enc_token.simps)
  moreover have "unat (node_level n) + 1 + height k < 256" if "k \<in> set (dkids T)" for k
    using height_kids [OF that] ok(2) by simp
  ultimately show ?thesis
    using children_forest [OF ps(2), of "node_level n" nl rest] nl by (simp add: children_def)
qed

text \<open>\<open>children\<close> of a node that stands for an abstract node returns one node for each of its children, in order, each
  standing for that child (so that properties and children of children are right in turn), one level deeper.\<close>

theorem node_children_correct:
  assumes "represents n T"
  shows "\<exists>cs. children n = Some cs \<and>
    list_all2 (\<lambda>c k. represents c k \<and> unat (node_level c) = unat (node_level n) + 1) cs (dkids T)"
  using assms by (rule node_children_spec)

section \<open>Regions and reservations\<close>

lemma regions_list_enc:
  assumes "ac \<in> {1, 2}" "sc \<in> {1, 2}" "list_all (\<lambda>r. unat (reg_start r) < 256 ^ (4 * unat ac) \<and> unat (reg_size r) < 256 ^ (4 * unat sc)) rs"
    "length rest < 4 * unat ac"
  shows "regions_list \<lparr>address_cells = Some ac, size_cells = Some sc,
      reg_data = concat (map (\<lambda>r. be_bytes (4 * unat ac) (unat (reg_start r)) @ be_bytes (4 * unat sc) (unat (reg_size r))) rs) @ rest\<rparr> = Some rs"
  using assms(3)
proof (induction rs)
  case Nil
  have "read_num ac rest = Some (None, rest)" using assms(1,4) by (auto simp: read_num_def)
  then show ?case by (subst regions_list.simps) (simp add: regions_next_def)
next
  case (Cons r rs)
  have num: "read_num c (be_bytes (4 * unat c) (unat x) @ b) = Some (Some x, b)" if "c \<in> {1, 2}" "unat x < 256 ^ (4 * unat c)" for c x b
    using that be_num_bytes [of "unat x" "4 * unat c"] by (auto simp: read_num_def)
  show ?case
    using Cons num [OF assms(1)] num [OF assms(2)] by (subst regions_list.simps) (simp add: regions_next_def)
qed

text \<open>Reading back a \<open>reg\<close> property: the regions written with one or two cells per number are the regions read, and
  a trailing incomplete entry ends the list.\<close>

theorem regions_roundtrip:
  assumes "ac \<in> {1, 2}" "sc \<in> {1, 2}" "list_all (\<lambda>r. unat (reg_start r) < 256 ^ (4 * unat ac) \<and> unat (reg_size r) < 256 ^ (4 * unat sc)) rs"
    "length rest < 4 * unat ac"
  shows "regions_list \<lparr>address_cells = Some ac, size_cells = Some sc,
      reg_data = concat (map (\<lambda>r. be_bytes (4 * unat ac) (unat (reg_start r)) @ be_bytes (4 * unat sc) (unat (reg_size r))) rs) @ rest\<rparr> = Some rs"
  using assms by (rule regions_list_enc)

end
