(* ===== verification/Fdt_Memory.thy ===== *)
theory Fdt_Memory
  imports Fdt_Correct
begin

text \<open>
  From the bytes of a device tree to its memory regions: \<open>memory().regions()\<close> composed of the header, the search for
  the root and memory nodes, the cell counts of the root and the \<open>reg\<close> property. The example at the end is a
  complete device tree built by the encoder.
\<close>

section \<open>Memory regions\<close>

definition reg_bytes :: "nat \<Rightarrow> nat \<Rightarrow> region list \<Rightarrow> bytes" where
  "reg_bytes ac sc rs = concat (map (\<lambda>r. be_bytes (4 * ac) (unat (reg_start r)) @ be_bytes (4 * sc) (unat (reg_size r))) rs)"

text \<open>What \<open>memory().regions()\<close> yields; \<open>None\<close> is a panic.\<close>

definition memory_regions :: "device_tree \<Rightarrow> region list option" where
  "memory_regions t = do { n \<leftarrow> dt_memory t; r \<leftarrow> node_regions t n; regions_list r }"

definition named_props :: "(nat \<Rightarrow> bytes) \<Rightarrow> dtree \<Rightarrow> property list" where
  "named_props nm T = map (\<lambda>(d, off). \<lparr>prop_name = nm off, prop_data = d\<rparr>) (dprops T)"

definition data_of :: "(nat \<Rightarrow> bytes) \<Rightarrow> dtree \<Rightarrow> bytes \<Rightarrow> bytes option" where
  "data_of nm T x = map_option prop_data (find (\<lambda>p. prop_name p = x) (named_props nm T))"

lemma split_root: "split_terminator SLASH (str ''/'') = [[]]"
  by (simp add: split_terminator_def str_def SLASH_def of_char_def)

lemma split_memory: "split_terminator SLASH (str ''/memory'') = [[], str ''memory'']"
  by (simp add: split_terminator_def str_def SLASH_def of_char_def)

lemma starts_with_Nil [simp]: "starts_with nm []"
  by (simp add: starts_with_def)

lemma dt_root_enc:
  assumes "tokens t = Some (enc_tree R @ enc_end @ rest)" "tree_ok R" "height R < 255"
  shows "\<exists>n. dt_root t = Some n \<and> represents n R"
  using find_node_spec [OF assms, of "str ''/''"] by (auto simp: split_root dt_root_def)

lemma dt_memory_enc:
  assumes "tokens t = Some (enc_tree R @ enc_end @ rest)" "tree_ok R" "height R < 255"
    "find_in [str ''memory''] (dkids R) = Some M"
  shows "\<exists>n. dt_memory t = Some n \<and> represents n M"
  using find_node_spec [OF assms(1-3), of "str ''/memory''"] assms(4) by (auto simp: split_memory dt_memory_def)

lemma node_prop_enc:
  assumes "represents n T" "\<And>d off. (d, off) \<in> set (dprops T) \<Longrightarrow> string_at t off = Some (Some (nm off))"
  shows "\<exists>p. node_prop t n x = Some p \<and> map_option prop_data p = data_of nm T x"
  using node_props_spec [OF assms, where x = x] by (simp add: data_of_def named_props_def)

lemma nonzero_cells_bytes:
  assumes "map_option prop_data p = Some (be_bytes 4 (unat c))" "c \<noteq> 0"
  shows "nonzero_cells p = Some c"
  using assms u32_from_be_bytes [of "unat c"] unat_less_2p [of c] by (auto simp: nonzero_cells_def as_u32_def)

lemma memory_regions_spec:
  fixes ac sc :: u32
  assumes "tokens t = Some (enc_tree R @ enc_end @ rest)" "tree_ok R" "height R < 255"
    "find_in [str ''memory''] (dkids R) = Some M"
    "\<And>d off. (d, off) \<in> set (dprops R) \<union> set (dprops M) \<Longrightarrow> string_at t off = Some (Some (nm off))"
    "data_of nm R (str ''#address-cells'') = Some (be_bytes 4 (unat ac))" "ac \<in> {1, 2}"
    "data_of nm R (str ''#size-cells'') = Some (be_bytes 4 (unat sc))" "sc \<in> {1, 2}"
    "data_of nm M (str ''reg'') = Some (reg_bytes (unat ac) (unat sc) rs)"
    "list_all (\<lambda>r. unat (reg_start r) < 256 ^ (4 * unat ac) \<and> unat (reg_size r) < 256 ^ (4 * unat sc)) rs"
  shows "memory_regions t = Some rs"
proof -
  obtain m where m: "dt_memory t = Some m" "represents m M" using dt_memory_enc [OF assms(1-4)] by blast
  obtain r where r: "dt_root t = Some r" "represents r R" using dt_root_enc [OF assms(1-3)] by blast
  have nz: "ac \<noteq> 0" "sc \<noteq> 0" using assms(7,9) by auto
  obtain pa where pa: "node_prop t r (str ''#address-cells'') = Some pa" "nonzero_cells pa = Some ac"
    using node_prop_enc [OF r(2)] assms(5,6) nonzero_cells_bytes nz(1) by (metis UnI1)
  obtain ps where ps: "node_prop t r (str ''#size-cells'') = Some ps" "nonzero_cells ps = Some sc"
    using node_prop_enc [OF r(2)] assms(5,8) nonzero_cells_bytes nz(2) by (metis UnI1)
  obtain pr where pr: "node_prop t m (str ''reg'') = Some (Some pr)" "prop_data pr = reg_bytes (unat ac) (unat sc) rs"
    using node_prop_enc [OF m(2), of t nm "str ''reg''"] assms(5,10) by (auto split: option.splits)
  have "node_regions t m = Some \<lparr>address_cells = Some ac, size_cells = Some sc, reg_data = reg_bytes (unat ac) (unat sc) rs\<rparr>"
    using r(1) pa ps pr by (simp add: node_regions_def)
  moreover have "0 < 4 * unat ac" using assms(7) by auto
  ultimately show ?thesis
    using regions_list_enc [OF assms(7,9,11), of "[]"] m(1) by (simp add: memory_regions_def reg_bytes_def)
qed


section \<open>A complete device tree\<close>

text \<open>The header (ten big endian words), the structure block, the strings block and an empty reservation block.\<close>

definition mk_dtb :: "dtree \<Rightarrow> bytes \<Rightarrow> device_tree" where
  "mk_dtb R strs = (let st = enc_tree R @ enc_end; ls = length st; lt = length strs in
     \<lparr>buf = concat (map (be_bytes 4) [0xD00DFEED, 40 + ls + lt + 16, 40, 40 + ls, 40 + ls + lt, 17, 16, 0, lt, ls])
        @ st @ strs @ replicate 16 0\<rparr>)"

lemma concat_be_length: "length (concat (map (be_bytes 4) ws)) = 4 * length ws"
  by (induction ws) auto

lemma concat_be_nth:
  "i < length ws \<Longrightarrow> take 4 (drop (i * 4) (concat (map (be_bytes 4) ws) @ r)) = be_bytes 4 (ws ! i)"
proof (induction ws arbitrary: i)
  case (Cons w ws)
  then show ?case by (cases i) (simp_all add: add.commute)
qed simp

lemma u32_at_header:
  assumes "buf t = concat (map (be_bytes 4) ws) @ r" "i < length ws" "ws ! i < 2 ^ 32"
  shows "u32_at t i = Some (of_nat (ws ! i))"
proof -
  have "i * 4 + 4 \<le> length (buf t)" using assms(1,2) by (simp add: concat_be_length)
  then have "slice (buf t) (i * 4) (i * 4 + 4) = Some (be_bytes 4 (ws ! i))"
    using concat_be_nth [OF assms(2), of r] assms(1) by (simp add: slice_def)
  then show ?thesis using u32_from_be_bytes [OF assms(3)] by (simp add: u32_at_def)
qed

lemma slice_mid: "i = length xs \<Longrightarrow> j = length xs + length ys \<Longrightarrow> slice (xs @ ys @ zs) i j = Some ys"
  by (simp add: slice_def)

lemma mk_dtb_layout:
  assumes "length (enc_tree R) + length strs < 2 ^ 31"
  shows "tokens (mk_dtb R strs) = Some (enc_tree R @ enc_end)"
    "string_at (mk_dtb R strs) off = Some (case slice_from (strs @ replicate 16 0) off of None \<Rightarrow> None | Some b \<Rightarrow> next_str b)"
proof -
  let ?st = "enc_tree R @ enc_end" and ?t = "mk_dtb R strs"
  let ?ws = "[0xD00DFEED, 40 + length ?st + length strs + 16, 40, 40 + length ?st, 40 + length ?st + length strs, 17, 16, 0, length strs, length ?st]"
  let ?hd = "concat (map (be_bytes 4) ?ws)"
  have b: "buf ?t = ?hd @ ?st @ strs @ replicate 16 0" by (simp add: mk_dtb_def Let_def ac_simps)
  have e: "length enc_end = 4" by (simp add: enc_end_def)
  have hd: "length ?hd = 40" by (simp only: concat_be_length) simp
  have w: "u32_at ?t 2 = Some (of_nat 40)" "u32_at ?t 9 = Some (of_nat (length ?st))" "u32_at ?t 3 = Some (of_nat (40 + length ?st))"
    using u32_at_header [OF b, of 2] u32_at_header [OF b, of 9] u32_at_header [OF b, of 3] assms e by simp_all
  have u: "unat (of_nat 40 :: u32) = 40" "unat (of_nat (length ?st) :: u32) = length ?st" "unat (of_nat (40 + length ?st) :: u32) = 40 + length ?st"
    using assms e unat_of_nat [of "length ?st", where 'a = 32] unat_of_nat [of "40 + length ?st", where 'a = 32] by simp_all
  show "tokens ?t = Some ?st"
    unfolding tokens_def struct_offset_def struct_size_def w bind.bind_lunit u b
    by (rule slice_mid) (simp_all only: hd)
  show "string_at ?t off = Some (case slice_from (strs @ replicate 16 0) off of None \<Rightarrow> None | Some b \<Rightarrow> next_str b)"
  proof -
    have "slice_from (buf ?t) (40 + length ?st + off) = slice_from (strs @ replicate 16 0) off"
      unfolding b slice_from_def using hd by simp
    then show ?thesis unfolding string_at_def strings_offset_def w bind.bind_lunit u by simp
  qed
qed

text \<open>A root with two address and size cells and one memory node with 128 MiB at \<open>0x80000000\<close>.\<close>

definition example_regions :: "region list" where
  "example_regions = [\<lparr>reg_start = 0x80000000, reg_size = 0x8000000\<rparr>]"

definition example_memory :: dtree where
  "example_memory = DTree (str ''memory@80000000'') [(reg_bytes 2 2 example_regions, 27)] []"

definition example_root :: dtree where
  "example_root = DTree [] [(be_bytes 4 2, 0), (be_bytes 4 2, 15)] [example_memory]"

definition example_strings :: bytes where
  "example_strings = str ''#address-cells'' @ [0] @ str ''#size-cells'' @ [0] @ str ''reg'' @ [0]"

definition example_names :: "nat \<Rightarrow> bytes" where
  "example_names off = (if off = 0 then str ''#address-cells'' else if off = 15 then str ''#size-cells'' else str ''reg'')"

definition example_dtb :: device_tree where
  "example_dtb = mk_dtb example_root example_strings"

lemma example_dtb_layout:
  "tokens example_dtb = Some (enc_tree example_root @ enc_end)" "tree_ok example_root" "height example_root < 255"
  "find_in [str ''memory''] (dkids example_root) = Some example_memory"
  "(d, off) \<in> set (dprops example_root) \<union> set (dprops example_memory) \<Longrightarrow> string_at example_dtb off = Some (Some (example_names off))"
proof -
  have len: "length (enc_tree example_root) + length example_strings < 2 ^ 31"
    by (simp add: example_root_def example_memory_def enc_props_def pad_def str_def example_strings_def reg_bytes_def example_regions_def)
  note lay = mk_dtb_layout [OF len, folded example_dtb_def]
  show "tokens example_dtb = Some (enc_tree example_root @ enc_end)" by (rule lay(1))
  show "tree_ok example_root" "height example_root < 255" "find_in [str ''memory''] (dkids example_root) = Some example_memory"
    by (simp_all add: example_root_def example_memory_def str_def of_char_def starts_with_def reg_bytes_def example_regions_def)
  assume "(d, off) \<in> set (dprops example_root) \<union> set (dprops example_memory)"
  then show "string_at example_dtb off = Some (Some (example_names off))"
    unfolding lay(2) by (auto simp: example_root_def example_memory_def example_strings_def example_names_def str_def of_char_def slice_from_def next_str_def)
qed


theorem find_node_correct_witness:
  "\<exists>nd. find_node example_dtb (str ''/memory'') = Some (Some nd) \<and> represents nd example_memory"
  using find_node_correct [of example_dtb example_root "[]" "str ''/memory''"] example_dtb_layout(1-4)
  by (auto simp: split_memory)

definition example_node :: node where
  "example_node = \<lparr>node_name = [], node_level = 0, node_children = enc_body example_root\<rparr>"

lemma example_node_represents: "represents example_node example_root"
  using example_dtb_layout(2,3) by (auto simp: represents_def example_node_def example_root_def)

theorem node_props_correct_witness:
  "\<exists>p. node_prop example_dtb example_node (str ''#size-cells'') = Some (Some p) \<and> as_u32 p = Some 2"
proof -
  have nm: "\<And>d off. (d, off) \<in> set (dprops example_root) \<Longrightarrow> string_at example_dtb off = Some (Some (example_names off))"
    using example_dtb_layout(5) by blast
  have "as_u32 \<lparr>prop_name = x, prop_data = be_bytes 4 2\<rparr> = Some 2" for x
    using u32_from_be_bytes [of 2] by (simp add: as_u32_def)
  then show ?thesis
    using node_props_correct [OF example_node_represents nm, where x = "str ''#size-cells''"]
    by (auto simp: example_root_def example_names_def str_def of_char_def simp del: be_bytes.simps)
qed

theorem node_children_correct_witness:
  "\<exists>c. children example_node = Some [c] \<and> represents c example_memory"
  using node_children_correct [OF example_node_represents] by (auto simp: example_root_def list_all2_Cons2)

theorem regions_roundtrip_witness:
  "regions_list \<lparr>address_cells = Some 1, size_cells = Some 1, reg_data = be_bytes 4 0x1000 @ be_bytes 4 0x20 @ [0, 0]\<rparr> =
    Some [\<lparr>reg_start = 0x1000, reg_size = 0x20\<rparr>]"
  using regions_roundtrip [of 1 1 "[\<lparr>reg_start = 0x1000, reg_size = 0x20\<rparr>]" "[0, 0]"] by simp

end
