(* ===== verification/Pmem_Init.thy ===== *)
theory Pmem_Init
  imports Fdt_Memory Buddy_Region RangeSet
begin

text \<open>
  \<open>pmem::init\<close> of \<open>crates/kernel/src/pmem.rs\<close>, the composition of the device tree, the range set and the
  buddy allocator: the memory regions are collected, the firmware and the kernel are taken out, and every
  remaining range is given to the allocator. The linker symbols \<open>__kernel_start\<close> and \<open>__kernel_end\<close>
  are parameters. The outer \<open>option\<close> is panicking.
\<close>

datatype pmem_error = RangeSetErr rs_error | AllocError alloc_error | NullRegion

text \<open>\<open>regions().try_for_each(...)\<close>: the iterator is advanced before every insertion.\<close>

function insert_regions :: "regions \<Rightarrow> rangeset \<Rightarrow> ((unit, rs_error) result \<times> rangeset) option" where
  "insert_regions it ms =
     (case regions_next it of
        None \<Rightarrow> None
      | Some (None, _) \<Rightarrow> Some (Ok (), ms)
      | Some (Some g, it') \<Rightarrow> do {
          stop \<leftarrow> reg_end g;
          last \<leftarrow> sub_chk stop 1;
          (r, ms') \<leftarrow> rs_insert ms (range_new (reg_start g) last);
          (case r of Err e \<Rightarrow> Some (Err e, ms') | Ok _ \<Rightarrow> insert_regions it' ms') })"
  by pat_completeness auto
termination
  by (relation "measure (\<lambda>(it, ms). length (reg_data it))") (auto dest!: regions_next_shorter)

declare insert_regions.simps [simp del]

definition get_blocked_ranges :: "usize \<Rightarrow> usize \<Rightarrow> range list option" where
  "get_blocked_ranges kernel_start kernel_end =
     do { last \<leftarrow> sub_chk kernel_end 1;
          Some [range_new 0x80000000 0x801FFFFF, range_new kernel_start last] }"

definition add_range :: "'a pmem_scheme \<Rightarrow> range \<Rightarrow> ((unit, pmem_error) result \<times> 'a pmem_scheme) option" where
  "add_range s r =
     (if range_start r = 0 \<or> range_end r = 0 then Some (Err NullRegion, s)
      else do {
        (res, s') \<leftarrow> add_region s (range_start r) (range_end r);
        Some (case res of Ok _ \<Rightarrow> Ok () | Err e \<Rightarrow> Err (AllocError e), s') })"

definition pmem_init :: "device_tree \<Rightarrow> usize \<Rightarrow> usize \<Rightarrow> 'a pmem_scheme \<Rightarrow> ((unit, pmem_error) result \<times> 'a pmem_scheme) option" where
  "pmem_init t kernel_start kernel_end s =
     do { n \<leftarrow> dt_memory t;
          it \<leftarrow> node_regions t n;
          (r, ms) \<leftarrow> insert_regions it rs_new;
          (case r of
             Err e \<Rightarrow> Some (Err (RangeSetErr e), s)
           | Ok _ \<Rightarrow> do {
               blocked \<leftarrow> get_blocked_ranges kernel_start kernel_end;
               (r2, ms2) \<leftarrow> try_for_each remove_range ms blocked;
               (case r2 of
                  Err e \<Rightarrow> Some (Err (RangeSetErr e), s)
                | Ok _ \<Rightarrow> try_for_each add_range s (as_slice ms2)) }) }"

lemmas [exec_defs] = insert_regions.simps get_blocked_ranges_def add_range_def pmem_init_def

section \<open>The memory that may be handed out\<close>

definition region_range :: "region \<Rightarrow> range" where
  "region_range g = range_new (reg_start g) (reg_start g + reg_size g - 1)"

text \<open>The addresses of the regions without the firmware and the kernel.\<close>

definition usable_memory :: "region list \<Rightarrow> usize \<Rightarrow> usize \<Rightarrow> usize set" where
  "usable_memory regs kernel_start kernel_end =
     (\<Union>g \<in> set regs. ival (region_range g)) - {0x80000000..0x801FFFFF} - {kernel_start..kernel_end - 1}"

text \<open>The whole pages between the first and the last address of a range; the last address is not part of them.\<close>

definition whole_pages :: "range \<Rightarrow> nat set" where
  "whole_pages r = (let p = page_ceil (unat (range_start r)) in {p ..< p + (unat (range_end r) - p) div 4096 * 4096})"

definition region_ok :: "nat \<Rightarrow> region \<Rightarrow> bool" where
  "region_ok off g \<longleftrightarrow> 0 < reg_size g \<and> 2 ^ 24 \<le> unat (reg_start g) \<and> unat (reg_start g) + unat (reg_size g) + off \<le> 2 ^ 64 - 4096"

lemma region_range_props:
  assumes "region_ok off g"
  shows "reg_end g = Some (reg_start g + reg_size g)" "sub_chk (reg_start g + reg_size g) 1 = Some (reg_start g + reg_size g - 1)"
    "valid_range (region_range g)" "2 \<le> range_start (region_range g)"
    "a \<in> ival (region_range g) \<Longrightarrow> 2 ^ 24 \<le> unat a \<and> unat a + off < 2 ^ 64 - 4096"
proof -
  have g: "0 < unat (reg_size g)" "2 ^ 24 \<le> unat (reg_start g)" "unat (reg_start g) + unat (reg_size g) + off \<le> 2 ^ 64 - 4096"
    using assms by (auto simp: region_ok_def word_less_nat_alt)
  have sum: "unat (reg_start g + reg_size g) = unat (reg_start g) + unat (reg_size g)" using g(3) by (subst unat_add_lem [symmetric]) simp
  have sub: "unat (reg_start g + reg_size g - 1) = unat (reg_start g) + unat (reg_size g) - 1"
    using sum g(1) by (subst unat_sub) (simp_all add: word_le_nat_alt)
  show "reg_end g = Some (reg_start g + reg_size g)" using g(3) by (simp add: reg_end_def add_chk_def unat_add_lem [symmetric])
  show "sub_chk (reg_start g + reg_size g) 1 = Some (reg_start g + reg_size g - 1)"
    using sum g(1) by (simp add: sub_chk_def word_le_nat_alt)
  show "valid_range (region_range g)" "2 \<le> range_start (region_range g)"
    using sub g by (simp_all add: valid_range_def region_range_def range_new_def word_le_nat_alt)
  assume "a \<in> ival (region_range g)"
  then show "2 ^ 24 \<le> unat a \<and> unat a + off < 2 ^ 64 - 4096"
    using sub g by (auto simp: ival_def region_range_def range_new_def word_le_nat_alt)
qed

lemma insert_regions_eq:
  assumes "regions_list it = Some regs" "\<forall>g \<in> set regs. region_ok off g"
  shows "insert_regions it ms = try_for_each rs_insert ms (map region_range regs)"
  using assms
proof (induction it arbitrary: regs ms rule: regions_list.induct)
  case (1 it)
  show ?case
  proof (cases "regions_next it")
    case None
    then show ?thesis using 1(2) by (subst (asm) regions_list.simps) simp
  next
    case (Some x)
    obtain g it' where x: "(g, it') = x" by (metis surj_pair)
    show ?thesis
    proof (cases g)
      case None
      then have "regs = []" using 1(2) Some x [symmetric] by (subst (asm) regions_list.simps) simp
      then show ?thesis using None Some x [symmetric] by (subst insert_regions.simps) simp
    next
      case (Some h)
      obtain rest where rest: "regions_list it' = Some rest" "regs = h # rest"
        using 1(2) \<open>regions_next it = Some x\<close> x [symmetric] Some by (subst (asm) regions_list.simps) auto
      note h = region_range_props(1,2) [of off h]
      have "insert_regions it' ms' = try_for_each rs_insert ms' (map region_range rest)" for ms'
        using 1(1) [OF \<open>regions_next it = Some x\<close> x Some rest(1)] 1(3) rest(2) by simp
      then show ?thesis
        using 1(3) rest(2) h \<open>regions_next it = Some x\<close> x [symmetric] Some
        by (subst insert_regions.simps) (simp add: region_range_def cong: result.case_cong)
    qed
  qed
qed


section \<open>Adding the ranges\<close>

lemma page_ceil_le: "n \<le> page_ceil n" "page_ceil n < n + 4096"
  unfolding page_ceil_def by (simp_all add: minus_mod_eq_div_mult [symmetric])

lemma whole_pages_sub: "whole_pages r \<subseteq> {unat (range_start r) ..< unat (range_end r)}"
  using page_ceil_le(1) [of "unat (range_start r)"] div_times_less_eq_dividend [of "unat (range_end r) - page_ceil (unat (range_start r))" 4096]
  by (auto simp: whole_pages_def Let_def)

lemma whole_pages_ival: "whole_pages r \<subseteq> unat ` ival r"
proof
  fix x assume "x \<in> whole_pages r"
  then have x: "unat (range_start r) \<le> x" "x < unat (range_end r)" using whole_pages_sub [of r] by auto
  then have "unat (of_nat x :: usize) = x" using unat_less_2p [of "range_end r"] by (simp add: unat_of_nat)
  then show "x \<in> unat ` ival r" using x by (intro image_eqI [of _ _ "of_nat x"]) (auto simp: ival_def word_le_nat_alt)
qed

text \<open>What the allocator needs of a range: it lies in the mapped address space above the smallest address a block may have, and its first page is not one page behind a multiple of 16 KiB.\<close>

definition range_ok :: "nat \<Rightarrow> range \<Rightarrow> bool" where
  "range_ok off r \<longleftrightarrow> valid_range r \<and> 2 ^ 24 \<le> unat (range_start r) \<and> unat (range_end r) + off < 2 ^ 64 - 4096 \<and>
     page_ceil (unat (range_start r)) mod 0x4000 \<noteq> 0x1000"

lemma free_bytes_bounds: "buddy_inv s fl \<Longrightarrow> free_bytes fl \<subseteq> {2 ^ 24 ..< 2 ^ 64}"
  using blocks_invD(3) [of s fl] by (fastforce simp: buddy_inv_def free_bytes_def block_bytes_def block_ok_def)

lemma add_range_ok:
  assumes "buddy_inv s fl" "allocated (stats s) = 0" "range_ok (unat (phys_off s)) r"
    "{unat (range_start r) ..< unat (range_end r)} \<inter> free_bytes fl = {}"
  shows "if whole_pages r = {} then add_range s r = Some (Err (AllocError RegionTooSmall), s)
    else \<exists>s' fl'. add_range s r = Some (Ok (), s') \<and> buddy_inv s' fl' \<and> allocated (stats s') = 0 \<and> phys_off s' = phys_off s \<and>
      free_bytes fl' = free_bytes fl \<union> whole_pages r"
proof -
  let ?a = "unat (range_start r)" and ?b = "unat (range_end r)"
  have r: "?a \<le> ?b" "2 ^ 24 \<le> ?a" "?b + unat (phys_off s) < 2 ^ 64 - 4096"
    using assms(3) by (auto simp: range_ok_def valid_range_def word_le_nat_alt)
  have nz: "range_start r \<noteq> 0" "range_end r \<noteq> 0" using r by auto
  have st: "unat (total (stats s)) = card (free_bytes fl)"
    using assms(1,2) by (auto simp: buddy_inv_def stats_inv_def)
  have "card (free_bytes fl \<union> {?a..<?b}) \<le> card {2 ^ 24 ..< 2 ^ 64 :: nat}"
    using free_bytes_bounds [OF assms(1)] r by (intro card_mono) auto
  then have tot: "unat (total (stats s)) + (?b - ?a) < 2 ^ 64"
    using st assms(4) by (subst (asm) card_Un_disjoint) auto
  note add = add_region_spec [OF assms(1) _ _ r(2) _ assms(4) tot]
  have pre: "?a + 4096 < 2 ^ 64" "?b + unat (phys_off s) \<le> 2 ^ 64" "page_ceil ?a mod 0x4000 \<noteq> 0x1000"
    using r assms(3) by (auto simp: range_ok_def)
  show ?thesis
  proof (cases "whole_pages r = {}")
    case True
    then show ?thesis using add [OF pre] nz by (simp add: whole_pages_def Let_def add_range_def)
  next
    case False
    then obtain t s' fl' where a: "add_region s (range_start r) (range_end r) = Some (Ok t, s')" "buddy_inv s' fl'"
      "free_bytes fl' = free_bytes fl \<union> whole_pages r" "frame {page_ceil ?a..<?b} s s'"
      "unat (total (stats s')) = unat (total (stats s)) + (?b - page_ceil ?a) div 4096 * 4096"
      using add [OF pre] by (auto simp: whole_pages_def Let_def split: if_splits)
    have "card (free_bytes fl') = card (free_bytes fl) + card (whole_pages r)"
      unfolding a(3)
    proof (intro card_Un_disjoint)
      show "free_bytes fl \<inter> whole_pages r = {}" using assms(4) whole_pages_sub [of r] by blast
    qed (simp_all add: whole_pages_def Let_def)
    then have "unat (allocated (stats s')) = 0"
      using a(2,5) st by (auto simp: buddy_inv_def stats_inv_def whole_pages_def Let_def)
    then show ?thesis using a nz False by (auto simp: add_range_def frame_def unat_eq_0)
  qed
qed

text \<open>All ranges, or those before the first one without a whole page.\<close>

definition ranges_added :: "range list \<Rightarrow> nat set \<Rightarrow> nat set \<Rightarrow> (unit, pmem_error) result \<Rightarrow> bool" where
  "ranges_added rs F F' res \<longleftrightarrow>
     (case res of
        Ok _ \<Rightarrow> (\<forall>r \<in> set rs. whole_pages r \<noteq> {}) \<and> F' = F \<union> (\<Union>r \<in> set rs. whole_pages r)
      | Err e \<Rightarrow> e = AllocError RegionTooSmall \<and> (\<exists>r \<in> set rs. whole_pages r = {}) \<and> F \<subseteq> F' \<and> F' \<subseteq> F \<union> (\<Union>r \<in> set rs. whole_pages r))"

lemma add_ranges_ok:
  assumes "buddy_inv s fl" "allocated (stats s) = 0" "\<forall>r \<in> set rs. range_ok (unat (phys_off s)) r"
    "\<forall>r \<in> set rs. {unat (range_start r) ..< unat (range_end r)} \<inter> free_bytes fl = {}"
    "sorted_wrt (\<lambda>a b. \<not> overlaps a b) rs"
  shows "\<exists>res s' fl'. try_for_each add_range s rs = Some (res, s') \<and> buddy_inv s' fl' \<and> allocated (stats s') = 0 \<and>
    ranges_added rs (free_bytes fl) (free_bytes fl') res"
  using assms
proof (induction rs arbitrary: s fl)
  case Nil
  then show ?case by (auto simp: ranges_added_def)
next
  case (Cons r rs)
  have r: "range_ok (unat (phys_off s)) r" "{unat (range_start r) ..< unat (range_end r)} \<inter> free_bytes fl = {}"
    using Cons.prems(3,4) by simp_all
  note one = add_range_ok [OF Cons.prems(1,2) r]
  show ?case
  proof (cases "whole_pages r = {}")
    case True
    then show ?thesis using one Cons.prems(1,2) by (auto simp: ranges_added_def)
  next
    case False
    then obtain s1 fl1 where s1: "add_range s r = Some (Ok (), s1)" "buddy_inv s1 fl1" "allocated (stats s1) = 0"
      "phys_off s1 = phys_off s" "free_bytes fl1 = free_bytes fl \<union> whole_pages r" using one by auto
    have "{unat (range_start q) ..< unat (range_end q)} \<inter> free_bytes fl1 = {}" if q: "q \<in> set rs" for q
    proof -
      have "\<not> overlaps r q" using Cons.prems(5) q by simp
      then have "{unat (range_start q) ..< unat (range_end q)} \<inter> {unat (range_start r) ..< unat (range_end r)} = {}"
        by (auto simp: overlaps_def word_le_nat_alt)
      then show ?thesis using Cons.prems(4) q whole_pages_sub [of r] unfolding s1(5) by fastforce
    qed
    then obtain res s' fl' where "try_for_each add_range s1 rs = Some (res, s')" "buddy_inv s' fl'" "allocated (stats s') = 0"
      "ranges_added rs (free_bytes fl1) (free_bytes fl') res"
      using Cons.IH [OF s1(2,3)] Cons.prems(3,5) s1(4) by auto
    then show ?thesis
      using s1(1,5) False by (intro exI [of _ res] exI [of _ s'] exI [of _ fl']) (auto simp: ranges_added_def split: result.splits)
  qed
qed

section \<open>Initialization\<close>

text \<open>The ranges that are added: maximal intervals of the usable memory.\<close>

definition maximal_ranges :: "range list \<Rightarrow> usize set \<Rightarrow> bool" where
  "maximal_ranges rs M \<longleftrightarrow> (\<Union>r \<in> set rs. ival r) = M \<and> (\<forall>r \<in> set rs. valid_range r) \<and>
     (\<forall>i<length rs. \<forall>j<length rs. i \<noteq> j \<longrightarrow> \<not> touches (rs ! i) (rs ! j))"

lemma maximal_start:
  assumes "maximal_ranges rs M" "r \<in> set rs" "range_start r \<noteq> 0"
  shows "range_start r \<in> M" "range_start r - 1 \<notin> M"
proof -
  note mr = assms(1) [unfolded maximal_ranges_def]
  have v: "valid_range r" using mr assms(2) by blast
  have "range_start r \<in> ival r" using v by (simp add: valid_range_def ival_def)
  then show "range_start r \<in> M" using mr assms(2) by blast
  show "range_start r - 1 \<notin> M"
  proof
    assume "range_start r - 1 \<in> M"
    then obtain q where q: "q \<in> set rs" "range_start r - 1 \<in> ival q" using mr by blast
    have pos: "0 < unat (range_start r)" using assms(3) by (simp add: unat_gt_0)
    then have u: "unat (range_start r - 1) = unat (range_start r) - 1" by (subst unat_sub) (simp_all add: word_le_nat_alt)
    then have "q \<noteq> r" using q(2) pos by (auto simp: ival_def word_le_nat_alt)
    moreover have "unat (range_start r) \<le> unat (range_end q) + 1" "range_start q \<le> range_start r"
      using q(2) u by (auto simp: ival_def word_le_nat_alt)
    then have "touches r q" using v by (auto simp: touches_iff valid_range_def word_le_nat_alt)
    ultimately show False using mr assms(2) q(1) by (metis in_set_conv_nth)
  qed
qed

lemma maximal_as_slice:
  assumes "rs_wf ms" "apart ms"
  shows "maximal_ranges (as_slice ms) (rs_set ms)" "sorted_wrt (\<lambda>a b. \<not> overlaps a b) (as_slice ms)"
  using assms rs_wfD [OF assms(1)]
  by (auto simp: maximal_ranges_def rs_set_def as_slice_def apart_def in_set_conv_nth sorted_wrt_iff_nth_less)

lemma pmem_init_spec:
  assumes regs: "memory_regions t = Some regs" "length regs \<le> 5" "\<forall>g \<in> set regs. region_ok (unat (phys_off s)) g"
    and kernel: "kernel_start < kernel_end"
    and inv: "buddy_inv s fl" "free_bytes fl = {}" "allocated (stats s) = 0"
    and aligned: "\<forall>a \<in> usable_memory regs kernel_start kernel_end.
      a - 1 \<notin> usable_memory regs kernel_start kernel_end \<longrightarrow> page_ceil (unat a) mod 0x4000 \<noteq> 0x1000"
  shows "\<exists>rs res s' fl'. maximal_ranges rs (usable_memory regs kernel_start kernel_end) \<and>
    pmem_init t kernel_start kernel_end s = Some (res, s') \<and> buddy_inv s' fl' \<and> ranges_added rs {} (free_bytes fl') res"
proof -
  let ?M = "usable_memory regs kernel_start kernel_end" and ?fw = "range_new 0x80000000 0x801FFFFF" and ?k = "range_new kernel_start (kernel_end - 1)"
  obtain n it where n: "dt_memory t = Some n" "node_regions t n = Some it" "regions_list it = Some regs"
    using regs(1) by (auto simp: memory_regions_def split: bind_splits)
  have pos: "0 < unat kernel_end" using kernel by (auto simp: word_less_nat_alt)
  then have last: "sub_chk kernel_end 1 = Some (kernel_end - 1)" "unat (kernel_end - 1) = unat kernel_end - 1"
    by (simp_all add: sub_chk_def word_le_nat_alt unat_sub)
  have "\<forall>r \<in> set [?fw, ?k]. valid_range r"
    using kernel last(2) by (auto simp: valid_range_def range_new_def word_le_nat_alt word_less_nat_alt)
  moreover have "\<forall>r \<in> set (map region_range regs). valid_range r \<and> 2 \<le> range_start r"
    using regs(3) region_range_props(3,4) by auto
  ultimately obtain ms ms2 where ms: "try_for_each rs_insert rs_new (map region_range regs) = Some (Ok (), ms)"
    "try_for_each remove_range ms [?fw, ?k] = Some (Ok (), ms2)" "rs_wf ms2" "apart ms2"
    "rs_set ms2 = (\<Union>r \<in> set (map region_range regs). ival r) - (\<Union>r \<in> set [?fw, ?k]. ival r)"
    using rangeset.insert_then_remove [of "map region_range regs" "[?fw, ?k]"] regs(2) by auto
  have "ival ?fw = {0x80000000..0x801FFFFF}" "ival ?k = {kernel_start..kernel_end - 1}" by (simp_all add: ival_def range_new_def)
  then have M: "rs_set ms2 = ?M" unfolding ms(5) usable_memory_def by auto
  note mr = maximal_as_slice [OF ms(3,4)]
  have "range_ok (unat (phys_off s)) r" if r: "r \<in> set (as_slice ms2)" for r
  proof -
    have bound: "2 ^ 24 \<le> unat a \<and> unat a + unat (phys_off s) < 2 ^ 64 - 4096" if "a \<in> ?M" for a
      using that regs(3) region_range_props(5) by (fastforce simp: usable_memory_def)
    have v: "valid_range r" "ival r \<subseteq> ?M" using mr(1) r unfolding M maximal_ranges_def by auto
    then have mem: "range_start r \<in> ?M" "range_end r \<in> ?M" by (auto simp: valid_range_def ival_def)
    then have "range_start r \<noteq> 0" using bound by fastforce
    then have "range_start r - 1 \<notin> ?M" using maximal_start(2) [OF mr(1) r] M by simp
    then show ?thesis using v(1) bound [OF mem(1)] bound [OF mem(2)] aligned mem(1) by (auto simp: range_ok_def)
  qed
  then obtain res s' fl' where "try_for_each add_range s (as_slice ms2) = Some (res, s')" "buddy_inv s' fl'"
    "ranges_added (as_slice ms2) {} (free_bytes fl') res"
    using add_ranges_ok [OF inv(1,3) _ _ mr(2)] inv(2) by auto
  moreover have "pmem_init t kernel_start kernel_end s = try_for_each add_range s (as_slice ms2)"
    using n insert_regions_eq [OF n(3) regs(3)] ms(1,2) last(1)
    by (simp add: pmem_init_def get_blocked_ranges_def del: try_for_each.simps)
  ultimately show ?thesis using mr(1) M by auto
qed


section \<open>The last page of a range\<close>

lemma maximal_interval:
  assumes "maximal_ranges rs {a..b}" "a \<le> b"
  shows "set rs = {range_new a b}"
proof -
  note mr = assms(1) [unfolded maximal_ranges_def]
  have whole: "r = range_new a b" if r: "r \<in> set rs" "a \<in> ival r" for r
  proof -
    have sub: "ival r \<subseteq> {a..b}" and v: "valid_range r" using mr r(1) by auto
    then have st: "range_start r = a" "range_end r \<le> b" using r(2) by (auto simp: ival_def valid_range_def)
    have "range_end r = b"
    proof (rule ccontr)
      assume "range_end r \<noteq> b"
      then have lt: "range_end r < b" using st(2) by simp
      then have u: "unat (range_end r + 1) = unat (range_end r) + 1" using unat_less_2p [of b]
        by (subst unat_add_lem [THEN iffD1]) (auto simp: word_less_nat_alt)
      then have "range_end r + 1 \<in> {a..b}" using lt v st(1) by (auto simp: word_le_nat_alt word_less_nat_alt valid_range_def)
      then obtain q where q: "q \<in> set rs" "range_end r + 1 \<in> ival q" using mr by blast
      have "q \<noteq> r" using q(2) u by (auto simp: ival_def word_le_nat_alt)
      moreover have "touches r q" using q(2) u v by (auto simp: touches_iff ival_def word_le_nat_alt valid_range_def)
      ultimately show False using mr r(1) q(1) by (metis in_set_conv_nth)
    qed
    then show ?thesis using st(1) by (simp add: range_new_def)
  qed
  have "a \<in> (\<Union>r \<in> set rs. ival r)" unfolding mr [THEN conjunct1] using assms(2) by simp
  then obtain r where r: "r \<in> set rs" "a \<in> ival r" by blast
  have "q = r" if q: "q \<in> set rs" for q
  proof (rule ccontr)
    assume "q \<noteq> r"
    then have "\<not> touches r q" using mr r(1) q by (metis in_set_conv_nth)
    moreover have "ival q \<subseteq> {a..b}" "valid_range q" using mr q by auto
    ultimately show False using whole [OF r] by (auto simp: touches_iff ival_def valid_range_def range_new_def word_le_nat_alt)
  qed
  then have "set rs = {r}" using r(1) by blast
  then show ?thesis using whole [OF r] by simp
qed

lemma example_memory_regions: "memory_regions example_dtb = Some example_regions"
proof (rule memory_regions_spec [where R = example_root and M = example_memory and rest = "[]" and nm = example_names and ac = 2 and sc = 2])
  show "data_of example_names example_root (str ''#address-cells'') = Some (be_bytes 4 (unat (2 :: u32)))"
    "data_of example_names example_root (str ''#size-cells'') = Some (be_bytes 4 (unat (2 :: u32)))"
    "data_of example_names example_memory (str ''reg'') = Some (reg_bytes (unat (2 :: u32)) (unat (2 :: u32)) example_regions)"
    by (simp_all add: data_of_def named_props_def example_root_def example_memory_def example_names_def str_def of_char_def)
qed (use example_dtb_layout in \<open>auto simp: example_regions_def\<close>)

definition fresh_pmem :: pmem where
  "fresh_pmem = buddy_new \<lparr>mem = (\<lambda>_. 0), phys_off = 0\<rparr>"

lemma fresh_pmem_inv: "buddy_inv fresh_pmem (replicate 12 [])" "free_bytes (replicate 12 []) = {}"
  "allocated (stats fresh_pmem) = 0" "phys_off fresh_pmem = 0"
  by (auto simp: fresh_pmem_def buddy_new_def with_name_def buddy_inv_def blocks_inv_def free_lists_def free_bytes_def stats_inv_def MAX_ORDER_def)

lemma example_usable: "usable_memory example_regions 0x80200000 0x80300000 = {0x80300000..0x87FFFFFF}"
  by (auto simp: usable_memory_def example_regions_def region_range_def range_new_def ival_def word_le_nat_alt)

lemma example_init_pre:
  "\<forall>g \<in> set example_regions. region_ok (unat (phys_off fresh_pmem)) g" "length example_regions \<le> 5" "(0x80200000::usize) < 0x80300000"
  "\<forall>a \<in> usable_memory example_regions 0x80200000 0x80300000.
     a - 1 \<notin> usable_memory example_regions 0x80200000 0x80300000 \<longrightarrow> page_ceil (unat a) mod 0x4000 \<noteq> 0x1000"
proof -
  show "\<forall>g \<in> set example_regions. region_ok (unat (phys_off fresh_pmem)) g" "length example_regions \<le> 5" "(0x80200000::usize) < 0x80300000"
    by (simp_all add: example_regions_def region_ok_def fresh_pmem_inv(4))
  show "\<forall>a \<in> usable_memory example_regions 0x80200000 0x80300000.
     a - 1 \<notin> usable_memory example_regions 0x80200000 0x80300000 \<longrightarrow> page_ceil (unat a) mod 0x4000 \<noteq> 0x1000"
  proof (intro ballI impI)
    fix a assume a: "a \<in> usable_memory example_regions 0x80200000 0x80300000" "a - 1 \<notin> usable_memory example_regions 0x80200000 0x80300000"
    have "a = 0x80300000"
    proof (rule ccontr)
      assume "a \<noteq> 0x80300000"
      then have "unat a - 1 \<ge> 0x80300000" "unat (a - 1) = unat a - 1"
        using a(1) unfolding example_usable by (auto simp: word_le_nat_alt unat_sub word_unat_eq_iff)
      then show False using a unfolding example_usable by (auto simp: word_le_nat_alt)
    qed
    then show "page_ceil (unat a) mod 0x4000 \<noteq> 0x1000" by (simp add: page_ceil_def)
  qed
qed

text \<open>\<open>init\<close> passes the inclusive end of each range as the exclusive end of a region: with 128 MiB at \<open>0x80000000\<close>
  and a kernel up to \<open>0x80300000\<close> it succeeds, and the last page of the memory, which is usable, is not free.\<close>

theorem pmem_init_last_page:
  "\<exists>s' fl'. pmem_init example_dtb 0x80200000 0x80300000 fresh_pmem = Some (Ok (), s') \<and> buddy_inv s' fl' \<and>
     free_bytes fl' = {0x80300000 ..< 0x87FFF000} \<and>
     {0x87FFF000 ..< 0x88000000} \<subseteq> unat ` usable_memory example_regions 0x80200000 0x80300000"
proof -
  obtain rs res s' fl' where r: "maximal_ranges rs {0x80300000..0x87FFFFFF}"
    "pmem_init example_dtb 0x80200000 0x80300000 fresh_pmem = Some (res, s')" "buddy_inv s' fl'" "ranges_added rs {} (free_bytes fl') res"
    using pmem_init_spec [OF example_memory_regions example_init_pre(2,1,3) fresh_pmem_inv(1,2,3) example_init_pre(4)] example_usable by auto
  have rs: "set rs = {range_new 0x80300000 0x87FFFFFF}" using maximal_interval [OF r(1)] by simp
  have wp: "whole_pages (range_new 0x80300000 0x87FFFFFF) = {0x80300000 ..< 0x87FFF000}"
    by (simp add: whole_pages_def Let_def page_ceil_def range_new_def)
  have "res = Ok () \<and> free_bytes fl' = {0x80300000 ..< 0x87FFF000}"
    using r(4) rs wp by (auto simp: ranges_added_def split: result.splits)
  moreover have "x \<in> unat ` {0x80300000..0x87FFFFFF :: usize}" if "x \<in> {0x87FFF000 ..< 0x88000000}" for x :: nat
    using that by (intro image_eqI [where x = "of_nat x"]) (auto simp: word_le_nat_alt unat_of_nat)
  ultimately show ?thesis using r(2,3) example_usable by auto
qed


end
