(* ===== verification/Mutex.thy ===== *)
theory Mutex
  imports Prelude Transition
begin

text \<open>
  \<open>Mutex\<close> and \<open>MutexGuard\<close> of \<open>crates/riscv/src/sync.rs\<close>, a ticket lock, run by \<open>N\<close> harts in any
  interleaving of its atomic operations. A state is the two counters, the protected data and, for every hart, how far its call is.
  The loads and stores of the counters are sequentially consistent here. \<open>fetch_add\<close> wraps; the addition in \<open>drop\<close> is
  checked, and a hart that overflows it panics with the lock held.
\<close>

datatype mutex_pc = Idle | Waiting usize | Holding usize | Panicked

record 'd mutex =
  now_serving :: usize
  next_ticket :: usize
  mutex_data :: 'd
  pcs :: "nat \<Rightarrow> mutex_pc"

definition mutex_new :: "'d \<Rightarrow> 'd mutex" where
  "mutex_new val = \<lparr>now_serving = 0, next_ticket = 0, mutex_data = val, pcs = (\<lambda>_. Idle)\<rparr>"

text \<open>The first line of \<open>lock\<close>: take a ticket.\<close>

definition take_ticket :: "nat \<Rightarrow> 'd mutex \<Rightarrow> 'd mutex" where
  "take_ticket h s = s\<lparr>next_ticket := next_ticket s + 1, pcs := (pcs s)(h := Waiting (next_ticket s))\<rparr>"

text \<open>One round of the spin loop of \<open>lock\<close>: it ends when the ticket is served.\<close>

definition spin :: "nat \<Rightarrow> usize \<Rightarrow> 'd mutex \<Rightarrow> 'd mutex" where
  "spin h ticket s = (if now_serving s \<noteq> ticket then s else s\<lparr>pcs := (pcs s)(h := Holding ticket)\<rparr>)"

text \<open>An access through \<open>deref_mut\<close>.\<close>

definition guard_write :: "'d \<Rightarrow> 'd mutex \<Rightarrow> 'd mutex" where
  "guard_write d s = s\<lparr>mutex_data := d\<rparr>"

definition guard_drop :: "nat \<Rightarrow> usize \<Rightarrow> 'd mutex \<Rightarrow> 'd mutex" where
  "guard_drop h ticket s =
     (case add_chk ticket 1 of
        None \<Rightarrow> s\<lparr>pcs := (pcs s)(h := Panicked)\<rparr>
      | Some t \<Rightarrow> s\<lparr>now_serving := t, pcs := (pcs s)(h := Idle)\<rparr>)"

inductive mutex_step :: "nat \<Rightarrow> 'd mutex \<Rightarrow> 'd mutex \<Rightarrow> bool" for N where
  take: "h < N \<Longrightarrow> pcs s h = Idle \<Longrightarrow> mutex_step N s (take_ticket h s)"
| spin: "h < N \<Longrightarrow> pcs s h = Waiting t \<Longrightarrow> mutex_step N s (spin h t s)"
| access: "h < N \<Longrightarrow> pcs s h = Holding t \<Longrightarrow> mutex_step N s (guard_write d s)"
| drop: "h < N \<Longrightarrow> pcs s h = Holding t \<Longrightarrow> mutex_step N s (guard_drop h t s)"

section \<open>The specification: a first-in first-out lock\<close>

record 'd fifo =
  waiters :: "nat list"
  held :: bool
  fifo_data :: 'd

definition fifo_new :: "'d \<Rightarrow> 'd fifo" where
  "fifo_new val = \<lparr>waiters = [], held = False, fifo_data = val\<rparr>"

inductive fifo_step :: "'d fifo \<Rightarrow> 'd fifo \<Rightarrow> bool" where
  enqueue: "h \<notin> set (waiters a) \<Longrightarrow> fifo_step a (a\<lparr>waiters := waiters a @ [h]\<rparr>)"
| grant: "\<not> held a \<Longrightarrow> waiters a \<noteq> [] \<Longrightarrow> fifo_step a (a\<lparr>held := True\<rparr>)"
| access: "held a \<Longrightarrow> fifo_step a (a\<lparr>fifo_data := d\<rparr>)"
| leave: "held a \<Longrightarrow> fifo_step a (a\<lparr>held := False, waiters := tl (waiters a)\<rparr>)"

section \<open>Refinement\<close>

text \<open>
  The harts with a ticket, in the order of their tickets: the ticket of the \<open>i\<close>-th is \<open>i\<close> above the one being served
  (modulo the word size), and only the first can be past the spin loop.
\<close>

definition mutex_rel :: "nat \<Rightarrow> 'd mutex \<Rightarrow> 'd fifo \<Rightarrow> bool" where
  "mutex_rel N s a \<longleftrightarrow> distinct (waiters a) \<and> set (waiters a) \<subseteq> {..<N} \<and> fifo_data a = mutex_data s \<and>
     next_ticket s = now_serving s + of_nat (length (waiters a)) \<and> (held a \<longrightarrow> waiters a \<noteq> []) \<and>
     (\<forall>i<length (waiters a). if i = 0 \<and> held a then pcs s (waiters a ! i) \<in> {Holding (now_serving s), Panicked}
        else pcs s (waiters a ! i) = Waiting (now_serving s + of_nat i)) \<and>
     (\<forall>h. h \<notin> set (waiters a) \<longrightarrow> pcs s h = Idle) \<and> (\<forall>h. pcs s h = Panicked \<longrightarrow> now_serving s = - 1)"

lemma mutex_relD:
  assumes "mutex_rel N s a"
  shows "distinct (waiters a)" "length (waiters a) \<le> N" "pcs s h \<noteq> Idle \<longleftrightarrow> h \<in> set (waiters a)"
    "pcs s h = Waiting t \<Longrightarrow> \<exists>i<length (waiters a). h = waiters a ! i \<and> t = now_serving s + of_nat i \<and> (held a \<longrightarrow> i \<noteq> 0)"
    "pcs s h = Holding t \<Longrightarrow> held a \<and> waiters a \<noteq> [] \<and> h = hd (waiters a) \<and> t = now_serving s"
    "pcs s h = Panicked \<Longrightarrow> held a \<and> waiters a \<noteq> [] \<and> h = hd (waiters a) \<and> now_serving s = - 1"
proof -
  note r = assms [unfolded mutex_rel_def]
  show d: "distinct (waiters a)" using r by blast
  have "card (set (waiters a)) \<le> card {..<N}" using r by (intro card_mono) auto
  then show "length (waiters a) \<le> N" using d distinct_card by fastforce
  have at: "h \<in> set (waiters a) \<Longrightarrow> \<exists>i<length (waiters a). h = waiters a ! i \<and>
      (if i = 0 \<and> held a then pcs s h \<in> {Holding (now_serving s), Panicked} else pcs s h = Waiting (now_serving s + of_nat i))" for h
    using r by (metis in_set_conv_nth)
  have idle: "h \<notin> set (waiters a) \<Longrightarrow> pcs s h = Idle" for h using r by blast
  have ne: "held a \<Longrightarrow> waiters a \<noteq> []" using r by blast
  show "pcs s h \<noteq> Idle \<longleftrightarrow> h \<in> set (waiters a)" using at [of h] idle [of h] by (auto split: if_splits)
  show "pcs s h = Waiting t \<Longrightarrow> \<exists>i<length (waiters a). h = waiters a ! i \<and> t = now_serving s + of_nat i \<and> (held a \<longrightarrow> i \<noteq> 0)"
    using at [of h] idle [of h] by (cases "h \<in> set (waiters a)") (auto split: if_splits)
  show "pcs s h = Holding t \<Longrightarrow> held a \<and> waiters a \<noteq> [] \<and> h = hd (waiters a) \<and> t = now_serving s"
    using at [of h] idle [of h] ne by (cases "h \<in> set (waiters a)") (auto simp: hd_conv_nth split: if_splits)
  have "pcs s h = Panicked \<Longrightarrow> now_serving s = - 1" using r by blast
  then show "pcs s h = Panicked \<Longrightarrow> held a \<and> waiters a \<noteq> [] \<and> h = hd (waiters a) \<and> now_serving s = - 1"
    using at [of h] idle [of h] ne by (cases "h \<in> set (waiters a)") (auto simp: hd_conv_nth split: if_splits)
qed

lemma word_of_nat_0: "n < 2 ^ 64 \<Longrightarrow> (of_nat n :: usize) = 0 \<longleftrightarrow> n = 0"
  by (simp add: word_unat_eq_iff unat_of_nat)

lemma add_chk_Suc: "add_chk t 1 = (if t = - 1 then None else Some (t + 1))" for t :: usize
proof -
  have "unat t + 1 < 2 ^ 64 \<longleftrightarrow> t \<noteq> - 1" using unat_less_2p [of t] by (auto simp: word_unat_eq_iff unsigned_minus_1_eq_mask mask_eq_exp_minus_1)
  then show ?thesis by (simp add: add_chk_def)
qed

text \<open>The two steps of the hart at the head of the queue.\<close>

lemma head_spins:
  assumes "mutex_rel N s a" "waiters a = h # q" "\<not> held a"
  shows "h < N" "pcs s h = Waiting (now_serving s)" "mutex_rel N (spin h (now_serving s) s) (a\<lparr>held := True\<rparr>)"
proof -
  show pc: "h < N" "pcs s h = Waiting (now_serving s)" using assms by (auto simp: mutex_rel_def)
  have "h \<notin> set q" using mutex_relD(1) [OF assms(1)] assms(2) by simp
  then have "q ! i \<noteq> h" if "i < length q" for i using that nth_mem by blast
  then show "mutex_rel N (spin h (now_serving s) s) (a\<lparr>held := True\<rparr>)"
    using assms by (auto simp: mutex_rel_def spin_def nth_Cons')
qed

lemma head_drops:
  assumes "mutex_rel N s a" "waiters a = h # q" "held a" "now_serving s \<noteq> - 1"
  shows "h < N" "pcs s h = Holding (now_serving s)" "mutex_rel N (guard_drop h (now_serving s) s) (a\<lparr>held := False, waiters := q\<rparr>)"
    "now_serving (guard_drop h (now_serving s) s) = now_serving s + 1"
proof -
  show pc: "h < N" "pcs s h = Holding (now_serving s)" using assms by (fastforce simp: mutex_rel_def)+
  have "h \<notin> set q" using mutex_relD(1) [OF assms(1)] assms(2) by simp
  then have "q ! i \<noteq> h" if "i < length q" for i using that nth_mem by blast
  moreover have "pcs s k \<noteq> Panicked" for k using mutex_relD(6) [OF assms(1)] assms(4) by blast
  ultimately show "mutex_rel N (guard_drop h (now_serving s) s) (a\<lparr>held := False, waiters := q\<rparr>)"
    using assms by (auto simp: mutex_rel_def guard_drop_def add_chk_Suc nth_Cons' add.assoc)
  show "now_serving (guard_drop h (now_serving s) s) = now_serving s + 1" using assms(4) by (simp add: guard_drop_def add_chk_Suc)
qed

lemma mutex_rel_step:
  assumes "mutex_rel N s a" "mutex_step N s s'" "N < 2 ^ 64"
  shows "\<exists>a'. fifo_step\<^sup>=\<^sup>= a a' \<and> mutex_rel N s' a'"
  using assms(2)
proof cases
  case (take h)
  have "h \<notin> set (waiters a)" using mutex_relD(3) [OF assms(1)] take(3) by auto
  moreover have "mutex_rel N s' (a\<lparr>waiters := waiters a @ [h]\<rparr>)"
    using assms(1) calculation take(1,2) by (auto simp: mutex_rel_def take_ticket_def nth_append less_Suc_eq)
  ultimately show ?thesis using fifo_step.enqueue by blast
next
  case (spin h t)
  obtain i where i: "i < length (waiters a)" "h = waiters a ! i" "t = now_serving s + of_nat i" "held a \<longrightarrow> i \<noteq> 0"
    using mutex_relD(4) [OF assms(1) spin(3)] by blast
  show ?thesis
  proof (cases "i = 0")
    case True
    then obtain q where q: "waiters a = h # q" using i(1,2) by (cases "waiters a") auto
    have "fifo_step a (a\<lparr>held := True\<rparr>)" using i(4) True q by (intro fifo_step.grant) auto
    then show ?thesis using head_spins(3) [OF assms(1) q] i(3,4) True spin(1) by auto
  next
    case False
    have "i < 2 ^ 64" using i(1) mutex_relD(2) [OF assms(1)] assms(3) by linarith
    then have "now_serving s \<noteq> t" using False i(3) word_of_nat_0 by simp
    then show ?thesis using assms(1) spin(1) by (auto simp: spin_def)
  qed
next
  case (access h t d)
  have "fifo_step a (a\<lparr>fifo_data := d\<rparr>)" using mutex_relD(5) [OF assms(1) access(3)] by (blast intro: fifo_step.access)
  moreover have "mutex_rel N s' (a\<lparr>fifo_data := d\<rparr>)" using assms(1) access(1) by (auto simp: mutex_rel_def guard_write_def)
  ultimately show ?thesis by blast
next
  case (drop h t)
  have hd: "held a" "waiters a \<noteq> []" "h = hd (waiters a)" "t = now_serving s" using mutex_relD(5) [OF assms(1) drop(3)] by auto
  then obtain q where q: "waiters a = h # q" by (cases "waiters a") auto
  show ?thesis
  proof (cases "now_serving s = - 1")
    case True
    then have "mutex_rel N s' a" using assms(1) drop(1) q hd(1,4) True by (auto simp: mutex_rel_def guard_drop_def add_chk_Suc nth_Cons')
    then show ?thesis by blast
  next
    case False
    then show ?thesis using head_drops(3) [OF assms(1) q hd(1)] fifo_step.leave [OF hd(1)] q drop(1) hd(4) by auto
  qed
qed

interpretation mutex: simulation "mutex_new d" "mutex_step N" "fifo_new d" fifo_step "\<lambda>s a. N < 2 ^ 64 \<longrightarrow> mutex_rel N s a" for N d
proof unfold_locales
  show "N < 2 ^ 64 \<longrightarrow> mutex_rel N (mutex_new d) (fifo_new d)"
    by (simp add: mutex_rel_def mutex_new_def fifo_new_def)
  show "\<exists>a'. fifo_step\<^sup>*\<^sup>* a a' \<and> (N < 2 ^ 64 \<longrightarrow> mutex_rel N s' a')" if "N < 2 ^ 64 \<longrightarrow> mutex_rel N s a" "mutex_step N s s'" for s s' a
    using that mutex_rel_step [of N s a s'] by blast
qed

section \<open>Waiting\<close>

lemma unat_distance: "i < 2 ^ 64 \<Longrightarrow> unat (n + of_nat i - n) = i" for n :: usize
  by (simp add: unat_of_nat)

text \<open>From its place in the queue a hart gets the lock after the harts in front of it have each finished.\<close>

lemma waiter_served:
  assumes "mutex_rel N s a" "i < length (waiters a)" "\<not> (held a \<and> i = 0)" "unat (now_serving s) + i < 2 ^ 64 - 1"
  shows "\<exists>k\<le>2 * i + (if held a then 0 else 1). \<exists>s'. (mutex_step N ^^ k) s s' \<and> pcs s' (waiters a ! i) = Holding (now_serving s + of_nat i)"
  using assms
proof (induction "2 * i + (if held a then 0 else 1)" arbitrary: s a i rule: less_induct)
  case less
  obtain h q where q: "waiters a = h # q" using less.prems(2) by (cases "waiters a") auto
  have nz: "now_serving s \<noteq> - 1" using less.prems(4) by (auto simp: word_unat_eq_iff unsigned_minus_1_eq_mask mask_eq_exp_minus_1)
  show ?case
  proof (cases "held a")
    case True
    note d = head_drops [OF less.prems(1) q True nz]
    let ?s = "guard_drop h (now_serving s) s"
    obtain j where j: "i = Suc j" using less.prems(3) True by (cases i) auto
    have u: "unat (now_serving s + 1) = unat (now_serving s) + 1" using less.prems(4) by (subst unat_add_lem [THEN iffD1]) auto
    obtain k s' where k: "k \<le> 2 * j + 1" "(mutex_step N ^^ k) ?s s'" "pcs s' (q ! j) = Holding (now_serving s + 1 + of_nat j)"
      using less.hyps [OF _ d(3), of j] less.prems(2,4) True j q d(4) u by auto
    have "(mutex_step N ^^ Suc k) s s'" by (rule relpowp_Suc_I2 [OF mutex_step.drop [OF d(1,2)] k(2)])
    then show ?thesis using k(1,3) j q by (intro exI [of _ "Suc k"] exI [of _ s'] conjI) (auto simp: add.assoc)
  next
    case False
    note d = head_spins [OF less.prems(1) q False]
    let ?s = "spin h (now_serving s) s"
    have step: "mutex_step N s ?s" by (rule mutex_step.spin [OF d(1,2)])
    have now: "now_serving ?s = now_serving s" by (simp add: spin_def)
    show ?thesis
    proof (cases i)
      case 0
      have "(mutex_step N ^^ 1) s ?s" using step by (subst relpowp_1)
      moreover have "pcs ?s (waiters a ! i) = Holding (now_serving s + of_nat i)" using 0 q by (simp add: spin_def)
      ultimately show ?thesis using False by (intro exI [of _ 1] exI [of _ ?s] conjI) simp_all
    next
      case (Suc j)
      obtain k s' where k: "k \<le> 2 * i" "(mutex_step N ^^ k) ?s s'" "pcs s' (waiters a ! i) = Holding (now_serving s + of_nat i)"
        using less.hyps [OF _ d(3), of i] less.prems(2,4) False Suc now by auto
      have "(mutex_step N ^^ Suc k) s s'" by (rule relpowp_Suc_I2 [OF step k(2)])
      then show ?thesis using k(1,3) False by (intro exI [of _ "Suc k"] exI [of _ s'] conjI) auto
    qed
  qed
qed

text \<open>One step never lets a hart that took its ticket later pass a waiting hart.\<close>

lemma waiter_step:
  assumes "mutex_rel N s a" "mutex_step N s s'" "N < 2 ^ 64" "pcs s h = Waiting t"
  shows "unat (t - now_serving s) < N"
    "pcs s' h = Waiting t \<and> (now_serving s' = now_serving s \<or> now_serving s' = now_serving s + 1 \<and> t \<noteq> now_serving s) \<or>
     pcs s' h = Holding t \<and> t = now_serving s"
proof -
  obtain i where i: "i < length (waiters a)" "h = waiters a ! i" "t = now_serving s + of_nat i" "held a \<longrightarrow> i \<noteq> 0"
    using mutex_relD(4) [OF assms(1,4)] by blast
  have lt: "i < N" using i(1) mutex_relD(2) [OF assms(1)] by simp
  then have i64: "i < 2 ^ 64" using assms(3) by simp
  show "unat (t - now_serving s) < N" using lt unat_distance [OF i64] i(3) by simp
  show "pcs s' h = Waiting t \<and> (now_serving s' = now_serving s \<or> now_serving s' = now_serving s + 1 \<and> t \<noteq> now_serving s) \<or>
     pcs s' h = Holding t \<and> t = now_serving s"
    using assms(2)
  proof cases
    case (drop k u)
    have "held a" "u = now_serving s" using mutex_relD(5) [OF assms(1) drop(3)] by auto
    then have "t \<noteq> now_serving s" using i(3,4) word_of_nat_0 [OF i64] by simp
    then show ?thesis using drop assms(4) \<open>u = now_serving s\<close> by (auto simp: guard_drop_def add_chk_Suc)
  qed (use assms(4) in \<open>auto simp: take_ticket_def spin_def guard_write_def\<close>)
qed

section \<open>Properties\<close>

text \<open>C3: Every run of the ticket lock by fewer than \<open>2 ^ 64\<close> harts is matched by a run of the first-in first-out lock: the
  queue is the harts that have taken a ticket, in the order in which they took it, the lock is held exactly while its first hart is
  past the spin loop, and only that hart changes the data.\<close>

theorem mutex_refines_fifo:
  assumes "N < 2 ^ 64" "(mutex_step N)\<^sup>*\<^sup>* (mutex_new d) s"
  shows "\<exists>a. fifo_step\<^sup>*\<^sup>* (fifo_new d) a \<and> mutex_rel N s a"
  using mutex.reachable_rel [OF assms(2)] assms(1) by blast

text \<open>C16: Mutual exclusion: two harts are never past the spin loop of the same mutex, whatever the interleaving, and the one that is
  has the ticket being served.\<close>

theorem mutex_exclusive:
  assumes "N < 2 ^ 64" "(mutex_step N)\<^sup>*\<^sup>* (mutex_new d) s" "pcs s h = Holding t" "pcs s k \<in> {Holding u, Panicked}"
  shows "h = k \<and> t = now_serving s"
proof -
  obtain a where "mutex_rel N s a" using mutex.reachable_rel [OF assms(2)] assms(1) by blast
  then show ?thesis using mutex_relD(5) [of N s a h t] mutex_relD(5) [of N s a k u] mutex_relD(6) [of N s a k] assms(3,4) by auto
qed

text \<open>Bounded waiting: between the ticket being served and the ticket of a waiting hart there are fewer tickets than harts; no
  step increases their number, a step lowers it by at most one, and the waiting hart gets the lock only at zero.\<close>

theorem mutex_bounded_waiting:
  assumes "N < 2 ^ 64" "(mutex_step N)\<^sup>*\<^sup>* (mutex_new d) s" "mutex_step N s s'" "pcs s h = Waiting t"
  shows "unat (t - now_serving s) < N \<and>
    (pcs s' h = Waiting t \<and> unat (t - now_serving s') \<in> {unat (t - now_serving s), unat (t - now_serving s) - 1} \<or>
     pcs s' h = Holding t \<and> t = now_serving s)"
proof -
  obtain a where a: "mutex_rel N s a" using mutex.reachable_rel [OF assms(2)] assms(1) by blast
  have "unat (t - (now_serving s + 1)) = unat (t - now_serving s) - 1" if "t \<noteq> now_serving s"
    using that by (simp add: diff_diff_eq [symmetric] unat_minus_one)
  then show ?thesis using waiter_step [OF a assms(3,1,4)] by auto
qed


section \<open>A run\<close>

text \<open>Two harts take a ticket and the first one gets the lock.\<close>

definition example_mutex :: "nat mutex" where
  "example_mutex = spin 0 0 (take_ticket 1 (take_ticket 0 (mutex_new 7)))"

lemma example_mutex_fields:
  "now_serving example_mutex = 0" "pcs example_mutex 0 = Holding 0" "pcs example_mutex 1 = Waiting 1"
  by (simp_all add: example_mutex_def spin_def take_ticket_def mutex_new_def)

lemma example_mutex_run: "(mutex_step 2)\<^sup>*\<^sup>* (mutex_new 7) example_mutex"
proof -
  have "mutex_step 2 (mutex_new 7) (take_ticket 0 (mutex_new 7))"
    "mutex_step 2 (take_ticket 0 (mutex_new 7)) (take_ticket 1 (take_ticket 0 (mutex_new 7)))"
    "mutex_step 2 (take_ticket 1 (take_ticket 0 (mutex_new 7))) example_mutex"
    unfolding example_mutex_def by (rule mutex_step.intros; simp add: take_ticket_def mutex_new_def)+
  then show ?thesis by (meson converse_rtranclp_into_rtranclp rtranclp.rtrancl_refl)
qed

theorem mutex_refines_fifo_witness: "\<exists>a. fifo_step\<^sup>*\<^sup>* (fifo_new 7) a \<and> mutex_rel 2 example_mutex a"
  using mutex_refines_fifo [OF _ example_mutex_run] by simp

theorem mutex_exclusive_witness: "pcs example_mutex 0 = Holding 0 \<and> pcs example_mutex 1 \<notin> {Holding 1, Panicked}"
  using mutex_exclusive [OF _ example_mutex_run example_mutex_fields(2), of 1 1] example_mutex_fields(2) by auto

theorem mutex_bounded_waiting_witness:
  "pcs (guard_drop 0 0 example_mutex) 1 = Waiting 1 \<and> unat (1 - now_serving (guard_drop 0 0 example_mutex)) \<in> {1, 0}"
proof -
  have "mutex_step 2 example_mutex (guard_drop 0 0 example_mutex)"
    by (rule mutex_step.drop) (simp_all add: example_mutex_fields)
  then show ?thesis
    using mutex_bounded_waiting [OF _ example_mutex_run _ example_mutex_fields(3)] example_mutex_fields
    by (auto simp: guard_drop_def)
qed


end
