(* ===== verification/RwLock.thy ===== *)
theory RwLock
  imports Prelude Transition
begin

unbundle bit_operations_syntax

text \<open>
  \<open>RwLock\<close> and its guards of \<open>crates/riscv/src/sync.rs\<close>: one word that counts the readers in the upper bits and has the
  writer in bit 0, used by \<open>N\<close> harts in any interleaving of its atomic operations. A reader first adds itself and takes
  itself back when it finds the writer bit in the old value, so the count includes harts that have not got the lock.
\<close>

datatype rw_pc = RwIdle | ReadLoop | ReadUndo | Reading | WriteLoop | Writing

record 'd rwlock =
  rw_lock :: usize
  rw_data :: 'd
  rw_pcs :: "nat \<Rightarrow> rw_pc"

definition READER :: usize where "READER = push_bit 1 1"
definition WRITER :: usize where "WRITER = 1"

definition rwlock_new :: "'d \<Rightarrow> 'd rwlock" where
  "rwlock_new val = \<lparr>rw_lock = 0, rw_data = val, rw_pcs = (\<lambda>_. RwIdle)\<rparr>"

definition set_pc :: "nat \<Rightarrow> rw_pc \<Rightarrow> 'd rwlock \<Rightarrow> 'd rwlock" where
  "set_pc h pc s = s\<lparr>rw_pcs := (rw_pcs s)(h := pc)\<rparr>"

text \<open>The \<open>fetch_add\<close> of \<open>read\<close> with the test of the value it returns, and the \<open>fetch_sub\<close> that undoes it.\<close>

definition read_try :: "nat \<Rightarrow> 'd rwlock \<Rightarrow> 'd rwlock" where
  "read_try h s = (let value = rw_lock s; s' = s\<lparr>rw_lock := value + READER\<rparr> in
     if value AND WRITER \<noteq> 0 then set_pc h ReadUndo s' else set_pc h Reading s')"

definition read_undo :: "nat \<Rightarrow> 'd rwlock \<Rightarrow> 'd rwlock" where
  "read_undo h s = set_pc h ReadLoop (s\<lparr>rw_lock := rw_lock s - READER\<rparr>)"

text \<open>One round of \<open>write\<close>: \<open>compare_exchange(0, WRITER)\<close>.\<close>

definition write_try :: "nat \<Rightarrow> 'd rwlock \<Rightarrow> 'd rwlock" where
  "write_try h s = (if rw_lock s = 0 then set_pc h Writing (s\<lparr>rw_lock := WRITER\<rparr>) else s)"

definition read_drop :: "nat \<Rightarrow> 'd rwlock \<Rightarrow> 'd rwlock" where
  "read_drop h s = set_pc h RwIdle (s\<lparr>rw_lock := rw_lock s - READER\<rparr>)"

definition write_drop :: "nat \<Rightarrow> 'd rwlock \<Rightarrow> 'd rwlock" where
  "write_drop h s = set_pc h RwIdle (s\<lparr>rw_lock := rw_lock s AND NOT WRITER\<rparr>)"

inductive rwlock_step :: "nat \<Rightarrow> 'd rwlock \<Rightarrow> 'd rwlock \<Rightarrow> bool" for N where
  call_read: "h < N \<Longrightarrow> rw_pcs s h = RwIdle \<Longrightarrow> rwlock_step N s (set_pc h ReadLoop s)"
| call_write: "h < N \<Longrightarrow> rw_pcs s h = RwIdle \<Longrightarrow> rwlock_step N s (set_pc h WriteLoop s)"
| read_try: "h < N \<Longrightarrow> rw_pcs s h = ReadLoop \<Longrightarrow> rwlock_step N s (read_try h s)"
| read_undo: "h < N \<Longrightarrow> rw_pcs s h = ReadUndo \<Longrightarrow> rwlock_step N s (read_undo h s)"
| write_try: "h < N \<Longrightarrow> rw_pcs s h = WriteLoop \<Longrightarrow> rwlock_step N s (write_try h s)"
| write_data: "h < N \<Longrightarrow> rw_pcs s h = Writing \<Longrightarrow> rwlock_step N s (s\<lparr>rw_data := d\<rparr>)"
| read_drop: "h < N \<Longrightarrow> rw_pcs s h = Reading \<Longrightarrow> rwlock_step N s (read_drop h s)"
| write_drop: "h < N \<Longrightarrow> rw_pcs s h = Writing \<Longrightarrow> rwlock_step N s (write_drop h s)"

section \<open>The specification: many readers or one writer\<close>

record 'd rw_spec =
  readers :: "nat set"
  writer :: "nat option"
  spec_data :: 'd

definition rw_spec_new :: "'d \<Rightarrow> 'd rw_spec" where
  "rw_spec_new val = \<lparr>readers = {}, writer = None, spec_data = val\<rparr>"

inductive rw_spec_step :: "'d rw_spec \<Rightarrow> 'd rw_spec \<Rightarrow> bool" where
  enter_read: "writer a = None \<Longrightarrow> rw_spec_step a (a\<lparr>readers := insert h (readers a)\<rparr>)"
| leave_read: "h \<in> readers a \<Longrightarrow> rw_spec_step a (a\<lparr>readers := readers a - {h}\<rparr>)"
| enter_write: "writer a = None \<Longrightarrow> readers a = {} \<Longrightarrow> rw_spec_step a (a\<lparr>writer := Some h\<rparr>)"
| spec_write: "writer a = Some h \<Longrightarrow> rw_spec_step a (a\<lparr>spec_data := d\<rparr>)"
| leave_write: "writer a = Some h \<Longrightarrow> rw_spec_step a (a\<lparr>writer := None\<rparr>)"

section \<open>Refinement\<close>

text \<open>The harts counted in the upper bits.\<close>

definition counted :: "'d rwlock \<Rightarrow> nat set" where
  "counted s = {h. rw_pcs s h \<in> {Reading, ReadUndo}}"

definition rwlock_rel :: "nat \<Rightarrow> 'd rwlock \<Rightarrow> 'd rw_spec \<Rightarrow> bool" where
  "rwlock_rel N s a \<longleftrightarrow> (\<forall>h. rw_pcs s h \<noteq> RwIdle \<longrightarrow> h < N) \<and> spec_data a = rw_data s \<and>
     readers a = {h. rw_pcs s h = Reading} \<and> (\<forall>h. writer a = Some h \<longleftrightarrow> rw_pcs s h = Writing) \<and>
     (writer a \<noteq> None \<longrightarrow> readers a = {}) \<and>
     unat (rw_lock s) = 2 * card (counted s) + (if writer a = None then 0 else 1)"

lemma counted_bound:
  assumes "rwlock_rel N s a"
  shows "finite (counted s)" "card (counted s) \<le> N"
proof -
  have sub: "counted s \<subseteq> {..<N}"
  proof
    fix h assume "h \<in> counted s"
    then have "rw_pcs s h \<noteq> RwIdle" by (auto simp: counted_def)
    then show "h \<in> {..<N}" using assms by (simp add: rwlock_rel_def)
  qed
  then show "finite (counted s)" by (rule finite_subset) simp
  show "card (counted s) \<le> N" using card_mono [OF _ sub] by simp
qed

lemma odd_unat: "odd (unat w) \<longleftrightarrow> odd w" for w :: usize
  by (simp flip: bit_0 add: bit_unsigned_iff)

lemma writer_bit:
  assumes "rwlock_rel N s a"
  shows "rw_lock s AND WRITER \<noteq> 0 \<longleftrightarrow> writer a \<noteq> None"
proof -
  have "rw_lock s AND WRITER \<noteq> 0 \<longleftrightarrow> odd (unat (rw_lock s))" by (simp add: WRITER_def and_one_eq mod2_eq_if odd_unat)
  moreover have "unat (rw_lock s) = 2 * card (counted s) + (if writer a = None then 0 else 1)" using assms by (simp add: rwlock_rel_def)
  ultimately show ?thesis by simp
qed

lemma clear_writer:
  fixes w :: usize
  assumes "odd (unat w)"
  shows "unat (w AND NOT WRITER) = unat w - 1"
proof -
  have "(w AND NOT 1) + (w AND 1) = (w AND NOT 1) OR (w AND 1)"
    by (rule disjunctive_add_eq_or) (auto intro!: bit_eqI simp: bit_simps)
  also have "\<dots> = w" by (auto intro!: bit_eqI simp: bit_simps)
  finally have "w AND NOT 1 = w - (w AND 1)" by (simp add: eq_diff_eq)
  moreover have "w AND 1 = 1" using assms by (simp add: and_one_eq mod2_eq_if odd_unat)
  moreover have "1 \<le> w" using odd_pos [OF assms] by (simp add: word_le_nat_alt)
  ultimately show ?thesis by (simp add: WRITER_def unat_sub)
qed

lemma counted_set_pc:
  "counted (set_pc h pc s) = (if pc \<in> {Reading, ReadUndo} then insert h (counted s) else counted s - {h})"
  by (auto simp: counted_def set_pc_def)

lemma rw_fields [simp]:
  "rw_lock (set_pc h pc s) = rw_lock s" "rw_data (set_pc h pc s) = rw_data s"
  "rw_pcs (set_pc h pc s) = (rw_pcs s)(h := pc)" "counted (s\<lparr>rw_lock := w\<rparr>) = counted s" "counted (s\<lparr>rw_data := d\<rparr>) = counted s"
  by (simp_all add: set_pc_def counted_def)

lemma add_reader:
  assumes "rwlock_rel N s a" "N < 2 ^ 62" "h \<notin> counted s"
  shows "unat (rw_lock s + READER) = 2 * card (insert h (counted s)) + (if writer a = None then 0 else 1)"
proof -
  have l: "unat (rw_lock s) = 2 * card (counted s) + (if writer a = None then 0 else 1)" using assms(1) by (simp add: rwlock_rel_def)
  have "unat (rw_lock s) + 2 < 2 ^ 64" unfolding l using counted_bound(2) [OF assms(1)] assms(2) by auto
  then have "unat (rw_lock s + READER) = unat (rw_lock s) + 2" by (subst unat_add_lem [THEN iffD1]) (simp_all add: READER_def)
  then show ?thesis using l counted_bound(1) [OF assms(1)] assms(3) by simp
qed

lemma sub_reader:
  assumes "rwlock_rel N s a" "h \<in> counted s"
  shows "unat (rw_lock s - READER) = 2 * card (counted s - {h}) + (if writer a = None then 0 else 1)"
proof -
  have l: "unat (rw_lock s) = 2 * card (counted s) + (if writer a = None then 0 else 1)" using assms(1) by (simp add: rwlock_rel_def)
  have c: "card (counted s) = Suc (card (counted s - {h}))" using counted_bound(1) [OF assms(1)] assms(2) by (metis card_Suc_Diff1)
  have "unat (rw_lock s - READER) = unat (rw_lock s) - 2"
    using l c by (subst unat_sub) (simp_all add: READER_def word_le_nat_alt)
  then show ?thesis using l c by simp
qed

lemma rwlock_rel_step:
  assumes "rwlock_rel N s a" "rwlock_step N s s'" "N < 2 ^ 62"
  shows "\<exists>a'. rw_spec_step\<^sup>=\<^sup>= a a' \<and> rwlock_rel N s' a'"
  using assms(2)
proof cases
  case (call_read h)
  have "h \<notin> counted s" using call_read(3) by (simp add: counted_def)
  then have "rwlock_rel N s' a" using assms(1) call_read by (auto simp: rwlock_rel_def counted_set_pc)
  then show ?thesis by blast
next
  case (call_write h)
  have "h \<notin> counted s" using call_write(3) by (simp add: counted_def)
  then have "rwlock_rel N s' a" using assms(1) call_write by (auto simp: rwlock_rel_def counted_set_pc)
  then show ?thesis by blast
next
  case (read_try h)
  have h: "h \<notin> counted s" using read_try(3) by (simp add: counted_def)
  note l = add_reader [OF assms(1,3) h] writer_bit [OF assms(1)]
  show ?thesis
  proof (cases "writer a = None")
    case True
    have "rwlock_rel N s' (a\<lparr>readers := insert h (readers a)\<rparr>)"
      using assms(1) read_try l True by (auto simp: rwlock_rel_def read_try_def counted_set_pc)
    then show ?thesis using rw_spec_step.enter_read [OF True] by blast
  next
    case False
    have "rwlock_rel N s' a" using assms(1) read_try l False by (auto simp: rwlock_rel_def read_try_def counted_set_pc)
    then show ?thesis by blast
  qed
next
  case (read_undo h)
  have h: "h \<in> counted s" using read_undo(3) by (simp add: counted_def)
  have "rwlock_rel N s' a" using assms(1) read_undo sub_reader [OF assms(1) h] by (auto simp: rwlock_rel_def read_undo_def counted_set_pc)
  then show ?thesis by blast
next
  case (write_try h)
  show ?thesis
  proof (cases "rw_lock s = 0")
    case True
    then have e: "writer a = None" "counted s = {}" using assms(1) counted_bound(1) [OF assms(1)] by (auto simp: rwlock_rel_def split: if_splits)
    then have "readers a = {}" using assms(1) by (auto simp: rwlock_rel_def counted_def)
    moreover have "rwlock_rel N s' (a\<lparr>writer := Some h\<rparr>)"
      using assms(1) write_try e True calculation by (auto simp: rwlock_rel_def write_try_def counted_set_pc WRITER_def)
    ultimately show ?thesis using rw_spec_step.enter_write [OF e(1)] by blast
  next
    case False
    then show ?thesis using assms(1) write_try(1) by (auto simp: write_try_def)
  qed
next
  case (write_data h d)
  have w: "writer a = Some h" using assms(1) write_data(3) by (simp add: rwlock_rel_def)
  have "rwlock_rel N s' (a\<lparr>spec_data := d\<rparr>)" using assms(1) write_data(1) by (auto simp: rwlock_rel_def)
  then show ?thesis using rw_spec_step.spec_write [OF w] by blast
next
  case (read_drop h)
  have h: "h \<in> counted s" "h \<in> readers a" using read_drop(3) assms(1) by (auto simp: counted_def rwlock_rel_def)
  have "rwlock_rel N s' (a\<lparr>readers := readers a - {h}\<rparr>)"
    using assms(1) read_drop sub_reader [OF assms(1) h(1)] by (auto simp: rwlock_rel_def read_drop_def counted_set_pc)
  then show ?thesis using rw_spec_step.leave_read [OF h(2)] by blast
next
  case (write_drop h)
  have w: "writer a = Some h" "h \<notin> counted s" using assms(1) write_drop(3) by (auto simp: rwlock_rel_def counted_def)
  then have "odd (unat (rw_lock s))" using assms(1) by (simp add: rwlock_rel_def)
  then have "rwlock_rel N s' (a\<lparr>writer := None\<rparr>)"
    using assms(1) write_drop w clear_writer [of "rw_lock s"] by (auto simp: rwlock_rel_def write_drop_def counted_set_pc)
  then show ?thesis using rw_spec_step.leave_write [OF w(1)] by blast
qed

interpretation rwlock: simulation "rwlock_new d" "rwlock_step N" "rw_spec_new d" rw_spec_step "\<lambda>s a. N < 2 ^ 62 \<longrightarrow> rwlock_rel N s a" for N d
proof unfold_locales
  show "N < 2 ^ 62 \<longrightarrow> rwlock_rel N (rwlock_new d) (rw_spec_new d)"
    by (simp add: rwlock_rel_def rwlock_new_def rw_spec_new_def counted_def)
  show "\<exists>a'. rw_spec_step\<^sup>*\<^sup>* a a' \<and> (N < 2 ^ 62 \<longrightarrow> rwlock_rel N s' a')" if "N < 2 ^ 62 \<longrightarrow> rwlock_rel N s a" "rwlock_step N s s'" for s s' a
    using that rwlock_rel_step [of N s a s'] by blast
qed

section \<open>Properties\<close>

text \<open>C12: Every run of the read-write lock by fewer than \<open>2 ^ 62\<close> harts is matched by a run of the specification, in which a reader
  enters only without a writer, and a writer only without a writer and without readers.\<close>

theorem rwlock_refines:
  assumes "N < 2 ^ 62" "(rwlock_step N)\<^sup>*\<^sup>* (rwlock_new d) s"
  shows "\<exists>a. rw_spec_step\<^sup>*\<^sup>* (rw_spec_new d) a \<and> rwlock_rel N s a"
  using rwlock.reachable_rel [OF assms(2)] assms(1) by blast

text \<open>C18: In every reachable state of the read-write lock there is at most one writer, no reader beside a writer, and the lock word is
  zero when no hart holds the lock or is taking its count back.\<close>

theorem rwlock_exclusive:
  assumes "N < 2 ^ 62" "(rwlock_step N)\<^sup>*\<^sup>* (rwlock_new d) s"
  shows "(\<forall>h k. rw_pcs s h = Writing \<longrightarrow> rw_pcs s k \<noteq> Reading \<and> (rw_pcs s k = Writing \<longrightarrow> h = k)) \<and>
    ((\<forall>h. rw_pcs s h \<notin> {Reading, ReadUndo, Writing}) \<longrightarrow> rw_lock s = 0)"
proof -
  obtain a where a: "rwlock_rel N s a" using rwlock.reachable_rel [OF assms(2)] assms(1) by blast
  have "rw_lock s = 0" if "\<forall>h. rw_pcs s h \<notin> {Reading, ReadUndo, Writing}"
  proof -
    have "counted s = {}" "writer a = None" using that a by (auto simp: counted_def rwlock_rel_def)
    then show ?thesis using a by (simp add: rwlock_rel_def unat_eq_0)
  qed
  moreover have "h = k" if "rw_pcs s h = Writing" "rw_pcs s k = Writing" for h k
    using that a unfolding rwlock_rel_def by (metis option.inject)
  ultimately show ?thesis using a unfolding rwlock_rel_def by blast
qed

section \<open>A run\<close>

text \<open>A hart writes while another one tries to read.\<close>

definition example_rwlock :: "nat rwlock" where
  "example_rwlock = read_try 1 (write_try 0 (set_pc 1 ReadLoop (set_pc 0 WriteLoop (rwlock_new 7))))"

lemma example_rwlock_run: "(rwlock_step 2)\<^sup>*\<^sup>* (rwlock_new 7) example_rwlock"
proof -
  let ?s1 = "set_pc 0 WriteLoop (rwlock_new 7)"
  let ?s2 = "set_pc 1 ReadLoop ?s1"
  have "rwlock_step 2 (rwlock_new 7) ?s1" "rwlock_step 2 ?s1 ?s2" "rwlock_step 2 ?s2 (write_try 0 ?s2)"
    "rwlock_step 2 (write_try 0 ?s2) example_rwlock"
    unfolding example_rwlock_def by (rule rwlock_step.intros; simp add: rwlock_new_def write_try_def)+
  then show ?thesis by (meson converse_rtranclp_into_rtranclp rtranclp.rtrancl_refl)
qed

theorem rwlock_refines_witness: "\<exists>a. rw_spec_step\<^sup>*\<^sup>* (rw_spec_new 7) a \<and> rwlock_rel 2 example_rwlock a"
  using rwlock_refines [OF _ example_rwlock_run] by simp

theorem rwlock_exclusive_witness: "rw_pcs example_rwlock 0 = Writing \<and> rw_pcs example_rwlock 1 \<noteq> Reading"
proof -
  have "rw_pcs example_rwlock 0 = Writing"
    by (simp add: example_rwlock_def read_try_def write_try_def rwlock_new_def Let_def)
  then show ?thesis using rwlock_exclusive [OF _ example_rwlock_run] by auto
qed

end
