(* ===== verification/Trap_Cause.thy ===== *)
theory Trap_Cause
  imports Prelude
begin

unbundle bit_operations_syntax

text \<open>
  \<open>crates/riscv/src/trap.rs\<close>: the kinds of traps and the decoding of the \<open>scause\<close> register, and the Rust part of the
  kernel's trap handler (\<open>trap_handler\<close> of \<open>crates/kernel/src/trap.rs\<close>).
\<close>

definition INTERRUPT_BIT :: usize where "INTERRUPT_BIT = push_bit 63 1"

datatype trap =
  UserSoftwareInterrupt | SupervisorSoftwareInterrupt | MachineSoftwareInterrupt | UserTimerInterrupt
| SupervisorTimerInterrupt | MachineTimerInterrupt | UserExternalInterrupt | SupervisorExternalInterrupt
| MachineExternalInterrupt
| InstructionAddressMisaligned | InstructionAccessFault | IllegalInstruction | Breakpoint | LoadAddressMisaligned
| LoadAccessFault | StoreAddressMisaligned | StoreAccessFault | UserModeEnvironmentCall | SupervisorModeEnvironmentCall
| MachineModeEnvironmentCall | InstructionPageFault | LoadPageFault | StorePageFault
| Reserved

definition NON_INTERRUPT_TABLE :: "trap list" where
  "NON_INTERRUPT_TABLE =
     [InstructionAddressMisaligned, InstructionAccessFault, IllegalInstruction, Breakpoint, LoadAddressMisaligned,
      LoadAccessFault, StoreAddressMisaligned, StoreAccessFault, UserModeEnvironmentCall, SupervisorModeEnvironmentCall,
      Reserved, MachineModeEnvironmentCall, InstructionPageFault, LoadPageFault, Reserved, StorePageFault]"

definition INTERRUPT_TABLE :: "trap list" where
  "INTERRUPT_TABLE =
     [UserSoftwareInterrupt, SupervisorSoftwareInterrupt, Reserved, MachineSoftwareInterrupt, UserTimerInterrupt,
      SupervisorTimerInterrupt, Reserved, MachineTimerInterrupt, UserExternalInterrupt, SupervisorExternalInterrupt,
      Reserved, MachineExternalInterrupt]"

definition from_cause :: "usize \<Rightarrow> trap option" where
  "from_cause cause =
     (if cause AND INTERRUPT_BIT \<noteq> 0 then nth_chk INTERRUPT_TABLE (unat (cause AND NOT INTERRUPT_BIT))
      else nth_chk NON_INTERRUPT_TABLE (unat cause))"

text \<open>
  The value is the new \<open>sepc\<close>; \<open>None\<close> is a panic or, for the software interrupt, the endless loop. The frame is not used
  and a timer interrupt only writes a log message.
\<close>

definition trap_handler :: "usize \<Rightarrow> usize \<Rightarrow> usize \<Rightarrow> usize option" where
  "trap_handler scause stval sepc =
     (case from_cause scause of
        None \<Rightarrow> None
      | Some SupervisorExternalInterrupt \<Rightarrow> Some sepc
      | Some SupervisorTimerInterrupt \<Rightarrow> Some sepc
      | Some SupervisorSoftwareInterrupt \<Rightarrow> None
      | Some _ \<Rightarrow> None)"

section \<open>The encoding of the privileged architecture\<close>

text \<open>The interrupt flag and exception code of every trap.\<close>

fun cause_code :: "trap \<Rightarrow> (bool \<times> nat) option" where
  "cause_code UserSoftwareInterrupt = Some (True, 0)"
| "cause_code SupervisorSoftwareInterrupt = Some (True, 1)"
| "cause_code MachineSoftwareInterrupt = Some (True, 3)"
| "cause_code UserTimerInterrupt = Some (True, 4)"
| "cause_code SupervisorTimerInterrupt = Some (True, 5)"
| "cause_code MachineTimerInterrupt = Some (True, 7)"
| "cause_code UserExternalInterrupt = Some (True, 8)"
| "cause_code SupervisorExternalInterrupt = Some (True, 9)"
| "cause_code MachineExternalInterrupt = Some (True, 11)"
| "cause_code InstructionAddressMisaligned = Some (False, 0)"
| "cause_code InstructionAccessFault = Some (False, 1)"
| "cause_code IllegalInstruction = Some (False, 2)"
| "cause_code Breakpoint = Some (False, 3)"
| "cause_code LoadAddressMisaligned = Some (False, 4)"
| "cause_code LoadAccessFault = Some (False, 5)"
| "cause_code StoreAddressMisaligned = Some (False, 6)"
| "cause_code StoreAccessFault = Some (False, 7)"
| "cause_code UserModeEnvironmentCall = Some (False, 8)"
| "cause_code SupervisorModeEnvironmentCall = Some (False, 9)"
| "cause_code MachineModeEnvironmentCall = Some (False, 11)"
| "cause_code InstructionPageFault = Some (False, 12)"
| "cause_code LoadPageFault = Some (False, 13)"
| "cause_code StorePageFault = Some (False, 15)"
| "cause_code Reserved = None"

definition cause_word :: "bool \<times> nat \<Rightarrow> usize" where
  "cause_word c = (if fst c then INTERRUPT_BIT else 0) + of_nat (snd c)"

lemma bit_INTERRUPT_BIT: "bit INTERRUPT_BIT k \<longleftrightarrow> k = 63"
  unfolding INTERRUPT_BIT_def bit_push_bit_iff by (auto simp: bit_1_iff)

lemma cause_flag:
  assumes "n < 2 ^ 63"
  shows "cause_word (b, n) AND INTERRUPT_BIT \<noteq> 0 \<longleftrightarrow> b" "unat (cause_word (True, n) AND NOT INTERRUPT_BIT) = n" "unat (cause_word (False, n)) = n"
proof -
  have hi: "\<not> bit (of_nat n :: usize) 63"
  proof -
    have "\<not> bit (unat (of_nat n :: usize)) 63" using assms by (simp add: unat_of_nat bit_iff_odd)
    then show ?thesis by (simp add: bit_unsigned_iff)
  qed
  have "INTERRUPT_BIT + of_nat n = INTERRUPT_BIT OR (of_nat n :: usize)"
    by (rule disjunctive_add) (use hi in \<open>auto simp: bit_INTERRUPT_BIT bit_simps\<close>)
  then have w: "cause_word (True, n) = INTERRUPT_BIT OR of_nat n" by (simp add: cause_word_def)
  have "(INTERRUPT_BIT OR of_nat n) AND NOT INTERRUPT_BIT = (of_nat n :: usize)"
    using hi by (auto intro!: bit_eqI simp: bit_INTERRUPT_BIT bit_simps)
  then show "unat (cause_word (True, n) AND NOT INTERRUPT_BIT) = n" using assms unfolding w by (simp add: unat_of_nat)
  show "unat (cause_word (False, n)) = n" using assms by (simp add: cause_word_def unat_of_nat)
  have "bit ((INTERRUPT_BIT OR of_nat n) AND INTERRUPT_BIT) 63" by (simp add: bit_INTERRUPT_BIT bit_and_iff bit_or_iff)
  then have "(INTERRUPT_BIT OR of_nat n) AND INTERRUPT_BIT \<noteq> (0 :: usize)" by fastforce
  moreover have "(of_nat n :: usize) AND INTERRUPT_BIT = 0"
    using hi by (auto intro!: bit_eqI simp: bit_INTERRUPT_BIT bit_simps)
  ultimately show "cause_word (b, n) AND INTERRUPT_BIT \<noteq> 0 \<longleftrightarrow> b" using w by (cases b) (auto simp: cause_word_def)
qed

text \<open>The word of a flag and a code takes every value.\<close>

lemma cause_word_surj:
  obtains b n where "c = cause_word (b, n)" "n < 2 ^ 63"
proof
  let ?n = "unat c mod 2 ^ 63" and ?b = "2 ^ 63 \<le> unat c"
  show "?n < 2 ^ 63" by simp
  have eq: "unat c = (if ?b then 2 ^ 63 else 0) + ?n"
    using unat_less_2p [of c] by (auto simp: mod_if)
  have "c = of_nat (unat c)" by simp
  also have "\<dots> = of_nat ((if ?b then 2 ^ 63 else 0) + ?n)" using eq by (rule arg_cong)
  finally show "c = cause_word (?b, ?n)" by (cases ?b) (simp_all add: cause_word_def INTERRUPT_BIT_def)
qed

text \<open>\<open>from_cause\<close> agrees with the encoding of the privileged architecture: it answers \<open>None\<close> exactly for codes behind its tables
  (16 exceptions, 12 interrupts), and every trap it names has that flag and code; every trap but \<open>Reserved\<close> is found at its code.\<close>

theorem from_cause_correct:
  assumes "n < 2 ^ 63"
  shows "(from_cause (cause_word (b, n)) = None \<longleftrightarrow> (if b then 12 else 16) \<le> n) \<and>
    (\<forall>t. t \<noteq> Reserved \<longrightarrow> (from_cause (cause_word (b, n)) = Some t \<longleftrightarrow> cause_code t = Some (b, n)))"
proof -
  have tab: "from_cause (cause_word (b, n)) = nth_chk (if b then INTERRUPT_TABLE else NON_INTERRUPT_TABLE) n"
    using cause_flag [OF assms] by (cases b) (auto simp: from_cause_def)
  have len: "length INTERRUPT_TABLE = 12" "length NON_INTERRUPT_TABLE = 16" by (simp_all add: INTERRUPT_TABLE_def NON_INTERRUPT_TABLE_def)
  have none: "from_cause (cause_word (b, n)) = None \<longleftrightarrow> (if b then 12 else 16) \<le> n"
    unfolding tab using len by (simp add: nth_chk_def)
  have "from_cause (cause_word (b, n)) = Some t \<longleftrightarrow> cause_code t = Some (b, n)" if "t \<noteq> Reserved" for t
  proof (cases "n < (if b then 12 else 16)")
    case True
    then show ?thesis unfolding tab using that len
      by (cases b; cases t) (auto simp: nth_chk_def INTERRUPT_TABLE_def NON_INTERRUPT_TABLE_def nth_Cons' split: if_splits)
  next
    case False
    then show ?thesis using none that by (cases b; cases t) auto
  qed
  then show ?thesis using none by blast
qed

theorem from_cause_correct_witness: "from_cause (cause_word (True, 9)) = Some SupervisorExternalInterrupt"
  using from_cause_correct [of 9 True] by simp

end
