(* ===== verification/Trap_Asm.thy ===== *)
theory Trap_Asm
  imports Trap_Cause
begin

text \<open>
  The assembly of \<open>_trap_handler\<close> in \<open>crates/kernel/src/trap.rs\<close>, instruction by instruction, on a model of the
  part of a hart it uses. Registers are numbered (\<open>sp\<close> is 2, \<open>t0\<close> is 5, \<open>s0\<close> is 8, \<open>a0\<close> to \<open>a3\<close> are 10 to 13);
  memory is a function from addresses to the doubleword there. The code that the compiler generates for the Rust function
  \<open>trap_handler\<close> is a parameter: what the call does to the hart besides returning the value of the Rust function.
\<close>

section \<open>The hart\<close>

datatype csr = Sstatus | Sie | Stvec | Sscratch | Sepc | Scause | Stval | Satp

record hart =
  xreg :: "nat \<Rightarrow> u64"
  freg :: "nat \<Rightarrow> u64"
  fcsr :: u64
  csrs :: "csr \<Rightarrow> u64"
  hmem :: "usize \<Rightarrow> u64"
  hpc :: usize

definition wr :: "nat \<Rightarrow> u64 \<Rightarrow> hart \<Rightarrow> hart" where
  "wr rd v s = (if rd = 0 then s else s\<lparr>xreg := (xreg s)(rd := v)\<rparr>)"

definition wcsr :: "csr \<Rightarrow> u64 \<Rightarrow> hart \<Rightarrow> hart" where
  "wcsr c v s = s\<lparr>csrs := (csrs s)(c := v)\<rparr>"

definition addr :: "hart \<Rightarrow> nat \<Rightarrow> int \<Rightarrow> usize" where
  "addr s rs off = xreg s rs + of_int off"

datatype instr =
  Csrci csr u64 | Csrrw nat csr nat | Csrs csr nat | Csrw csr nat | Csrr nat csr
| Sd nat int nat | Ld nat int nat | Fsd nat int nat | Fld nat int nat
| Addi nat nat int | Li nat u64 | Mv nat nat | Frcsr nat | Fscsr nat | Sret

text \<open>
  The return from the trap restores the interrupt enable bit (bit 1) of \<open>sstatus\<close> from bit 5, sets bit 5 and continues at
  \<open>sepc\<close>.
\<close>

fun step_instr :: "instr \<Rightarrow> hart \<Rightarrow> hart" where
  "step_instr (Csrci c m) s = wcsr c (csrs s c AND NOT m) s"
| "step_instr (Csrrw rd c rs) s = wr rd (csrs s c) (wcsr c (xreg s rs) s)"
| "step_instr (Csrs c rs) s = wcsr c (csrs s c OR xreg s rs) s"
| "step_instr (Csrw c rs) s = wcsr c (xreg s rs) s"
| "step_instr (Csrr rd c) s = wr rd (csrs s c) s"
| "step_instr (Sd rs2 off rs1) s = s\<lparr>hmem := (hmem s)(addr s rs1 off := xreg s rs2)\<rparr>"
| "step_instr (Ld rd off rs1) s = wr rd (hmem s (addr s rs1 off)) s"
| "step_instr (Fsd rs2 off rs1) s = s\<lparr>hmem := (hmem s)(addr s rs1 off := freg s rs2)\<rparr>"
| "step_instr (Fld rd off rs1) s = s\<lparr>freg := (freg s)(rd := hmem s (addr s rs1 off))\<rparr>"
| "step_instr (Addi rd rs imm) s = wr rd (xreg s rs + of_int imm) s"
| "step_instr (Li rd v) s = wr rd v s"
| "step_instr (Mv rd rs) s = wr rd (xreg s rs) s"
| "step_instr (Frcsr rd) s = wr rd (fcsr s) s"
| "step_instr (Fscsr rs) s = s\<lparr>fcsr := xreg s rs\<rparr>"
| "step_instr Sret s =
     (let st = csrs s Sstatus; sie = (if bit st 5 then st OR 2 else st AND NOT 2)
      in (wcsr Sstatus (sie OR push_bit 5 1) s)\<lparr>hpc := csrs s Sepc\<rparr>)"

definition run :: "instr list \<Rightarrow> hart \<Rightarrow> hart" where
  "run is s = fold step_instr is s"

section \<open>The accessors of the control registers\<close>

definition csr_read :: "csr \<Rightarrow> hart \<Rightarrow> usize" where
  "csr_read c s = csrs s c"

definition csr_write :: "csr \<Rightarrow> usize \<Rightarrow> hart \<Rightarrow> hart" where
  "csr_write c bits s = wcsr c bits s"

definition csr_set :: "csr \<Rightarrow> usize \<Rightarrow> hart \<Rightarrow> hart" where
  "csr_set c m s = wcsr c (csrs s c OR m) s"

definition csr_clear :: "csr \<Rightarrow> usize \<Rightarrow> hart \<Rightarrow> hart" where
  "csr_clear c m s = wcsr c (csrs s c AND NOT m) s"

section \<open>The trap frame\<close>

text \<open>The fields in the order of the structures, each a \<open>usize\<close>; \<open>repr(C)\<close> puts the fields one after the other.\<close>

definition XRegisters :: "string list" where
  "XRegisters =
     [''ra'', ''sp'', ''gp'', ''tp'', ''t0'', ''t1'', ''t2'', ''s0'', ''s1'', ''a0'', ''a1'', ''a2'', ''a3'', ''a4'', ''a5'',
      ''a6'', ''a7'', ''s2'', ''s3'', ''s4'', ''s5'', ''s6'', ''s7'', ''s8'', ''s9'', ''s10'', ''s11'', ''t3'', ''t4'', ''t5'', ''t6'']"

definition FRegisters :: "string list" where
  "FRegisters =
     [''f0'', ''f1'', ''f2'', ''f3'', ''f4'', ''f5'', ''f6'', ''f7'', ''f8'', ''f9'', ''f10'', ''f11'', ''f12'', ''f13'', ''f14'',
      ''f15'', ''f16'', ''f17'', ''f18'', ''f19'', ''f20'', ''f21'', ''f22'', ''f23'', ''f24'', ''f25'', ''f26'', ''f27'', ''f28'',
      ''f29'', ''f30'', ''f31'', ''fscr'']"

definition TrapFrame :: "(string \<times> nat) list" where
  "TrapFrame = (let fields = XRegisters @ FRegisters in zip fields (map ((*) 8) [0..<length fields]))"

section \<open>The handler\<close>

definition install_handler :: "usize \<Rightarrow> hart \<Rightarrow> hart" where
  "install_handler trap_addr s =
     csr_set Sstatus (push_bit 1 1) (csr_set Sie (push_bit 9 1 OR push_bit 5 1 OR push_bit 1 1) (csr_write Stvec trap_addr s))"

definition trap_entry :: "instr list" where
  "trap_entry =
     [Csrci Sstatus 2, Csrrw 8 Sscratch 8, Sd 2 16 8, Ld 2 8 8, Addi 2 2 (- 512), Sd 1 0 2, Ld 1 16 8, Sd 1 8 2,
      Csrrw 8 Sscratch 8, Sd 3 16 2, Sd 4 24 2, Sd 5 32 2, Sd 6 40 2, Sd 7 48 2, Sd 8 56 2, Sd 9 64 2, Sd 10 72 2,
      Sd 11 80 2, Sd 12 88 2, Sd 13 96 2, Sd 14 104 2, Sd 15 112 2, Sd 16 120 2, Sd 17 128 2, Sd 18 136 2, Sd 19 144 2,
      Sd 20 152 2, Sd 21 160 2, Sd 22 168 2, Sd 23 176 2, Sd 24 184 2, Sd 25 192 2, Sd 26 200 2, Sd 27 208 2, Sd 28 216 2,
      Sd 29 224 2, Sd 30 232 2, Sd 31 240 2, Fsd 0 248 2, Fsd 1 256 2, Fsd 2 264 2, Fsd 3 272 2, Fsd 4 280 2, Fsd 5 288 2,
      Fsd 6 296 2, Fsd 7 304 2, Fsd 8 312 2, Fsd 9 320 2, Fsd 10 328 2, Fsd 11 336 2, Fsd 12 344 2, Fsd 13 352 2,
      Fsd 14 360 2, Fsd 15 368 2, Fsd 16 376 2, Fsd 17 384 2, Fsd 18 392 2, Fsd 19 400 2, Fsd 20 408 2, Fsd 21 416 2,
      Fsd 22 424 2, Fsd 23 432 2, Fsd 24 440 2, Fsd 25 448 2, Fsd 26 456 2, Fsd 27 464 2, Fsd 28 472 2, Fsd 29 480 2,
      Fsd 30 488 2, Fsd 31 496 2, Frcsr 5, Sd 5 504 2, Li 5 (push_bit 5 1), Csrs Sstatus 5, Mv 10 2, Csrr 11 Scause,
      Csrr 12 Stval, Csrr 13 Sepc]"

definition trap_exit :: "instr list" where
  "trap_exit =
     [Csrw Sepc 10, Ld 5 504 2, Fscsr 5, Ld 1 0 2, Ld 3 16 2, Ld 4 24 2, Ld 5 32 2, Ld 6 40 2, Ld 7 48 2, Ld 8 56 2,
      Ld 9 64 2, Ld 10 72 2, Ld 11 80 2, Ld 12 88 2, Ld 13 96 2, Ld 14 104 2, Ld 15 112 2, Ld 16 120 2, Ld 17 128 2,
      Ld 18 136 2, Ld 19 144 2, Ld 20 152 2, Ld 21 160 2, Ld 22 168 2, Ld 23 176 2, Ld 24 184 2, Ld 25 192 2, Ld 26 200 2,
      Ld 27 208 2, Ld 28 216 2, Ld 29 224 2, Ld 30 232 2, Ld 31 240 2, Fld 0 248 2, Fld 1 256 2, Fld 2 264 2, Fld 3 272 2,
      Fld 4 280 2, Fld 5 288 2, Fld 6 296 2, Fld 7 304 2, Fld 8 312 2, Fld 9 320 2, Fld 10 328 2, Fld 11 336 2,
      Fld 12 344 2, Fld 13 352 2, Fld 14 360 2, Fld 15 368 2, Fld 16 376 2, Fld 17 384 2, Fld 18 392 2, Fld 19 400 2,
      Fld 20 408 2, Fld 21 416 2, Fld 22 424 2, Fld 23 432 2, Fld 24 440 2, Fld 25 448 2, Fld 26 456 2, Fld 27 464 2,
      Fld 28 472 2, Fld 29 480 2, Fld 30 488 2, Fld 31 496 2, Ld 2 8 2, Sret]"

text \<open>The call of the Rust function: \<open>havoc\<close> is what its compiled code does to the hart, the result is in \<open>a0\<close>.\<close>

definition call_handler :: "(hart \<Rightarrow> hart) \<Rightarrow> hart \<Rightarrow> hart option" where
  "call_handler havoc s =
     (case trap_handler (xreg s 11) (xreg s 12) (xreg s 13) of
        None \<Rightarrow> None
      | Some r \<Rightarrow> Some (wr 10 r (havoc s)))"

definition asm_trap_handler :: "(hart \<Rightarrow> hart) \<Rightarrow> hart \<Rightarrow> hart option" where
  "asm_trap_handler havoc s = map_option (run trap_exit) (call_handler havoc (run trap_entry s))"

end
