(* ===== verification/Trap_Correct.thy ===== *)
theory Trap_Correct
  imports Trap_Asm
begin

text \<open>
  The trap handler is transparent: for the interrupts that the kernel handles, the interrupted code continues with every register as it was.
\<close>

section \<open>Runs of stores and loads\<close>

lemma run_append [simp]: "run (xs @ ys) s = run ys (run xs s)"
  by (simp add: run_def)

lemma run_Cons: "run (i # is) s = run is (step_instr i s)"
  by (simp add: run_def)

lemma run_Nil [simp]: "run [] s = s"
  by (simp add: run_def)

text \<open>Stores of registers to distinct places on the stack.\<close>

definition put :: "hart \<Rightarrow> (hart \<Rightarrow> nat \<Rightarrow> u64) \<Rightarrow> nat \<times> int \<Rightarrow> (usize \<Rightarrow> u64) \<Rightarrow> usize \<Rightarrow> u64" where
  "put s get p h = h(addr s 2 (snd p) := get s (fst p))"

definition stores :: "(hart \<Rightarrow> nat \<Rightarrow> u64) \<Rightarrow> (nat \<times> int) list \<Rightarrow> hart \<Rightarrow> usize \<Rightarrow> u64" where
  "stores get ps s = fold (put s get) ps (hmem s)"

lemma fold_put_other: "a \<notin> (\<lambda>p. addr s 2 (snd p)) ` set ps \<Longrightarrow> fold (put s get) ps m a = m a"
  by (induction ps arbitrary: m) (auto simp: put_def)

lemma fold_put_at:
  assumes "distinct (map (\<lambda>p. addr s 2 (snd p)) ps)" "p \<in> set ps"
  shows "fold (put s get) ps m (addr s 2 (snd p)) = get s (fst p)"
  using assms
proof (induction ps arbitrary: m)
  case (Cons q ps)
  show ?case
  proof (cases "q = p")
    case True
    have "put s get p m (addr s 2 (snd p)) = get s (fst p)" by (simp add: put_def)
    then show ?thesis using True Cons.prems(1) fold_put_other [of "addr s 2 (snd p)" s ps get "put s get p m"] by simp
  next
    case False
    then show ?thesis using Cons by simp
  qed
qed simp

lemma run_Sd: "run (map (\<lambda>(r, off). Sd r off 2) ps) s = s\<lparr>hmem := stores xreg ps s\<rparr>"
proof (induction ps arbitrary: s)
  case (Cons p ps)
  obtain r off where p: "p = (r, off)" by fastforce
  have "put (s\<lparr>hmem := h\<rparr>) xreg = put s xreg" "put (s\<lparr>hmem := h\<rparr>) freg = put s freg" for h
    by (simp_all add: put_def addr_def fun_eq_iff)
  then show ?case using Cons by (simp add: run_Cons p stores_def put_def)
qed (simp add: stores_def)

lemma run_Fsd: "run (map (\<lambda>(r, off). Fsd r off 2) ps) s = s\<lparr>hmem := stores freg ps s\<rparr>"
proof (induction ps arbitrary: s)
  case (Cons p ps)
  obtain r off where p: "p = (r, off)" by fastforce
  have "put (s\<lparr>hmem := h\<rparr>) xreg = put s xreg" "put (s\<lparr>hmem := h\<rparr>) freg = put s freg" for h
    by (simp_all add: put_def addr_def fun_eq_iff)
  then show ?case using Cons by (simp add: run_Cons p stores_def put_def)
qed (simp add: stores_def)

text \<open>Loads of distinct registers, none of them the stack pointer.\<close>

lemma run_Ld:
  assumes "distinct (map fst ps)" "\<forall>(r, off) \<in> set ps. r \<noteq> 0 \<and> r \<noteq> 2"
  shows "\<exists>x. run (map (\<lambda>(r, off). Ld r off 2) ps) s = s\<lparr>xreg := x\<rparr> \<and> (\<forall>r. r \<notin> fst ` set ps \<longrightarrow> x r = xreg s r) \<and>
    (\<forall>(r, off) \<in> set ps. x r = hmem s (addr s 2 off))"
  using assms
proof (induction ps arbitrary: s)
  case (Cons p ps)
  obtain r off where p: "p = (r, off)" by fastforce
  let ?s = "s\<lparr>xreg := (xreg s)(r := hmem s (addr s 2 off))\<rparr>"
  have rr: "r \<noteq> 0" "2 \<noteq> r" "r \<notin> fst ` set ps" using Cons.prems p by auto
  have ad: "addr ?s 2 o' = addr s 2 o'" for o' using rr(2) by (simp add: addr_def)
  obtain x where x: "run (map (\<lambda>(r, off). Ld r off 2) ps) ?s = ?s\<lparr>xreg := x\<rparr>" "\<forall>r'. r' \<notin> fst ` set ps \<longrightarrow> x r' = xreg ?s r'"
    "\<forall>(r', o') \<in> set ps. x r' = hmem s (addr s 2 o')"
    using Cons.IH [of ?s] Cons.prems ad by auto
  have "step_instr (Ld r off 2) s = ?s" using rr(1) by (simp add: wr_def)
  then show ?case using x p rr(3) by (intro exI [of _ x]) (auto simp: run_Cons)
next
  case Nil
  show ?case by (intro exI [of _ "xreg s"]) simp
qed

lemma run_Fld:
  assumes "distinct (map fst ps)"
  shows "\<exists>x. run (map (\<lambda>(r, off). Fld r off 2) ps) s = s\<lparr>freg := x\<rparr> \<and> (\<forall>(r, off) \<in> set ps. x r = hmem s (addr s 2 off)) \<and>
    (\<forall>r. r \<notin> fst ` set ps \<longrightarrow> x r = freg s r)"
  using assms
proof (induction ps arbitrary: s)
  case (Cons p ps)
  obtain r off where p: "p = (r, off)" by fastforce
  let ?s = "s\<lparr>freg := (freg s)(r := hmem s (addr s 2 off))\<rparr>"
  have ad: "addr ?s 2 o' = addr s 2 o'" for o' by (simp add: addr_def)
  obtain x where x: "run (map (\<lambda>(r, off). Fld r off 2) ps) ?s = ?s\<lparr>freg := x\<rparr>" "\<forall>r'. r' \<notin> fst ` set ps \<longrightarrow> x r' = freg ?s r'"
    "\<forall>(r', o') \<in> set ps. x r' = hmem s (addr s 2 o')"
    using Cons.IH [of ?s] Cons.prems ad by auto
  then show ?case using p Cons.prems by (intro exI [of _ x]) (auto simp: run_Cons)
next
  case Nil
  show ?case by (intro exI [of _ "freg s"]) simp
qed

section \<open>The shape of the handler\<close>

definition xsaves :: "(nat \<times> int) list" where
  "xsaves = map (\<lambda>r. (r, 8 * int r - 8)) [3..<32]"

definition fsaves :: "(nat \<times> int) list" where
  "fsaves = map (\<lambda>r. (r, 8 * int r + 248)) [0..<32]"

lemma set_saves:
  "set xsaves = (\<lambda>r. (r, 8 * int r - 8)) ` {3..<32}" "set fsaves = (\<lambda>r. (r, 8 * int r + 248)) ` {0..<32}"
  unfolding xsaves_def fsaves_def by (simp_all only: set_map set_upt)

lemma trap_entry_shape:
  "trap_entry = [Csrci Sstatus 2, Csrrw 8 Sscratch 8, Sd 2 16 8, Ld 2 8 8, Addi 2 2 (- 512), Sd 1 0 2, Ld 1 16 8, Sd 1 8 2, Csrrw 8 Sscratch 8]
     @ map (\<lambda>(r, off). Sd r off 2) xsaves @ map (\<lambda>(r, off). Fsd r off 2) fsaves
     @ [Frcsr 5, Sd 5 504 2, Li 5 (push_bit 5 1), Csrs Sstatus 5, Mv 10 2, Csrr 11 Scause, Csrr 12 Stval, Csrr 13 Sepc]"
  by (simp add: trap_entry_def xsaves_def fsaves_def upt_rec)

lemma trap_exit_shape:
  "trap_exit = [Csrw Sepc 10, Ld 5 504 2, Fscsr 5] @ map (\<lambda>(r, off). Ld r off 2) ((1, 0) # xsaves)
     @ map (\<lambda>(r, off). Fld r off 2) fsaves @ [Ld 2 8 2, Sret]"
  by (simp add: trap_exit_def xsaves_def fsaves_def upt_rec)

section \<open>The frame\<close>

definition cell :: "usize \<Rightarrow> int \<Rightarrow> usize" where
  "cell sp off = sp + of_int off"

lemma addr_cell: "addr s r off = cell (xreg s r) off"
  by (simp add: addr_def cell_def)

lemma frame_cell_inj: "0 \<le> a \<Longrightarrow> a < 512 \<Longrightarrow> 0 \<le> b \<Longrightarrow> b < 512 \<Longrightarrow> cell sp a = cell sp b \<longleftrightarrow> a = b"
  by (simp add: cell_def word_of_int_eq_iff take_bit_int_eq_self)

text \<open>The cells of the trap frame at \<open>sp\<close>: a doubleword for each of \<open>x1\<close> to \<open>x31\<close>, \<open>f0\<close> to \<open>f31\<close> and the control register.\<close>

definition frame_cells :: "usize \<Rightarrow> usize set" where
  "frame_cells sp = cell sp ` ((*) 8 ` {0..63})"

definition frame_saved :: "hart \<Rightarrow> usize \<Rightarrow> (usize \<Rightarrow> u64) \<Rightarrow> bool" where
  "frame_saved s sp h \<longleftrightarrow> (\<forall>r \<in> {1..<32}. h (cell sp (8 * int r - 8)) = xreg s r) \<and>
     (\<forall>r<32. h (cell sp (8 * int r + 248)) = freg s r) \<and> h (cell sp 504) = fcsr s"

lemma in_frame_cells: "0 \<le> i \<Longrightarrow> i < 64 \<Longrightarrow> cell sp (8 * i) \<in> frame_cells sp"
  by (auto simp: frame_cells_def)

lemma x_cell: "r \<in> {1..<32} \<Longrightarrow> cell sp (8 * int r - 8) \<in> frame_cells sp"
  using in_frame_cells [of "int r - 1" sp] by (simp add: algebra_simps)

lemma f_cell: "r < 32 \<Longrightarrow> cell sp (8 * int r + 248) \<in> frame_cells sp"
  using in_frame_cells [of "int r + 31" sp] by (simp add: algebra_simps)

lemma not_in_frame: "512 \<le> unat (a - sp) \<Longrightarrow> a \<notin> frame_cells sp"
proof
  assume far: "512 \<le> unat (a - sp)" and "a \<in> frame_cells sp"
  then obtain i where i: "a = cell sp i" "0 \<le> i" "i < 512" by (auto simp: frame_cells_def)
  then have "uint (a - sp) = i" by (simp add: cell_def uint_word_of_int take_bit_int_eq_self)
  then show False using far i(3) by (simp add: unat_eq_nat_uint)
qed

lemma saves_distinct:
  "distinct (map (\<lambda>p. addr s 2 (snd p)) xsaves)" "distinct (map (\<lambda>p. addr s 2 (snd p)) fsaves)"
proof -
  have "distinct xsaves" "distinct fsaves" by (simp_all add: xsaves_def fsaves_def distinct_map inj_on_def del: upt.simps)
  then show "distinct (map (\<lambda>p. addr s 2 (snd p)) xsaves)" "distinct (map (\<lambda>p. addr s 2 (snd p)) fsaves)"
    by (auto simp: distinct_map inj_on_def addr_cell frame_cell_inj set_saves)
qed

text \<open>After the stores the frame holds the registers as they were; \<open>x1\<close> and \<open>x2\<close> are already in it.\<close>

lemma saves_saved:
  assumes "xreg t 2 = sp" "hmem t (cell sp 0) = xreg s 1" "hmem t (cell sp 8) = xreg s 2" "\<forall>r \<in> {3..<32}. xreg t r = xreg s r" "freg t = freg s"
  defines "h \<equiv> (stores freg fsaves (t\<lparr>hmem := stores xreg xsaves t\<rparr>))(cell sp 504 := fcsr s)"
  shows "frame_saved s sp h" "a \<notin> frame_cells sp \<Longrightarrow> h a = hmem t a"
proof -
  let ?t = "t\<lparr>hmem := stores xreg xsaves t\<rparr>"
  have ad: "addr t 2 off = cell sp off" "addr (t\<lparr>hmem := m\<rparr>) 2 off = cell sp off" for off m by (simp_all add: addr_cell assms(1))
  have x: "hmem ?t (cell sp (8 * int r - 8)) = xreg s r" if "r \<in> {1..<32}" for r
  proof (cases "r \<in> {3..<32}")
    case True
    then show ?thesis
      using fold_put_at [OF saves_distinct(1), of "(r, 8 * int r - 8)" t xreg "hmem t"] assms(4) by (auto simp: stores_def ad set_saves)
  next
    case False
    then have r: "r = 1 \<or> r = 2" using that by auto
    then have "cell sp (8 * int r - 8) \<notin> (\<lambda>p. addr t 2 (snd p)) ` set xsaves" by (auto simp: ad set_saves frame_cell_inj)
    then show ?thesis using fold_put_other [of _ t xsaves xreg "hmem t"] r assms(2,3) by (auto simp: stores_def)
  qed
  have xo: "hmem ?t b = hmem t b" if "b \<notin> frame_cells sp" for b
    using fold_put_other [of b t xsaves xreg "hmem t"] that x_cell [of _ sp] by (force simp: stores_def ad set_saves)
  have f: "stores freg fsaves ?t (cell sp (8 * int r + 248)) = freg s r" if "r < 32" for r
    using fold_put_at [OF saves_distinct(2), of "(r, 8 * int r + 248)" ?t freg "hmem ?t"] that assms(5) by (auto simp: stores_def ad set_saves)
  have fx: "stores freg fsaves ?t (cell sp (8 * int r - 8)) = hmem ?t (cell sp (8 * int r - 8))" if "r \<in> {1..<32}" for r
  proof -
    have "cell sp (8 * int r - 8) \<notin> (\<lambda>p. addr ?t 2 (snd p)) ` set fsaves" using that by (auto simp: ad set_saves frame_cell_inj)
    then show ?thesis unfolding stores_def by (rule fold_put_other)
  qed
  have fo: "stores freg fsaves ?t b = hmem ?t b" if "b \<notin> frame_cells sp" for b
    using fold_put_other [of b ?t fsaves freg "hmem ?t"] that f_cell [of _ sp] by (force simp: stores_def ad set_saves)
  show "frame_saved s sp h" unfolding frame_saved_def h_def using x f fx by (auto simp: frame_cell_inj)
  have "cell sp 504 \<in> frame_cells sp" using in_frame_cells [of 63 sp] by simp
  then show "h a = hmem t a" if "a \<notin> frame_cells sp" using that xo [OF that] fo [OF that] by (auto simp: h_def)
qed

lemma trap_entry_correct:
  fixes s :: hart
  defines "ctx \<equiv> csrs s Sscratch"
  defines "sp \<equiv> hmem s (ctx + 8) - 512"
  assumes "ctx + 16 \<notin> frame_cells sp"
  shows "frame_saved s sp (hmem (run trap_entry s))" "xreg (run trap_entry s) 2 = sp" "xreg (run trap_entry s) 10 = sp"
    "xreg (run trap_entry s) 11 = csrs s Scause" "xreg (run trap_entry s) 12 = csrs s Stval" "xreg (run trap_entry s) 13 = csrs s Sepc"
    "csrs (run trap_entry s) Sscratch = ctx" "bit (csrs (run trap_entry s) Sstatus) 5"
    "a \<notin> frame_cells sp \<Longrightarrow> a \<noteq> ctx + 16 \<Longrightarrow> hmem (run trap_entry s) a = hmem s a"
proof -
  let ?h = "(hmem s)(ctx + 16 := xreg s 2, sp := xreg s 1, sp + 8 := xreg s 2)"
  define t where "t = run [Csrci Sstatus 2, Csrrw 8 Sscratch 8, Sd 2 16 8, Ld 2 8 8, Addi 2 2 (- 512), Sd 1 0 2, Ld 1 16 8, Sd 1 8 2, Csrrw 8 Sscratch 8] s"
  have c: "cell sp 0 = sp" "cell sp 8 = sp + 8" "cell sp 504 = sp + 504" by (simp_all add: cell_def)
  have in8: "sp \<in> frame_cells sp" "sp + 8 \<in> frame_cells sp" using in_frame_cells [of 0 sp] in_frame_cells [of 1 sp] c by auto
  have ne: "ctx + 16 \<noteq> sp" using assms(3) in8 by auto
  have t: "hmem t = ?h" "xreg t = (xreg s)(1 := xreg s 2, 2 := sp)" "freg t = freg s" "fcsr t = fcsr s"
    "csrs t = (csrs s)(Sstatus := csrs s Sstatus AND NOT 2)"
    using ne by (auto simp: t_def run_Cons wr_def wcsr_def addr_def ctx_def sp_def fun_eq_iff)
  let ?t = "t\<lparr>hmem := stores xreg xsaves t\<rparr>"
  let ?u = "?t\<lparr>hmem := stores freg fsaves ?t\<rparr>"
  have eq: "run trap_entry s = run [Frcsr 5, Sd 5 504 2, Li 5 (push_bit 5 1), Csrs Sstatus 5, Mv 10 2, Csrr 11 Scause, Csrr 12 Stval, Csrr 13 Sepc] ?u"
    unfolding trap_entry_shape run_append run_Sd run_Fsd t_def [symmetric] ..
  have h: "hmem (run trap_entry s) = (stores freg fsaves ?t)(cell sp 504 := fcsr s)"
    unfolding eq c by (simp add: run_Cons wr_def wcsr_def addr_def t)
  have sv: "xreg t 2 = sp" "hmem t (cell sp 0) = xreg s 1" "hmem t (cell sp 8) = xreg s 2" "\<forall>r \<in> {3..<32}. xreg t r = xreg s r" "freg t = freg s"
    unfolding c by (simp_all add: t)
  note saved = saves_saved [OF sv, folded h]
  show "frame_saved s sp (hmem (run trap_entry s))" by (rule saved(1))
  show "hmem (run trap_entry s) a = hmem s a" if "a \<notin> frame_cells sp" "a \<noteq> ctx + 16"
    using saved(2) [OF that(1)] that in8 by (auto simp: t(1))
  show "xreg (run trap_entry s) 2 = sp" "xreg (run trap_entry s) 10 = sp" "xreg (run trap_entry s) 11 = csrs s Scause" "xreg (run trap_entry s) 12 = csrs s Stval"
    "xreg (run trap_entry s) 13 = csrs s Sepc" "csrs (run trap_entry s) Sscratch = ctx" "bit (csrs (run trap_entry s) Sstatus) 5"
    unfolding eq by (simp_all add: run_Cons wr_def wcsr_def addr_def t ctx_def bit_or_iff)
qed

text \<open>The loads undo the stores.\<close>

lemma trap_exit_correct:
  fixes t :: hart
  assumes "frame_saved s sp (hmem t)" "xreg t 2 = sp"
  shows "r \<in> {1..<32} \<Longrightarrow> xreg (run trap_exit t) r = xreg s r" "r < 32 \<Longrightarrow> freg (run trap_exit t) r = freg s r"
    "fcsr (run trap_exit t) = fcsr s" "csrs (run trap_exit t) Sscratch = csrs t Sscratch" "hpc (run trap_exit t) = xreg t 10"
    "bit (csrs t Sstatus) 5 \<Longrightarrow> bit (csrs (run trap_exit t) Sstatus) 1" "hmem (run trap_exit t) = hmem t"
proof -
  let ?ps = "(1, 0) # xsaves"
  define t1 where "t1 = run [Csrw Sepc 10, Ld 5 504 2, Fscsr 5] t"
  have t1: "xreg t1 2 = sp" "hmem t1 = hmem t" "freg t1 = freg t" "fcsr t1 = fcsr s" "csrs t1 = (csrs t)(Sepc := xreg t 10)"
    using assms by (simp_all add: t1_def run_Cons wr_def wcsr_def addr_cell frame_saved_def)
  have "distinct (map fst ?ps)" by (simp add: xsaves_def o_def del: upt.simps)
  moreover have "\<forall>(r, off) \<in> set ?ps. r \<noteq> 0 \<and> r \<noteq> 2" by (auto simp: set_saves)
  ultimately obtain x where x: "run (map (\<lambda>(r, off). Ld r off 2) ?ps) t1 = t1\<lparr>xreg := x\<rparr>" "\<forall>r. r \<notin> fst ` set ?ps \<longrightarrow> x r = xreg t1 r"
    "\<forall>(r, off) \<in> set ?ps. x r = hmem t1 (addr t1 2 off)" using run_Ld by blast
  have "2 \<notin> fst ` set ?ps" by (auto simp: set_saves)
  then have x2: "x 2 = sp" using x(2) t1(1) by blast
  have xr: "x r = xreg s r" if "r \<in> {1..<32} - {2}" for r
  proof -
    have "(r, 8 * int r - 8) \<in> set ?ps" using that by (auto simp: set_saves)
    then have "x r = hmem t (cell sp (8 * int r - 8))" using x(3) t1(1,2) by (auto simp: addr_cell)
    then show ?thesis using assms(1) that by (simp add: frame_saved_def)
  qed
  have "distinct (map fst fsaves)" by (simp add: fsaves_def o_def del: upt.simps)
  then obtain f where f: "run (map (\<lambda>(r, off). Fld r off 2) fsaves) (t1\<lparr>xreg := x\<rparr>) = t1\<lparr>xreg := x, freg := f\<rparr>"
    "\<forall>(r, off) \<in> set fsaves. f r = hmem t (cell sp off)" using run_Fld [of fsaves "t1\<lparr>xreg := x\<rparr>"] x2 t1(2) by (auto simp: addr_cell)
  have eq: "run trap_exit t = step_instr Sret (wr 2 (hmem t (cell sp 8)) (t1\<lparr>xreg := x, freg := f\<rparr>))"
    unfolding trap_exit_shape run_append t1_def [symmetric] x(1) f(1) by (simp add: run_Cons addr_cell x2 t1(2))
  have sp8: "hmem t (cell sp 8) = xreg s 2" using assms(1) bspec [of "{1..<32}" "\<lambda>r. hmem t (cell sp (8 * int r - 8)) = xreg s r" 2] by (simp add: frame_saved_def)
  show "xreg (run trap_exit t) r = xreg s r" if "r \<in> {1..<32}" for r
    unfolding eq using that xr sp8 by (auto simp: wr_def wcsr_def Let_def)
  show "freg (run trap_exit t) r = freg s r" if "r < 32" for r
    unfolding eq using that f(2) assms(1) by (auto simp: wr_def wcsr_def Let_def set_saves frame_saved_def)
  show "fcsr (run trap_exit t) = fcsr s" "csrs (run trap_exit t) Sscratch = csrs t Sscratch" "hpc (run trap_exit t) = xreg t 10"
    "hmem (run trap_exit t) = hmem t"
    unfolding eq by (simp_all add: wr_def wcsr_def Let_def t1)
  show "bit (csrs t Sstatus) 5 \<Longrightarrow> bit (csrs (run trap_exit t) Sstatus) 1"
    unfolding eq by (simp add: wr_def wcsr_def Let_def t1 bit_or_iff)
qed

section \<open>Transparency\<close>

text \<open>C5: For a timer or an external interrupt, \<open>_trap_handler\<close> returns to the interrupted instruction with interrupts enabled, every
  integer and floating point register and the floating point control register as they were, and \<open>sscratch\<close> pointing to the hart context
  again. It writes only the trap frame below the trap stack pointer and the \<open>temp_sp\<close> field of the context. The compiled code of the
  Rust handler is assumed to keep the stack pointer and the control registers and to write only to a set \<open>W\<close> of addresses outside
  the frame.\<close>

theorem trap_transparent:
  assumes "from_cause (csrs s Scause) \<in> {Some SupervisorExternalInterrupt, Some SupervisorTimerInterrupt}"
    "csrs s Sscratch + 16 \<notin> frame_cells (hmem s (csrs s Sscratch + 8) - 512)"
    "\<And>t. xreg (havoc t) 2 = xreg t 2" "\<And>t. csrs (havoc t) = csrs t" "\<And>t a. a \<notin> W \<Longrightarrow> hmem (havoc t) a = hmem t a"
    "W \<inter> frame_cells (hmem s (csrs s Sscratch + 8) - 512) = {}"
  shows "\<exists>s'. asm_trap_handler havoc s = Some s' \<and> (\<forall>r \<in> {1..<32}. xreg s' r = xreg s r) \<and> (\<forall>r<32. freg s' r = freg s r) \<and>
    fcsr s' = fcsr s \<and> csrs s' Sscratch = csrs s Sscratch \<and> hpc s' = csrs s Sepc \<and> bit (csrs s' Sstatus) 1 \<and>
    (\<forall>a. a \<notin> W \<union> frame_cells (hmem s (csrs s Sscratch + 8) - 512) \<union> {csrs s Sscratch + 16} \<longrightarrow> hmem s' a = hmem s a)"
proof -
  let ?sp = "hmem s (csrs s Sscratch + 8) - 512" and ?t = "run trap_entry s"
  note e = trap_entry_correct [OF assms(2)]
  let ?u = "wr 10 (csrs s Sepc) (havoc ?t)"
  have call: "call_handler havoc ?t = Some ?u" using assms(1) e(4-6) by (auto simp: call_handler_def trap_handler_def)
  have "cell ?sp off \<in> frame_cells ?sp \<Longrightarrow> hmem ?u (cell ?sp off) = hmem ?t (cell ?sp off)" for off
    using assms(5,6) by (auto simp: wr_def)
  then have "frame_saved s ?sp (hmem ?u)"
    using e(1) x_cell [of _ ?sp] f_cell [of _ ?sp] in_frame_cells [of 63 ?sp] by (simp add: frame_saved_def)
  moreover have "xreg ?u 2 = ?sp" "csrs ?u = csrs ?t" "xreg ?u 10 = csrs s Sepc" using assms(3,4) e(2) by (simp_all add: wr_def)
  ultimately have x: "\<And>r. r \<in> {1..<32} \<Longrightarrow> xreg (run trap_exit ?u) r = xreg s r" "\<And>r. r < 32 \<Longrightarrow> freg (run trap_exit ?u) r = freg s r"
    "fcsr (run trap_exit ?u) = fcsr s" "csrs (run trap_exit ?u) Sscratch = csrs s Sscratch" "hpc (run trap_exit ?u) = csrs s Sepc"
    "bit (csrs (run trap_exit ?u) Sstatus) 1" "hmem (run trap_exit ?u) = hmem ?u"
    using trap_exit_correct [of s ?sp ?u] e(7,8) by auto
  have "hmem ?u a = hmem s a" if "a \<notin> W \<union> frame_cells ?sp \<union> {csrs s Sscratch + 16}" for a
    using that e(9) assms(5) by (simp add: wr_def)
  then show ?thesis using call x by (auto simp: asm_trap_handler_def)
qed

text \<open>The registers that the assembler's register names stand for.\<close>

definition abi_regs :: "hart \<Rightarrow> (string \<times> u64) list" where
  "abi_regs s =
     [(''zero'', xreg s 0), (''ra'', xreg s 1), (''sp'', xreg s 2), (''gp'', xreg s 3), (''tp'', xreg s 4)]
     @ zip [''t0'', ''t1'', ''t2''] (map (xreg s) [5, 6, 7]) @ zip [''s0'', ''s1''] (map (xreg s) [8, 9])
     @ zip [''a0'', ''a1'', ''a2'', ''a3'', ''a4'', ''a5'', ''a6'', ''a7''] (map (xreg s) [10, 11, 12, 13, 14, 15, 16, 17])
     @ zip [''s2'', ''s3'', ''s4'', ''s5'', ''s6'', ''s7'', ''s8'', ''s9'', ''s10'', ''s11''] (map (xreg s) [18, 19, 20, 21, 22, 23, 24, 25, 26, 27])
     @ zip [''t3'', ''t4'', ''t5'', ''t6''] (map (xreg s) [28, 29, 30, 31])
     @ zip (butlast FRegisters) (map (freg s) [0..<32]) @ [(''fscr'', fcsr s)]"

lemma frame_saved_list:
  assumes "frame_saved s sp h"
  shows "map (\<lambda>i. h (cell sp (8 * int i))) [0..<64] = map (xreg s) [1..<32] @ map (freg s) [0..<32] @ [fcsr s]" (is "?l = ?r")
proof (rule nth_equalityI)
  show "length ?l = length ?r" by simp
  fix i assume "i < length ?l"
  then have i: "i < 64" by simp
  consider "i < 31" | "31 \<le> i" "i < 63" | "i = 63" using i by linarith
  then show "?l ! i = ?r ! i"
  proof cases
    case 1
    then have "h (cell sp (8 * int (Suc i) - 8)) = xreg s (Suc i)" using assms unfolding frame_saved_def by force
    then show ?thesis using 1 i by (simp add: nth_append del: upt.simps)
  next
    case 2
    then have lt: "i - 31 < 32" by simp
    then have "h (cell sp (8 * int (i - 31) + 248)) = freg s (i - 31)" using assms unfolding frame_saved_def by blast
    moreover have "8 * int (i - 31) + 248 = 8 * int i" using 2 by simp
    ultimately show ?thesis using 2 i lt by (simp add: nth_append del: upt.simps)
  next
    case 3
    then show ?thesis using assms by (simp add: nth_append frame_saved_def del: upt.simps)
  qed
qed

lemma frame_names: "distinct (XRegisters @ FRegisters)" "''zero'' \<notin> set (XRegisters @ FRegisters)" "length (XRegisters @ FRegisters) = 64"
  by code_simp+

lemma map_zip_fst: "length ys = length xs \<Longrightarrow> map (\<lambda>(a, b). f a) (zip xs ys) = map f xs"
  by (induction ys xs rule: list_induct2) simp_all

lemma frame_regs: "map (\<lambda>(name, off). map_of (abi_regs s) name) TrapFrame = map Some (map (xreg s) [1..<32] @ map (freg s) [0..<32] @ [fcsr s])"
proof -
  let ?ns = "XRegisters @ FRegisters" and ?vs = "map (xreg s) [1..<32] @ map (freg s) [0..<32] @ [fcsr s]"
  have upts: "[Suc 0..<32] = 1 # [2..<32]" "[0..<32] = 0 # 1 # [2..<32]" by (simp_all add: upt_conv_Cons numeral_2_eq_2 del: upt.simps)
  have regs: "abi_regs s = (''zero'', xreg s 0) # zip ?ns ?vs"
    by (simp add: abi_regs_def XRegisters_def FRegisters_def upts)
  have "map (\<lambda>(name, off). map_of (abi_regs s) name) TrapFrame = map (map_of (abi_regs s)) ?ns"
    unfolding TrapFrame_def Let_def frame_names(3)
    by (rule map_zip_fst) (simp add: frame_names(3) [simplified])
  also have "\<dots> = map (map_of (zip ?ns ?vs)) ?ns"
    unfolding regs using frame_names(2) by (intro map_cong refl) auto
  also have "\<dots> = map Some ?vs"
    by (rule nth_equalityI) (use frame_names(1,3) in \<open>simp_all add: map_of_zip_nth del: map_append append_assoc upt.simps\<close>)
  finally show ?thesis .
qed

text \<open>On entry to the Rust handler \<open>a0\<close> points to a \<open>TrapFrame\<close>: every field, at the offset that \<open>repr(C)\<close> gives it, holds
  the value that the register of that name had when the trap occurred.\<close>

theorem trap_frame_layout:
  assumes "csrs s Sscratch + 16 \<notin> frame_cells (hmem s (csrs s Sscratch + 8) - 512)"
  shows "map (\<lambda>(name, off). Some (hmem (run trap_entry s) (xreg (run trap_entry s) 10 + of_nat off))) TrapFrame
    = map (\<lambda>(name, off). map_of (abi_regs s) name) TrapFrame"
proof -
  let ?sp = "hmem s (csrs s Sscratch + 8) - 512" and ?h = "hmem (run trap_entry s)"
  note e = trap_entry_correct [OF assms]
  have o: "?sp + of_nat (8 * i) = cell ?sp (8 * int i)" for i by (simp add: cell_def)
  have "map (\<lambda>(name, off). Some (?h (?sp + of_nat off))) TrapFrame = map (Some \<circ> (\<lambda>i. ?h (cell ?sp (8 * int i)))) [0..<64]"
    unfolding TrapFrame_def Let_def frame_names(3) o [symmetric] by (rule nth_equalityI) (simp_all add: frame_names(3) [simplified] del: upt.simps)
  also have "\<dots> = map Some (map (xreg s) [1..<32] @ map (freg s) [0..<32] @ [fcsr s])"
    unfolding frame_saved_list [OF e(1), symmetric] map_map ..
  also have "\<dots> = map (\<lambda>(name, off). map_of (abi_regs s) name) TrapFrame"
    by (rule frame_regs [symmetric])
  finally show ?thesis unfolding e(3) .
qed

definition demo_trap_hart :: hart where
  "demo_trap_hart = \<lparr>xreg = (\<lambda>r. of_nat r), freg = (\<lambda>r. of_nat r + 100), fcsr = 3,
     csrs = (\<lambda>c. case c of Sscratch \<Rightarrow> 0x1000 | Scause \<Rightarrow> 0x8000000000000009 | Sepc \<Rightarrow> 0x80200000 | _ \<Rightarrow> 0),
     hmem = (\<lambda>_. 0)(0x1008 := 0x9000), hpc = 0\<rparr>"

theorem trap_transparent_witness:
  "\<exists>s'. asm_trap_handler (\<lambda>t. t\<lparr>xreg := (xreg t)(1 := 0, 5 := 0), freg := (\<lambda>_. 0)\<rparr>) demo_trap_hart = Some s' \<and>
     xreg s' 5 = 5 \<and> freg s' 31 = 131 \<and> hpc s' = 0x80200000"
proof -
  let ?havoc = "\<lambda>t. t\<lparr>xreg := (xreg t)(1 := 0, 5 := 0), freg := (\<lambda>_. 0)\<rparr>" and ?s = demo_trap_hart
  have "(0x1010 :: usize) \<notin> frame_cells 0x8E00" by (rule not_in_frame) simp
  moreover have "from_cause (csrs ?s Scause) = Some SupervisorExternalInterrupt" by (simp add: demo_trap_hart_def from_cause_def exec_defs INTERRUPT_TABLE_def INTERRUPT_BIT_def)
  ultimately show ?thesis
    using trap_transparent [of ?s ?havoc "{}"] by (auto simp: demo_trap_hart_def)
qed

theorem trap_frame_layout_witness:
  "map (\<lambda>(name, off). Some (hmem (run trap_entry demo_trap_hart) (0x8E00 + of_nat off))) TrapFrame
     = map (\<lambda>(name, off). map_of (abi_regs demo_trap_hart) name) TrapFrame"
proof -
  have "csrs demo_trap_hart Sscratch + 16 \<notin> frame_cells (hmem demo_trap_hart (csrs demo_trap_hart Sscratch + 8) - 512)"
    by (rule not_in_frame) (simp add: demo_trap_hart_def)
  moreover have "xreg (run trap_entry demo_trap_hart) 10 = 0x8E00"
    using trap_entry_correct(3) [OF calculation] by (simp add: demo_trap_hart_def)
  ultimately show ?thesis using trap_frame_layout [of demo_trap_hart] by simp
qed

end
