(* ===== verification/Satp.thy ===== *)
theory Satp
  imports Page_Table Trap_Asm
begin

text \<open>
  \<open>crates/riscv/src/csr/satp.rs\<close>: the structured view of the \<open>satp\<close> register.
\<close>

record satp =
  satp_mode :: satp_mode
  asid :: u16
  root_pa :: u64

fun mode_code :: "satp_mode \<Rightarrow> usize" where
  "mode_code Bare = 0"
| "mode_code Sv39 = 8"
| "mode_code Sv48 = 9"

definition as_bits :: "satp \<Rightarrow> usize" where
  "as_bits s =
     (let bits = drop_bit 12 (root_pa s) OR push_bit 44 (ucast (asid s))
      in bits OR push_bit 60 (mode_code (satp_mode s)))"

definition satp_decode :: "usize \<Rightarrow> satp option" where
  "satp_decode bits =
     do { m \<leftarrow> (if drop_bit 60 bits = 0 then Some Bare else if drop_bit 60 bits = 8 then Some Sv39
                else if drop_bit 60 bits = 9 then Some Sv48 else None);
          Some \<lparr>satp_mode = m, asid = ucast (drop_bit 44 bits AND 0xFFFF), root_pa = push_bit 12 (bits AND 0xFFFFFFFFFFF)\<rparr> }"

definition satp_read :: "hart \<Rightarrow> satp option" where
  "satp_read h = satp_decode (csr_read Satp h)"

definition satp_write :: "satp \<Rightarrow> hart \<Rightarrow> hart" where
  "satp_write s h = csr_write Satp (as_bits s) h"

text \<open>\<open>PageTable::satp\<close>\<close>

definition pt_satp :: "paging_mode \<Rightarrow> page_table \<Rightarrow> satp" where
  "pt_satp m pt = (case table_satp m pt of (a, md, r) \<Rightarrow> \<lparr>satp_mode = md, asid = a, root_pa = r\<rparr>)"

section \<open>Round trip\<close>

lemma mask_numerals: "(0xFFFF :: usize) = mask 16" "(0xFFFFFFFFFFF :: usize) = mask 44"
  by (simp_all add: mask_eq_exp_minus_1)

lemma high_bits: "unat x < 2 ^ 56 \<Longrightarrow> 56 \<le> k \<Longrightarrow> \<not> bit x k" for x :: u64
  by (metis bit_take_bit_iff leD take_bit_nat_eq_self unsigned_take_bit_eq word_unat_eq_iff)

text \<open>The bits of the register: the page number below bit 44, the address space below bit 60, the mode on top.\<close>

lemma bit_as_bits:
  assumes "unat (root_pa s) < 2 ^ 56"
  shows "bit (as_bits s) n \<longleftrightarrow> (if n < 44 then bit (root_pa s) (n + 12) else if n < 60 then bit (asid s) (n - 44)
    else n < 64 \<and> bit (mode_code (satp_mode s)) (n - 60))"
proof -
  note r = high_bits [OF assms]
  have a: "\<not> bit (asid s) k" if "16 \<le> k" for k using bit_imp_le_length [of "asid s" k] that by auto
  have p: "\<not> bit (root_pa s) (12 + n)" if "\<not> n < 44" using r that by simp
  have q: "\<not> bit (asid s) (n - 44)" if "\<not> n < 60" using a that by simp
  show ?thesis
    using p q by (auto simp: as_bits_def bit_simps Let_def add.commute)
qed

definition demo_hart :: hart where
  "demo_hart = \<lparr>xreg = (\<lambda>_. 0), freg = (\<lambda>_. 0), fcsr = 0, csrs = (\<lambda>_. 0), hmem = (\<lambda>_. 0), hpc = 0\<rparr>"

text \<open>Reading back a \<open>satp\<close> value that was written gives the same mode, address space and root table, for every page aligned root
  table that a physical page number of 44 bits can name.\<close>

theorem satp_roundtrip:
  assumes "4096 dvd unat (root_pa s)" "unat (root_pa s) < 2 ^ 56"
  shows "satp_read (satp_write s h) = Some s"
proof -
  note b = bit_as_bits [OF assms(2)]
  have "mode_code md = take_bit 4 (mode_code md)" for md by (cases md) simp_all
  then have "\<not> bit (mode_code md) n" if "4 \<le> n" for md n using that by (metis bit_take_bit_iff leD)
  then have "n < 4" if "bit (mode_code md) n" for md n using that by (meson not_le)
  then have "drop_bit 60 (as_bits s) = mode_code (satp_mode s)"
    by (intro bit_eqI) (auto simp: b bit_simps)
  moreover have "ucast (drop_bit 44 (as_bits s) AND mask 16) = asid s"
    by (rule bit_eqI) (auto simp: b bit_simps)
  moreover have "push_bit 12 (as_bits s AND mask 44) = root_pa s"
  proof (rule bit_eqI)
    fix n
    obtain k where "unat (root_pa s) = 4096 * k" using assms(1) by auto
    then have "root_pa s = of_nat (4096 * k)" by (metis of_nat_unat ucast_id)
    then have "root_pa s = push_bit 12 (of_nat k)" by (simp add: push_bit_eq_mult)
    then have lo: "\<not> bit (root_pa s) n" if "n < 12" using that by (simp add: bit_push_bit_iff)
    show "bit (push_bit 12 (as_bits s AND mask 44)) n = bit (root_pa s) n"
    proof (cases "n < 12")
      case False
      then show ?thesis using high_bits [OF assms(2), of n] by (auto simp: b bit_simps)
    qed (simp add: lo bit_simps)
  qed
  ultimately show ?thesis
    by (cases s; cases "satp_mode s") (simp_all add: satp_read_def satp_write_def satp_decode_def csr_read_def csr_write_def wcsr_def mask_numerals)
qed

theorem satp_roundtrip_witness:
  "satp_read (satp_write \<lparr>satp_mode = Sv48, asid = 7, root_pa = 0x80300000\<rparr> demo_hart) = Some \<lparr>satp_mode = Sv48, asid = 7, root_pa = 0x80300000\<rparr>"
  by (rule satp_roundtrip) simp_all

end
