(* ===== verification/Hart.thy ===== *)
theory Hart
  imports Trap_Correct Page_Map
begin

text \<open>
  \<open>crates/kernel/src/hart.rs\<close>: the context of a hart, which the trap handler finds through \<open>sscratch\<close>, and the hart local
  storage. A context in memory is the \<open>repr(C)\<close> layout of the structure: \<open>id\<close> at offset 0, \<open>trap_stack\<close> at 8, \<open>temp_sp\<close> at 16,
  \<open>bsp_id\<close> at 24 and the slice of the device tree (pointer and length) at 32. The functions that write a register return the value
  written.
\<close>

section \<open>The hart context\<close>

definition TRAP_STACK_SIZE :: usize where "TRAP_STACK_SIZE = 4 * KIB"

record hart_context =
  ctx_id :: u64
  trap_stack :: usize
  temp_sp :: usize
  ctx_bsp_id :: u64
  ctx_fdt :: "usize \<times> usize"

definition write_context :: "usize \<Rightarrow> hart_context \<Rightarrow> (usize \<Rightarrow> u64) \<Rightarrow> usize \<Rightarrow> u64" where
  "write_context p c h =
     h(p := ctx_id c, p + 8 := trap_stack c, p + 16 := temp_sp c, p + 24 := ctx_bsp_id c,
       p + 32 := fst (ctx_fdt c), p + 40 := snd (ctx_fdt c))"

definition read_context :: "(usize \<Rightarrow> u64) \<Rightarrow> usize \<Rightarrow> hart_context" where
  "read_context h p =
     \<lparr>ctx_id = h p, trap_stack = h (p + 8), temp_sp = h (p + 16), ctx_bsp_id = h (p + 24), ctx_fdt = (h (p + 32), h (p + 40))\<rparr>"

definition is_bsp :: "hart_context \<Rightarrow> bool" where
  "is_bsp c \<longleftrightarrow> ctx_id c = ctx_bsp_id c"

definition plic_context :: "hart_context \<Rightarrow> usize option" where
  "plic_context c = do { d \<leftarrow> mul_chk 2 (ctx_id c); add_chk 1 d }"

definition try_current :: "usize \<Rightarrow> 'a machine_scheme \<Rightarrow> hart_context option" where
  "try_current sscratch s = (if sscratch \<noteq> 0 then Some (read_context (mem s) sscratch) else None)"

definition current :: "usize \<Rightarrow> 'a machine_scheme \<Rightarrow> hart_context option" where
  "current sscratch s = (case try_current sscratch s of None \<Rightarrow> None | Some c \<Rightarrow> Some c)"

text \<open>The third component is the new value of \<open>sscratch\<close>. A failing allocation of the vector or the box does not return.\<close>

definition init_hart_context :: "u64 \<Rightarrow> u64 \<Rightarrow> usize \<times> usize \<Rightarrow> 'a pmem_scheme \<Rightarrow> ((unit, alloc_error) result \<times> 'a pmem_scheme \<times> usize) option" where
  "init_hart_context hart_id bsp_id fdt s =
     do { (r, s1) \<leftarrow> PhysicalAllocator_allocate s \<lparr>layout_size = TRAP_STACK_SIZE, layout_align = 1\<rparr>;
          (case r of
             Err _ \<Rightarrow> None
           | Ok (stack, _) \<Rightarrow>
               if stack = 0 then None
               else do {
                 let ctx = \<lparr>ctx_id = hart_id, trap_stack = stack, temp_sp = 0, ctx_bsp_id = bsp_id, ctx_fdt = fdt\<rparr>;
                 (r2, s2) \<leftarrow> PhysicalAllocator_allocate s1 \<lparr>layout_size = 48, layout_align = 8\<rparr>;
                 (case r2 of
                    Err _ \<Rightarrow> None
                  | Ok (ptr, _) \<Rightarrow> Some (Ok (), s2\<lparr>mem := write_context ptr ctx (mem s2)\<rparr>, ptr)) }) }"

section \<open>Hart local storage\<close>

text \<open>\<open>copy_from_slice\<close> between slices that start at multiples of 8 and whose length is one.\<close>

definition mem_copy :: "usize \<Rightarrow> usize \<Rightarrow> usize \<Rightarrow> (usize \<Rightarrow> u64) \<Rightarrow> usize \<Rightarrow> u64" where
  "mem_copy dst src len h = (\<lambda>a. if a - dst < len then h (src + (a - dst)) else h a)"

text \<open>The value in the result is the new value of \<open>tp\<close>; the argument is \<open>tdata_range()\<close>.\<close>

definition init_hart_local_storage :: "usize \<times> usize \<Rightarrow> 'a pmem_scheme \<Rightarrow> ((usize, alloc_error) result \<times> 'a pmem_scheme) option" where
  "init_hart_local_storage tdata s =
     do { let (start, stop) = tdata;
          len \<leftarrow> sub_chk stop start;
          order \<leftarrow> order_for_size len;
          (r, s1) \<leftarrow> alloc_order s order;
          (case r of
             Err e \<Rightarrow> Some (Err e, s1)
           | Ok page \<Rightarrow> do {
               new \<leftarrow> phys2virt s1 page;
               Some (Ok new, s1\<lparr>mem := mem_copy new start len (mem s1)\<rparr>) }) }"

lemmas [exec_defs] = TRAP_STACK_SIZE_def write_context_def read_context_def try_current_def current_def init_hart_context_def
  mem_copy_def init_hart_local_storage_def plic_context_def

section \<open>The context is installed\<close>

lemma read_write_context: "read_context (write_context p c h) p = c"
proof -
  have "p + a \<noteq> p + b" if "a \<noteq> b" for a b :: usize using that by simp
  then show ?thesis by (cases c) (simp add: read_context_def write_context_def)
qed

lemma write_context_other:
  assumes "\<And>i. i < 6 \<Longrightarrow> a \<noteq> p + 8 * of_nat i"
  shows "write_context p c h a = h a"
  using assms [of 0] assms [of 1] assms [of 2] assms [of 3] assms [of 4] assms [of 5] by (simp add: write_context_def)

text \<open>An object of at most a page written into a page that the allocator has handed out leaves the allocator alone.\<close>

lemma page_offset_in_block:
  assumes "block_ok (phys_off s) 0 b" "x + phys_off s = b + phys_off s + of_nat n" "n < 4096"
  shows "unat x \<in> block_bytes 0 b"
proof -
  have "x = b + of_nat n" using assms(2) by (simp add: algebra_simps)
  moreover have "unat b + n < 2 ^ 64" using assms(1,3) by (simp add: block_ok_def)
  ultimately have "unat x = unat b + n" using assms(3) by (simp add: unat_add_lem [THEN iffD1] unat_of_nat)
  then show ?thesis using assms(3) by (simp add: block_bytes_def)
qed

lemma context_written:
  assumes "block_ok (phys_off s) 0 b" "unat x \<notin> block_bytes 0 b"
  shows "write_context (b + phys_off s) c h (x + phys_off s) = h (x + phys_off s)"
proof (rule write_context_other, rule notI)
  fix i :: nat assume "i < 6" "x + phys_off s = b + phys_off s + 8 * of_nat i"
  then show False using page_offset_in_block [OF assms(1), of x "8 * i"] assms(2) by simp
qed



section \<open>Hart local storage\<close>

text \<open>\<open>init_hart_local_storage\<close> either reports the allocator's error and changes nothing, or points \<open>tp\<close> to a block taken out of
  the free memory that holds a copy of the \<open>tdata\<close> section, provided that section is not itself in free memory. The rest of memory
  and the allocator's invariant are kept.\<close>

theorem init_hart_local_storage_correct:
  assumes "buddy_inv s fl" "start \<le> stop" "unat (stop - start) \<le> 2 ^ 63"
    "\<And>n. n < stop - start \<Longrightarrow> unat (start + n - phys_off s) \<notin> free_bytes fl"
  shows "(\<exists>e. init_hart_local_storage (start, stop) s = Some (Err e, s)) \<or>
    (\<exists>k page s' fl'. init_hart_local_storage (start, stop) s = Some (Ok (page + phys_off s), s') \<and> unat (stop - start) \<le> 2 ^ (k + 12) \<and>
      (\<forall>n. n < stop - start \<longrightarrow> mem s' (page + phys_off s + n) = mem s (start + n)) \<and> block_ok (phys_off s) k page \<and>
      block_bytes k page \<subseteq> free_bytes fl \<and> free_bytes fl' = free_bytes fl - block_bytes k page \<and> buddy_inv s' fl' \<and> frame (free_bytes fl) s s')"
proof -
  have len: "sub_chk stop start = Some (stop - start)" using assms(2) by (simp add: sub_chk_def)
  obtain k where k: "order_for_size (stop - start) = Some k" "unat (stop - start) \<le> 2 ^ (k + 12)" "k < 52"
    by (rule order_for_size_bounded [OF assms(3)])
  show ?thesis
  proof (cases rule: allocate_cases [OF assms(1), of k, case_names fails block])
    case (fails e)
    then show ?thesis using len k(1) by (simp add: init_hart_local_storage_def alloc_order_def)
  next
    case (block b s1 fl1)
    have a: "buddy_inv s1 fl1" "block_ok (phys_off s) k b" "free_bytes fl1 = free_bytes fl - block_bytes k b"
      "block_bytes k b \<subseteq> free_bytes fl" "frame (free_bytes fl) s s1" "phys_off s1 = phys_off s"
      using block(3) by (auto simp: allocates_def frame_def)
    let ?p = "b + phys_off s"
    let ?s = "s1\<lparr>mem := mem_copy ?p start (stop - start) (mem s1)\<rparr>"
    have "phys2virt s1 b = Some ?p" using block_ok_start [OF a(2)] phys2virt_eq [of b s1] a(6) by simp
    then have run: "init_hart_local_storage (start, stop) s = Some (Ok ?p, ?s)"
      using len k(1) block(2) by (simp add: init_hart_local_storage_def alloc_order_def)
    have copied: "mem ?s (?p + n) = mem s (start + n)" if "n < stop - start" for n
    proof -
      have "mem s1 (start + n - phys_off s + phys_off s) = mem s (start + n - phys_off s + phys_off s)"
        using a(5) assms(4) [OF that] unfolding frame_def by blast
      then show ?thesis using that by (simp add: mem_copy_def)
    qed
    have out: "mem ?s (x + phys_off s) = mem s1 (x + phys_off s)" if "unat x \<notin> block_bytes k b" for x
    proof -
      have "\<not> x - b < stop - start"
      proof
        assume "x - b < stop - start"
        then have lt: "unat (x - b) < 2 ^ (k + 12)" using k(2) by (simp add: word_less_nat_alt)
        have "unat b + 2 ^ (k + 12) \<le> 2 ^ 64" using a(2) by (simp add: block_ok_def)
        then have "unat (b + (x - b)) = unat b + unat (x - b)" using lt by (subst unat_add_lem [THEN iffD1]) simp_all
        then show False using that lt by (simp add: block_bytes_def)
      qed
      then show ?thesis by (simp add: mem_copy_def)
    qed
    have "buddy_inv ?s fl1" using out a by (intro buddy_inv_mem) auto
    moreover have "frame (free_bytes fl) s ?s" using a(4,5) out by (simp add: frame_def) (metis subsetD)
    ultimately show ?thesis using run copied a k(2) by (intro disjI2 exI [of _ k] exI [of _ b] exI [of _ ?s] exI [of _ fl1]) auto
  qed
qed

theorem init_hart_local_storage_correct_witness:
  "(\<exists>e. init_hart_local_storage (0x1000, 0x2000) example_pmem = Some (Err e, example_pmem)) \<or>
    (\<exists>page s'. init_hart_local_storage (0x1000, 0x2000) example_pmem = Some (Ok page, s') \<and> mem s' (page + 8) = mem example_pmem 0x1008)"
proof -
  have "unat x \<notin> free_bytes example_lists" if "unat x < 2 ^ 24" for x :: usize
  proof
    assume "unat x \<in> free_bytes example_lists"
    then obtain k b where kb: "k < 12" "b \<in> set (example_lists ! k)" "unat x \<in> block_bytes k b" by (auto simp: free_bytes_def)
    then have "block_ok (phys_off example_pmem) k b" using example_pmem_inv by (simp add: buddy_inv_def blocks_inv_def)
    then show False using kb(3) that by (simp add: block_ok_def block_bytes_def)
  qed
  then have "unat (0x1000 + n - phys_off example_pmem) \<notin> free_bytes example_lists" if "n < 0x2000 - 0x1000" for n
  proof -
    have "unat n < 4096" using that by (simp add: word_less_nat_alt)
    then have "unat (0x1000 + n) < 2 ^ 24" by (subst unat_add_lem [THEN iffD1]) simp_all
    then show ?thesis using \<open>\<And>x. unat x < 2 ^ 24 \<Longrightarrow> unat x \<notin> free_bytes example_lists\<close> by (simp add: example_pmem_def)
  qed
  note correct = init_hart_local_storage_correct [where start = "0x1000" and stop = "0x2000", OF example_pmem_inv _ _ this]
  have "(8 :: usize) < 0x2000 - 0x1000" by simp
  then show ?thesis using correct by fastforce
qed

section \<open>The trap frame and the trap stack\<close>

text \<open>A kernel that has not allocated anything yet, with 64 KiB of memory.\<close>

definition fresh_kernel :: kernel where
  "fresh_kernel = \<lparr>mem = (\<lambda>_. 0), phys_off = 0, orders = [None, None, None, None, Some 0x80300000, None, None, None, None, None, None, None],
     stats = \<lparr>name = ''Physical Memory'', allocated = 0, free = 0x10000, total = 0x10000\<rparr>,
     root_table = None, root_locked = False, fences = []\<rparr>"


end
