(* ===== verification/Sbi.thy ===== *)
theory Sbi
  imports Prelude
begin

unbundle bit_operations_syntax

text \<open>
  The \<open>sbi\<close> crate: calls into the firmware. The firmware is a parameter \<open>fw\<close>: given its state and the registers of an
  \<open>ecall\<close>, it returns the registers \<open>a0\<close> (the error code) and \<open>a1\<close> (the value) and its new state, or does not return
  (\<open>None\<close>). An argument register that the call does not set is \<open>None\<close>.
\<close>

record ecall =
  a7 :: u32
  a6 :: "u32 option"
  regs :: "usize option list"

type_synonym 'w firmware = "'w \<Rightarrow> ecall \<Rightarrow> (usize \<times> usize \<times> 'w) option"

section \<open>Errors\<close>

datatype sbi_error =
  Failed | NotSupported | InvalidParam | Denied | InvalidAddressErr | AlreadyAvailable | Unknown u64

text \<open>An \<open>isize\<close> is a word, compared with the two's complement of the code.\<close>

definition from_code :: "u64 \<Rightarrow> sbi_error" where
  "from_code c =
     (if c = - 1 then Failed else if c = - 2 then NotSupported else if c = - 3 then InvalidParam
      else if c = - 4 then Denied else if c = - 5 then InvalidAddressErr else if c = - 6 then AlreadyAvailable
      else Unknown c)"

fun code :: "sbi_error \<Rightarrow> u64" where
  "code Failed = - 1"
| "code NotSupported = - 2"
| "code InvalidParam = - 3"
| "code Denied = - 4"
| "code InvalidAddressErr = - 5"
| "code AlreadyAvailable = - 6"
| "code (Unknown c) = c"

definition from_sbi_call :: "'v \<Rightarrow> u64 \<Rightarrow> ('v, sbi_error) result" where
  "from_sbi_call v err_code = (if err_code = 0 then Ok v else Err (from_code err_code))"

section \<open>Hart masks\<close>

record hart_mask =
  hm_base :: u64
  hm_mask :: u64

definition all_from_base :: "u64 \<Rightarrow> hart_mask" where
  "all_from_base b = \<lparr>hm_base = b, hm_mask = - 1\<rparr>"

text \<open>The harts that a call with this mask addresses.\<close>

definition hart_targets :: "hart_mask \<Rightarrow> u64 set" where
  "hart_targets m = {hm_base m + of_nat i |i. bit (hm_mask m) i}"

section \<open>The base extension\<close>

definition base_EXTENSION_ID :: u32 where "base_EXTENSION_ID = 0x10"

definition base_sbi_call :: "'w firmware \<Rightarrow> 'w \<Rightarrow> u32 \<Rightarrow> ((usize, sbi_error) result \<times> 'w) option" where
  "base_sbi_call fw w fid =
     do { (err_code, value, w') \<leftarrow> fw w \<lparr>a7 = base_EXTENSION_ID, a6 = Some fid, regs = [None, None, None, None]\<rparr>;
          Some (from_sbi_call value err_code, w') }"

fun map_result :: "('a \<Rightarrow> 'b) \<Rightarrow> ('a, 'e) result \<Rightarrow> ('b, 'e) result" where
  "map_result f (Ok x) = Ok (f x)"
| "map_result f (Err e) = Err e"

definition spec_version :: "'w firmware \<Rightarrow> 'w \<Rightarrow> ((usize \<times> usize, sbi_error) result \<times> 'w) option" where
  "spec_version fw w =
     do { (r, w') \<leftarrow> base_sbi_call fw w 0x00;
          Some (map_result (\<lambda>raw. (drop_bit 24 raw AND 0x7F, raw AND 0xFFFFFF)) r, w') }"

definition impl_id :: "'w firmware \<Rightarrow> 'w \<Rightarrow> ((usize, sbi_error) result \<times> 'w) option" where
  "impl_id fw w = base_sbi_call fw w 0x01"

definition impl_version :: "'w firmware \<Rightarrow> 'w \<Rightarrow> ((usize, sbi_error) result \<times> 'w) option" where
  "impl_version fw w = base_sbi_call fw w 0x02"

definition probe_ext :: "'w firmware \<Rightarrow> 'w \<Rightarrow> u32 \<Rightarrow> ((bool, sbi_error) result \<times> 'w) option" where
  "probe_ext fw w ext =
     do { (err_code, value, w') \<leftarrow> fw w \<lparr>a7 = base_EXTENSION_ID, a6 = Some 0x03, regs = [Some (ucast ext), None, None, None]\<rparr>;
          Some (map_result (\<lambda>v. v \<noteq> 0) (from_sbi_call value err_code), w') }"

definition mvendorid :: "'w firmware \<Rightarrow> 'w \<Rightarrow> ((usize, sbi_error) result \<times> 'w) option" where
  "mvendorid fw w = base_sbi_call fw w 0x04"

definition marchid :: "'w firmware \<Rightarrow> 'w \<Rightarrow> ((usize, sbi_error) result \<times> 'w) option" where
  "marchid fw w = base_sbi_call fw w 0x05"

definition mimpid :: "'w firmware \<Rightarrow> 'w \<Rightarrow> ((usize, sbi_error) result \<times> 'w) option" where
  "mimpid fw w = base_sbi_call fw w 0x06"

section \<open>Harts\<close>

definition hsm_EXTENSION_ID :: u32 where "hsm_EXTENSION_ID = 0x48534D"

definition hsm_start :: "'w firmware \<Rightarrow> 'w \<Rightarrow> usize \<Rightarrow> usize \<Rightarrow> usize \<Rightarrow> ((unit, sbi_error) result \<times> 'w) option" where
  "hsm_start fw w hart_id start_addr arg =
     do { (err_code, _, w') \<leftarrow> fw w \<lparr>a7 = hsm_EXTENSION_ID, a6 = Some 0, regs = [Some hart_id, Some start_addr, Some arg, None]\<rparr>;
          Some (from_sbi_call () err_code, w') }"

text \<open>A call that reports success is \<open>unreachable!\<close>, so every value is an error.\<close>

definition hsm_stop :: "'w firmware \<Rightarrow> 'w \<Rightarrow> (sbi_error \<times> 'w) option" where
  "hsm_stop fw w =
     do { (err_code, _, w') \<leftarrow> fw w \<lparr>a7 = hsm_EXTENSION_ID, a6 = Some 0x01, regs = [None, None, None, None]\<rparr>;
          if err_code = 0 then None else Some (from_code err_code, w') }"

datatype hart_status = Started | Stopped | StartRequestPending | StopRequestPending | UnknownStatus usize

definition status_of :: "usize \<Rightarrow> hart_status" where
  "status_of v =
     (if v = 0 then Started else if v = 1 then Stopped else if v = 2 then StartRequestPending
      else if v = 3 then StopRequestPending else UnknownStatus v)"

definition hsm_status :: "'w firmware \<Rightarrow> 'w \<Rightarrow> usize \<Rightarrow> ((hart_status, sbi_error) result \<times> 'w) option" where
  "hsm_status fw w hart_id =
     do { (err_code, value, w') \<leftarrow> fw w \<lparr>a7 = hsm_EXTENSION_ID, a6 = Some 0x02, regs = [Some hart_id, None, None, None]\<rparr>;
          Some (if err_code = 0 then Ok (status_of value) else Err (from_code err_code), w') }"

section \<open>Interrupts, fences and the timer\<close>

definition ipi_EXTENSION_ID :: u32 where "ipi_EXTENSION_ID = 0x735049"

definition send_ipi :: "'w firmware \<Rightarrow> 'w \<Rightarrow> hart_mask \<Rightarrow> ((unit, sbi_error) result \<times> 'w) option" where
  "send_ipi fw w m =
     do { (err_code, _, w') \<leftarrow> fw w \<lparr>a7 = ipi_EXTENSION_ID, a6 = Some 0x00, regs = [Some (hm_mask m), Some (hm_base m), None, None]\<rparr>;
          Some (from_sbi_call () err_code, w') }"

definition rfence_EXTENSION_ID :: u32 where "rfence_EXTENSION_ID = 0x52464E43"

definition rfence_sbi_call :: "'w firmware \<Rightarrow> 'w \<Rightarrow> u32 \<Rightarrow> hart_mask \<Rightarrow> usize \<Rightarrow> usize \<Rightarrow> ((unit, sbi_error) result \<times> 'w) option" where
  "rfence_sbi_call fw w fid m start sz =
     do { (err_code, _, w') \<leftarrow> fw w \<lparr>a7 = rfence_EXTENSION_ID, a6 = Some fid, regs = [Some (hm_mask m), Some (hm_base m), Some start, Some sz]\<rparr>;
          Some (from_sbi_call () err_code, w') }"

definition fence_i :: "'w firmware \<Rightarrow> 'w \<Rightarrow> hart_mask \<Rightarrow> ((unit, sbi_error) result \<times> 'w) option" where
  "fence_i fw w m = rfence_sbi_call fw w 0x00 m 0 0"

definition sfence_vma :: "'w firmware \<Rightarrow> 'w \<Rightarrow> hart_mask \<Rightarrow> usize \<Rightarrow> usize \<Rightarrow> ((unit, sbi_error) result \<times> 'w) option" where
  "sfence_vma fw w m start sz = rfence_sbi_call fw w 0x00 m start sz"

definition timer_EXTENSION_ID :: u32 where "timer_EXTENSION_ID = 0x54494D45"

definition set_timer :: "'w firmware \<Rightarrow> 'w \<Rightarrow> u64 \<Rightarrow> ((unit, sbi_error) result \<times> 'w) option" where
  "set_timer fw w stime =
     do { (err_code, _, w') \<leftarrow> fw w \<lparr>a7 = timer_EXTENSION_ID, a6 = Some 0x00, regs = [Some stime, None, None, None]\<rparr>;
          Some (from_sbi_call () err_code, w') }"

section \<open>System reset\<close>

definition system_EXTENSION_ID :: u32 where "system_EXTENSION_ID = 0x53525354"

datatype reset_type = Shutdown | ColdReboot | WarmReboot | CustomType usize
datatype reset_reason = NoReason | SystemFailure | CustomReason usize

fun type_code :: "reset_type \<Rightarrow> usize" where
  "type_code Shutdown = 0x00"
| "type_code ColdReboot = 0x01"
| "type_code WarmReboot = 0x02"
| "type_code (CustomType v) = v"

fun reason_code :: "reset_reason \<Rightarrow> usize" where
  "reason_code NoReason = 0x00"
| "reason_code SystemFailure = 0x01"
| "reason_code (CustomReason v) = v"

definition system_reset :: "'w firmware \<Rightarrow> 'w \<Rightarrow> reset_type \<Rightarrow> reset_reason \<Rightarrow> (sbi_error \<times> 'w) option" where
  "system_reset fw w t r =
     do { (err_code, _, w') \<leftarrow> fw w \<lparr>a7 = system_EXTENSION_ID, a6 = Some 0x00, regs = [Some (type_code t), Some (reason_code r), None, None]\<rparr>;
          if err_code = 0 then None else Some (from_code err_code, w') }"

text \<open>The \<open>unwrap\<close> of an error panics: neither function returns.\<close>

definition shutdown :: "'w firmware \<Rightarrow> 'w \<Rightarrow> unit option" where
  "shutdown fw w = do { (_, _) \<leftarrow> system_reset fw w Shutdown NoReason; None }"

definition fail_shutdown :: "'w firmware \<Rightarrow> 'w \<Rightarrow> unit option" where
  "fail_shutdown fw w = do { (_, _) \<leftarrow> system_reset fw w Shutdown SystemFailure; None }"

section \<open>The legacy console\<close>

definition legacy_sbi_call :: "'w firmware \<Rightarrow> 'w \<Rightarrow> u32 \<Rightarrow> usize option \<Rightarrow> ((usize, sbi_error) result \<times> 'w) option" where
  "legacy_sbi_call fw w ext arg =
     do { (err_code, value, w') \<leftarrow> fw w \<lparr>a7 = ext, a6 = None, regs = [Some (case arg of None \<Rightarrow> 0 | Some a \<Rightarrow> a), None, None, None]\<rparr>;
          Some (from_sbi_call value err_code, w') }"

text \<open>A character is its scalar value.\<close>

definition put_char :: "'w firmware \<Rightarrow> 'w \<Rightarrow> u32 \<Rightarrow> ((unit, sbi_error) result \<times> 'w) option" where
  "put_char fw w c =
     do { (r, w') \<leftarrow> legacy_sbi_call fw w 0x01 (Some (ucast c)); Some (map_result (\<lambda>_. ()) r, w') }"

text \<open>\<open>SbiLogger::write_str\<close> of \<open>boot.rs\<close> and \<open>PanicLogger::write_str\<close> of \<open>panic.rs\<close>: stop at the first error and ignore it.\<close>

definition sbi_write_str :: "'w firmware \<Rightarrow> 'w \<Rightarrow> u32 list \<Rightarrow> ((unit, unit) result \<times> 'w) option" where
  "sbi_write_str fw w x = do { (_, w') \<leftarrow> try_for_each (put_char fw) w x; Some (Ok (), w') }"

section \<open>The panic handler's mask\<close>

text \<open>The harts that \<open>panic_handler\<close> interrupts, from the id of the hart that panics.\<close>

definition panic_mask :: "u64 \<Rightarrow> hart_mask option" where
  "panic_mask hart_id =
     do { let m = all_from_base 0;
          b \<leftarrow> shl_chk 1 (unat hart_id);
          Some (m\<lparr>hm_mask := hm_mask m AND NOT b\<rparr>) }"

section \<open>Properties\<close>

text \<open>The code of a decoded error is the code that was decoded; decoding the code of an error gives the error back, except for an
  \<open>Unknown\<close> that carries one of the six known codes.\<close>

theorem sbi_error_roundtrip:
  "code (from_code c) = c \<and> (from_code (code e) = e \<longleftrightarrow> e \<notin> Unknown ` {- 1, - 2, - 3, - 4, - 5, - 6})"
  by (cases e) (auto simp: from_code_def)

text \<open>The mask with which a panicking hart interrupts the others names exactly the harts 0 to 63 without the hart itself; for a hart
  id of 64 or more the shift overflows and the panic handler itself panics.\<close>

theorem panic_mask_correct:
  "(case panic_mask h of None \<Rightarrow> 64 \<le> unat h | Some m \<Rightarrow> unat h < 64 \<and> hart_targets m = of_nat ` {..<64} - {h})"
proof (cases "unat h < 64")
  case True
  let ?m = "\<lparr>hm_base = 0, hm_mask = - 1 AND NOT (push_bit (unat h) 1)\<rparr> :: hart_mask"
  have "panic_mask h = Some ?m" using True by (simp add: panic_mask_def shl_chk_def all_from_base_def Let_def)
  moreover have "bit (hm_mask ?m) i \<longleftrightarrow> i < 64 \<and> i \<noteq> unat h" for i
    using True by (auto simp: bit_simps)
  then have "hart_targets ?m = of_nat ` ({..<64} - {unat h})" unfolding hart_targets_def by auto
  moreover have "of_nat ` ({..<64} - {unat h}) = of_nat ` {..<64} - {h}"
  proof -
    have "inj_on (of_nat :: nat \<Rightarrow> u64) {..<64}" by (rule inj_onI) (simp add: word_unat_eq_iff unat_of_nat)
    then have "(of_nat :: nat \<Rightarrow> u64) ` ({..<64} - {unat h}) = of_nat ` {..<64} - of_nat ` {unat h}" using True by (intro inj_on_image_set_diff [where C = "{..<64}"]) auto
    then show ?thesis by simp
  qed
  ultimately show ?thesis using True by simp
qed (simp add: panic_mask_def shl_chk_def)

end
