(* ===== verification/Panic.thy ===== *)
theory Panic
  imports Hart Sbi Log
begin

text \<open>
  \<open>crates/kernel/src/panic.rs\<close>: the text of a panic and the handler. The handler never returns; \<open>panic_report\<close> is the handler
  up to the call it ends with. The state \<open>'w\<close> is what the firmware and the global logger act on. One \<open>write!\<close> is one write
  of its text.
\<close>

section \<open>The text\<close>

text \<open>The location (line and file) and the message of a \<open>PanicInfo\<close>.\<close>

record panic_info =
  location :: "(u32 \<times> string) option"
  message :: "string option"

definition RULE :: string where
  "RULE = ''=========================''"

fun panic_cause :: "(u32 \<times> string) option \<Rightarrow> string option \<Rightarrow> string" where
  "panic_cause (Some (line, file)) (Some msg) = ''line '' @ dec (unat line) @ '', file '' @ file @ '': '' @ msg"
| "panic_cause None (Some msg) = msg"
| "panic_cause (Some (line, file)) None = ''line '' @ dec (unat line) @ '', file '' @ file"
| "panic_cause None None = ''no information available.''"

definition panic_text :: "hart_context option \<Rightarrow> panic_info \<Rightarrow> string list" where
  "panic_text ctx info =
     [RULE @ [NL],
      (case ctx of
         Some c \<Rightarrow> ''KERNEL PANIC ON HART '' @ pad_left 3 (dec (unat (ctx_id c))) @ [NL]
       | None \<Rightarrow> ''KERNEL PANIC'' @ [NL]),
      RULE @ [NL],
      panic_cause (location info) (message info)]"

text \<open>The panic of \<open>alloc_handler\<close>, raised when an allocation of the standard library fails.\<close>

definition alloc_handler :: "layout \<Rightarrow> string" where
  "alloc_handler l =
     ''memory allocation of '' @ dec (unat (layout_size l)) @ '' bytes and '' @ dec (unat (layout_align l)) @ '' alignment failed''"

section \<open>The handler\<close>

text \<open>Whether the mutex of the global logger is held when the hart panics, and whether a logger is installed.\<close>

record log_global =
  log_held :: bool
  log_installed :: bool

datatype panic_end = FailShutdown | StopHart

definition char_code :: "char \<Rightarrow> u32" where
  "char_code c = of_nat (of_char c)"

text \<open>\<open>PanicLogger::write_str\<close>\<close>

definition panic_write_str :: "'w firmware \<Rightarrow> 'w \<Rightarrow> string \<Rightarrow> ((unit, unit) result \<times> 'w) option" where
  "panic_write_str fw w x = sbi_write_str fw w (map char_code x)"

definition panic_report :: "style \<Rightarrow> 'w logger \<Rightarrow> 'w firmware \<Rightarrow> usize \<Rightarrow> log_global \<Rightarrow> usize \<Rightarrow> 'a machine_scheme \<Rightarrow> panic_info \<Rightarrow> 'w \<Rightarrow>
    (panic_end \<times> 'w) option" where
  "panic_report sty wstr fw clock g sscratch s info w =
     (let ctx = try_current sscratch s in
      if (case ctx of None \<Rightarrow> True | Some c \<Rightarrow> is_bsp c) then do {
        w1 \<leftarrow> (case ctx of
                 Some hart \<Rightarrow> do { mask \<leftarrow> panic_mask (ctx_id hart); (_, w1) \<leftarrow> send_ipi fw w mask; Some w1 }
               | None \<Rightarrow> Some w);
        (_, w2) \<leftarrow> try_for_each (panic_write_str fw) w1 (panic_text ctx info);
        Some (FailShutdown, w2) }
      else if log_held g then None
      else do {
        l \<leftarrow> log_call sty wstr Error ''kernel::panic'' clock (panic_text ctx info) (if log_installed g then Some w else None);
        Some (StopHart, case l of Some w' \<Rightarrow> w' | None \<Rightarrow> w) })"

text \<open>A hart that cannot be stopped waits for interrupts forever.\<close>

definition panic_handler :: "style \<Rightarrow> 'w logger \<Rightarrow> 'w firmware \<Rightarrow> usize \<Rightarrow> log_global \<Rightarrow> usize \<Rightarrow> 'a machine_scheme \<Rightarrow> panic_info \<Rightarrow> 'w \<Rightarrow> unit option" where
  "panic_handler sty wstr fw clock g sscratch s info w =
     do { (e, w1) \<leftarrow> panic_report sty wstr fw clock g sscratch s info w;
          (case e of
             FailShutdown \<Rightarrow> fail_shutdown fw w1
           | StopHart \<Rightarrow> do { (_, _) \<leftarrow> hsm_stop fw w1; None }) }"

section \<open>A panic of the boot hart is reported\<close>

text \<open>
  A firmware with a console and interrupts between harts: a character is appended to the output, an interrupt to the list of
  masks sent, and both calls report success.
\<close>

definition console :: "'w firmware \<Rightarrow> ('w \<Rightarrow> u32 list) \<Rightarrow> ('w \<Rightarrow> hart_mask list) \<Rightarrow> bool" where
  "console fw out ipis \<longleftrightarrow>
     (\<forall>w c. \<exists>v w'. fw w \<lparr>a7 = 0x01, a6 = None, regs = [Some (ucast (c :: u32)), None, None, None]\<rparr> = Some (0, v, w') \<and>
        out w' = out w @ [c] \<and> ipis w' = ipis w) \<and>
     (\<forall>w m. \<exists>v w'. fw w \<lparr>a7 = ipi_EXTENSION_ID, a6 = Some 0x00, regs = [Some (hm_mask m), Some (hm_base m), None, None]\<rparr> = Some (0, v, w') \<and>
        out w' = out w \<and> ipis w' = ipis w @ [m])"

lemma put_char_console:
  assumes "console fw out ipis"
  shows "\<exists>w'. put_char fw w c = Some (Ok (), w') \<and> out w' = out w @ [c] \<and> ipis w' = ipis w"
proof -
  obtain v w' where "fw w \<lparr>a7 = 0x01, a6 = None, regs = [Some (ucast c), None, None, None]\<rparr> = Some (0, v, w')"
    "out w' = out w @ [c]" "ipis w' = ipis w" using assms unfolding console_def by blast
  then show ?thesis by (simp add: put_char_def legacy_sbi_call_def from_sbi_call_def)
qed

lemma panic_write_str_console:
  assumes "console fw out ipis"
  shows "\<exists>w'. panic_write_str fw w x = Some (Ok (), w') \<and> out w' = out w @ map char_code x \<and> ipis w' = ipis w"
proof -
  have "\<exists>w'. try_for_each (put_char fw) w cs = Some (Ok (), w') \<and> out w' = out w @ cs \<and> ipis w' = ipis w" for cs
  proof (induction cs arbitrary: w)
    case (Cons c cs)
    obtain w1 where w1: "put_char fw w c = Some (Ok (), w1)" "out w1 = out w @ [c]" "ipis w1 = ipis w"
      using put_char_console [OF assms] by blast
    then show ?case using Cons [of w1] by simp
  qed simp
  from this [of "map char_code x"] show ?thesis by (auto simp: panic_write_str_def sbi_write_str_def)
qed

lemma panic_write_console:
  assumes "console fw out ipis"
  shows "\<exists>w'. try_for_each (panic_write_str fw) w xs = Some (Ok (), w') \<and> out w' = out w @ map char_code (concat xs) \<and> ipis w' = ipis w"
proof (induction xs arbitrary: w)
  case (Cons x xs)
  obtain w1 where w1: "panic_write_str fw w x = Some (Ok (), w1)" "out w1 = out w @ map char_code x" "ipis w1 = ipis w"
    using panic_write_str_console [OF assms] by blast
  then show ?case using Cons [of w1] by simp
qed simp


text \<open>A hart other than the boot hart reports through the global logger. If it panics while it holds the lock of the logger, as the
  \<open>expect\<close> in \<open>log\<close> does when the logger fails, it waits for itself and nothing is reported.\<close>

theorem panic_report_logger_deadlock:
  assumes "try_current sscratch s = Some c" "\<not> is_bsp c" "log_held g"
  shows "panic_report sty wstr fw clock g sscratch s info w = None"
  using assms by (simp add: panic_report_def)

section \<open>An example\<close>

definition demo_fw :: "(u32 list \<times> hart_mask list) firmware" where
  "demo_fw = (\<lambda>(cs, ms) e.
     if a7 e = 0x01 then (case regs e of (Some c # _) \<Rightarrow> Some (0, 0, (cs @ [ucast c], ms)) | _ \<Rightarrow> None)
     else (case regs e of (Some m # Some b # _) \<Rightarrow> Some (0, 0, (cs, ms @ [\<lparr>hm_base = b, hm_mask = m\<rparr>])) | _ \<Rightarrow> None))"

lemma demo_console: "console demo_fw fst snd"
proof -
  have "ucast (ucast c :: usize) = c" for c :: u32 by (rule bit_eqI) (auto simp: bit_simps)
  then show ?thesis by (auto simp: console_def demo_fw_def ipi_EXTENSION_ID_def)
qed

definition demo_machine :: machine where
  "demo_machine = \<lparr>mem = (\<lambda>_. 0), phys_off = 0\<rparr>"


end
