(* ===== verification/Uart.thy ===== *)
theory Uart
  imports Fdt_Node
begin

unbundle bit_operations_syntax

text \<open>
  \<open>crates/kernel/src/drivers/ns16550a.rs\<close>: the driver of the serial port. The chip is a parameter: \<open>read8\<close>, \<open>write8\<close> and
  \<open>write16\<close> are the volatile accesses at an address of the bus, on the state of the chip. A wait loop is a partial function, whose
  value \<open>None\<close> is spinning forever.
\<close>

record 'd mmio =
  read8 :: "'d \<Rightarrow> usize \<Rightarrow> u8 \<times> 'd"
  write8 :: "'d \<Rightarrow> usize \<Rightarrow> u8 \<Rightarrow> 'd"
  write16 :: "'d \<Rightarrow> usize \<Rightarrow> u16 \<Rightarrow> 'd"

record uart =
  interrupt_id :: u32
  uart_base :: usize

section \<open>The device\<close>

definition uart_init :: "'d mmio \<Rightarrow> uart \<Rightarrow> 'd \<Rightarrow> 'd" where
  "uart_init io u d =
     (let p = uart_base u;
          d1 = write8 io d (p + 2) 0x01;
          lcr_value = 0x03;
          d2 = write8 io d1 (p + 3) lcr_value;
          d3 = write8 io d2 (p + 1) 0x01;
          divisor = 592;
          d4 = write8 io d3 (p + 3) (push_bit 7 1 OR lcr_value);
          d5 = write16 io d4 p divisor
      in write8 io d5 (p + 3) lcr_value)"

definition transmitter_empty :: "'d mmio \<Rightarrow> uart \<Rightarrow> 'd \<Rightarrow> bool \<times> 'd" where
  "transmitter_empty io u d = (let (v, d') = read8 io d (uart_base u + 5) in (v AND push_bit 6 1 \<noteq> 0, d'))"

definition data_ready :: "'d mmio \<Rightarrow> uart \<Rightarrow> 'd \<Rightarrow> bool \<times> 'd" where
  "data_ready io u d = (let (v, d') = read8 io d (uart_base u + 5) in (v AND 0x01 \<noteq> 0, d'))"

definition read_data :: "'d mmio \<Rightarrow> uart \<Rightarrow> 'd \<Rightarrow> u8 \<times> 'd" where
  "read_data io u d = read8 io d (uart_base u)"

definition write_data :: "'d mmio \<Rightarrow> uart \<Rightarrow> u8 \<Rightarrow> 'd \<Rightarrow> 'd" where
  "write_data io u x d = write8 io d (uart_base u) x"

definition try_read :: "'d mmio \<Rightarrow> uart \<Rightarrow> 'd \<Rightarrow> u8 option \<times> 'd" where
  "try_read io u d =
     (let (ready, d1) = data_ready io u d in if ready then (let (x, d2) = read_data io u d1 in (Some x, d2)) else (None, d1))"

partial_function (option) wait_ready :: "'d mmio \<Rightarrow> uart \<Rightarrow> 'd \<Rightarrow> 'd option" where
  "wait_ready io u d = (let (ready, d1) = data_ready io u d in if ready then Some d1 else wait_ready io u d1)"

definition uart_read :: "'d mmio \<Rightarrow> uart \<Rightarrow> 'd \<Rightarrow> (u8 \<times> 'd) option" where
  "uart_read io u d = map_option (read_data io u) (wait_ready io u d)"

definition try_write :: "'d mmio \<Rightarrow> uart \<Rightarrow> u8 \<Rightarrow> 'd \<Rightarrow> u8 option \<times> 'd" where
  "try_write io u x d =
     (let (empty, d1) = transmitter_empty io u d in if empty then (None, write_data io u x d1) else (Some x, d1))"

partial_function (option) wait_empty :: "'d mmio \<Rightarrow> uart \<Rightarrow> 'd \<Rightarrow> 'd option" where
  "wait_empty io u d = (let (empty, d1) = transmitter_empty io u d in if empty then Some d1 else wait_empty io u d1)"

definition uart_write :: "'d mmio \<Rightarrow> uart \<Rightarrow> u8 \<Rightarrow> 'd \<Rightarrow> 'd option" where
  "uart_write io u x d = map_option (write_data io u x) (wait_empty io u d)"

section \<open>The traits\<close>

fun uart_write_str :: "'d mmio \<Rightarrow> uart \<Rightarrow> 'd \<Rightarrow> bytes \<Rightarrow> ((unit, unit) result \<times> 'd) option" where
  "uart_write_str io u d [] = Some (Ok (), d)"
| "uart_write_str io u d (x # xs) = do { d1 \<leftarrow> uart_write io u x d; uart_write_str io u d1 xs }"

definition uart_compatible_with :: "device_tree \<Rightarrow> node \<Rightarrow> bool option" where
  "uart_compatible_with t n = compatible_with t n (str ''ns16550a'')"

definition uart_from_node :: "device_tree \<Rightarrow> node \<Rightarrow> uart option option" where
  "uart_from_node t n =
     do { it \<leftarrow> node_regions t n;
          (r, _) \<leftarrow> regions_next it;
          (case r of
             None \<Rightarrow> Some None
           | Some g \<Rightarrow>
               if reg_start g = 0 then Some None
               else do { p \<leftarrow> node_prop t n (str ''interrupts'');
                         Some (case p of
                           None \<Rightarrow> None
                         | Some p \<Rightarrow> map_option (\<lambda>i. \<lparr>interrupt_id = i, uart_base = reg_start g\<rparr>) (as_u32 p)) }) }"

text \<open>\<open>handle_interrupt\<close> drains the input; on the byte \<open>S\<close> it shuts the system down, which does not return.\<close>

partial_function (option) handle_interrupt :: "'d mmio \<Rightarrow> uart \<Rightarrow> 'd \<Rightarrow> ((unit, string) result \<times> 'd) option" where
  "handle_interrupt io u d =
     (let (r, d1) = try_read io u d in
      case r of
        None \<Rightarrow> Some (Ok (), d1)
      | Some c \<Rightarrow> if c = 0x53 then None else handle_interrupt io u d1)"

section \<open>A chip with finite delays\<close>

text \<open>
  What the driver relies on: a read of the line status register shows in bit 0 whether a received byte waits and in bit 6 whether
  the transmitter is empty, and only lets the transmitter proceed; it becomes empty after finitely many reads. A read of the data
  register takes the first received byte, a write to it while the transmitter is empty sends the byte.
\<close>

definition chip :: "'d mmio \<Rightarrow> usize \<Rightarrow> ('d \<Rightarrow> u8 list) \<Rightarrow> ('d \<Rightarrow> u8 list) \<Rightarrow> ('d \<Rightarrow> nat) \<Rightarrow> bool" where
  "chip io p sent received busy \<longleftrightarrow>
     (\<forall>d v d'. read8 io d (p + 5) = (v, d') \<longrightarrow>
        (bit v 0 \<longleftrightarrow> received d \<noteq> []) \<and> (bit v 6 \<longleftrightarrow> busy d = 0) \<and> sent d' = sent d \<and> received d' = received d \<and> busy d' = busy d - 1) \<and>
     (\<forall>d v d'. read8 io d p = (v, d') \<longrightarrow> received d \<noteq> [] \<longrightarrow>
        v = hd (received d) \<and> received d' = tl (received d) \<and> sent d' = sent d) \<and>
     (\<forall>d x. busy d = 0 \<longrightarrow> sent (write8 io d p x) = sent d @ [x] \<and> received (write8 io d p x) = received d)"

lemma chip_status:
  assumes "chip io (uart_base u) sent received busy"
  obtains d1 where "transmitter_empty io u d = (busy d = 0, d1)" "data_ready io u d = (received d \<noteq> [], d1)"
    "sent d1 = sent d" "received d1 = received d" "busy d1 = busy d - 1"
proof -
  obtain v d1 where r: "read8 io d (uart_base u + 5) = (v, d1)" by fastforce
  have "v AND 64 \<noteq> 0 \<longleftrightarrow> bit v 6" "v AND 1 \<noteq> 0 \<longleftrightarrow> bit v 0"
    using and_exp_eq_0_iff_not_bit [of v 6] and_exp_eq_0_iff_not_bit [of v 0] by simp_all
  then show ?thesis using that r assms unfolding chip_def transmitter_empty_def data_ready_def by simp
qed

lemma uart_write_ok:
  assumes "chip io (uart_base u) sent received busy"
  shows "\<exists>d'. uart_write io u x d = Some d' \<and> sent d' = sent d @ [x] \<and> received d' = received d"
proof -
  have "\<exists>d'. wait_empty io u d = Some d' \<and> sent d' = sent d \<and> received d' = received d \<and> busy d' = 0"
  proof (induction "busy d" arbitrary: d)
    case 0
    obtain d1 where "transmitter_empty io u d = (True, d1)" "sent d1 = sent d" "received d1 = received d" "busy d1 = 0"
      using chip_status [OF assms, of d] 0 by (metis diff_0_eq_0)
    then show ?case by (subst wait_empty.simps) simp
  next
    case (Suc n)
    obtain d1 where d1: "transmitter_empty io u d = (False, d1)" "sent d1 = sent d" "received d1 = received d" "busy d1 = n"
      using chip_status [OF assms, of d] Suc(2) by (metis diff_Suc_1 nat.distinct(1))
    then show ?case using Suc(1) [of d1] by (subst wait_empty.simps) simp
  qed
  then show ?thesis using assms unfolding chip_def uart_write_def write_data_def by force
qed

lemma uart_write_str_ok:
  assumes "chip io (uart_base u) sent received busy"
  shows "\<exists>d'. uart_write_str io u d xs = Some (Ok (), d') \<and> sent d' = sent d @ xs \<and> received d' = received d"
proof (induction xs arbitrary: d)
  case (Cons x xs)
  obtain d1 where "uart_write io u x d = Some d1" "sent d1 = sent d @ [x]" "received d1 = received d"
    using uart_write_ok [OF assms] by blast
  then show ?case using Cons [of d1] by simp
qed simp

text \<open>On a chip whose transmitter becomes empty after finitely many polls, \<open>write_str\<close> returns and the bytes of the string are sent,
  each once and in order; received input stays queued.\<close>

theorem uart_write_str_correct:
  assumes "chip io (uart_base u) sent received busy"
  shows "\<exists>d'. uart_write_str io u d xs = Some (Ok (), d') \<and> sent d' = sent d @ xs \<and> received d' = received d"
  using uart_write_str_ok [OF assms] .

text \<open>\<open>handle_interrupt\<close> takes every received byte and returns, unless one of them is \<open>S\<close>: then the system is shut down.\<close>

theorem handle_interrupt_correct:
  assumes "chip io (uart_base u) sent received busy"
  shows "if 0x53 \<in> set (received d) then handle_interrupt io u d = None
    else \<exists>d'. handle_interrupt io u d = Some (Ok (), d') \<and> received d' = [] \<and> sent d' = sent d"
proof (induction "received d" arbitrary: d)
  case Nil
  obtain d1 where d1: "data_ready io u d = (False, d1)" "sent d1 = sent d" "received d1 = []"
    using chip_status [OF assms, of d] Nil by metis
  then have "handle_interrupt io u d = Some (Ok (), d1)" by (subst handle_interrupt.simps) (simp add: try_read_def)
  then show ?case using d1 Nil [symmetric] by simp
next
  case (Cons c cs)
  obtain d1 where d1: "data_ready io u d = (True, d1)" "sent d1 = sent d" "received d1 = c # cs"
    using chip_status [OF assms, of d] Cons(2) by (metis list.distinct(1))
  obtain d2 where d2: "read8 io d1 (uart_base u) = (c, d2)" "received d2 = cs" "sent d2 = sent d"
    using assms d1(2,3) unfolding chip_def by (metis list.distinct(1) list.sel(1,3) surj_pair)
  have "try_read io u d = (Some c, d2)" using d1(1) d2(1) by (simp add: try_read_def read_data_def)
  then have "handle_interrupt io u d = (if c = 0x53 then None else handle_interrupt io u d2)"
    by (subst handle_interrupt.simps) simp
  then show ?case using Cons(1) [of d2] d2(2,3) unfolding Cons(2) [symmetric] by (cases "c = 0x53"; cases "0x53 \<in> set cs") auto
qed

section \<open>An example\<close>

text \<open>A chip that needs three polls per byte: the bytes sent, the bytes received and the remaining polls.\<close>

definition demo_io :: "(u8 list \<times> u8 list \<times> nat) mmio" where
  "demo_io =
     \<lparr>read8 = (\<lambda>(s, r, b) a.
        if a = 0x10000005 then ((if r \<noteq> [] then 1 else 0) + (if b = 0 then 64 else 0), (s, r, b - 1))
        else if r \<noteq> [] then (hd r, (s, tl r, b)) else (0, (s, r, b))),
      write8 = (\<lambda>(s, r, b) a x. if a = 0x10000000 \<and> b = 0 then (s @ [x], r, 3) else (s, r, b)),
      write16 = (\<lambda>d a x. d)\<rparr>"

lemma demo_chip: "chip demo_io 0x10000000 fst (\<lambda>d. fst (snd d)) (\<lambda>d. snd (snd d))"
proof -
  have "bit (65 :: u8) 0" "bit (65 :: u8) 6" "bit (64 :: u8) 6" "\<not> bit (64 :: u8) 0" "bit (1 :: u8) 0" "\<not> bit (1 :: u8) 6"
    by simp_all
  then show ?thesis by (auto simp: chip_def demo_io_def split: if_splits)
qed

theorem uart_write_str_correct_witness:
  "\<exists>d'. uart_write_str demo_io \<lparr>interrupt_id = 10, uart_base = 0x10000000\<rparr> ([], [], 2) [72, 105] = Some (Ok (), d') \<and> fst d' = [72, 105]"
  using uart_write_str_correct [of demo_io "\<lparr>interrupt_id = 10, uart_base = 0x10000000\<rparr>", unfolded uart.simps, OF demo_chip, of "([], [], 2)" "[72, 105]"] by auto

theorem handle_interrupt_correct_witness:
  "(\<exists>d'. handle_interrupt demo_io \<lparr>interrupt_id = 10, uart_base = 0x10000000\<rparr> ([], [65, 66], 0) = Some (Ok (), d') \<and> fst (snd d') = []) \<and>
   handle_interrupt demo_io \<lparr>interrupt_id = 10, uart_base = 0x10000000\<rparr> ([], [65, 0x53], 0) = None"
  using handle_interrupt_correct [of demo_io "\<lparr>interrupt_id = 10, uart_base = 0x10000000\<rparr>", unfolded uart.simps, OF demo_chip, of "([], [65, 66], 0)"]
    handle_interrupt_correct [of demo_io "\<lparr>interrupt_id = 10, uart_base = 0x10000000\<rparr>", unfolded uart.simps, OF demo_chip, of "([], [65, 0x53], 0)"]
  by auto

end
