(* ===== verification/Console.thy ===== *)
theory Console
  imports Panic Uart
begin

text \<open>
  Messages on the two loggers of the kernel: the console of the firmware (\<open>SbiLogger\<close> of \<open>crates/kernel/src/boot.rs\<close>), which \<open>_before_main\<close> installs, and
  the serial port (the \<open>Logger\<close> instance of \<open>crates/kernel/src/drivers/ns16550a.rs\<close>). Both append the text they are given, so what holds of
  the writer of log messages holds of what arrives on the wire.
\<close>

text \<open>\<open>chars\<close> of a string are its scalar values, \<open>bytes\<close> its bytes; texts are ASCII.\<close>

definition sbi_logger :: "'w firmware \<Rightarrow> 'w logger" where
  "sbi_logger fw = (\<lambda>w x. sbi_write_str fw w (map char_code x))"

definition uart_logger :: "'d mmio \<Rightarrow> uart \<Rightarrow> 'd logger" where
  "uart_logger io u = (\<lambda>d s. uart_write_str io u d (map of_char s))"

lemma sbi_logger_appends:
  assumes "console fw out ipis"
  shows "appends_as char_code (sbi_logger fw) out"
  using panic_write_str_console [OF assms] by (auto simp: appends_as_def sbi_logger_def panic_write_str_def)

lemma uart_logger_appends:
  assumes "chip io (uart_base u) sent received busy"
  shows "appends_as of_char (uart_logger io u) sent"
  using uart_write_str_ok [OF assms] by (fastforce simp: appends_as_def uart_logger_def)



end
