(* ===== verification/Plic.thy ===== *)
theory Plic
  imports Fdt_Node
begin

unbundle bit_operations_syntax

text \<open>
  \<open>crates/kernel/src/drivers/plic.rs\<close>: the driver of the interrupt controller. The \<open>voladdress\<close> crate is a parameter: the address of an
  element of a \<open>VolBlock\<close> or \<open>VolSeries\<close> from its base, its length (and stride) and the index, where \<open>None\<close> is a panic, and the next
  address of a \<open>VolAddress\<close>. The controller's registers are 32-bit cells of a function; the claim register, whose reads and writes
  have side effects, is accessed through \<open>claim_read\<close> and \<open>claim_write\<close>.
\<close>

record vol =
  vol_index :: "usize \<Rightarrow> nat \<Rightarrow> usize \<Rightarrow> usize option"
  series_index :: "usize \<Rightarrow> nat \<Rightarrow> nat \<Rightarrow> usize \<Rightarrow> usize option"
  vol_add :: "usize \<Rightarrow> nat \<Rightarrow> usize"

definition CONTEXT_COUNT :: nat where "CONTEXT_COUNT = 15872"
definition DEFAULT_PRIORITY :: u32 where "DEFAULT_PRIORITY = 1"

record controller =
  max_interrupts :: usize
  priorities :: usize
  enable_base :: usize
  threshold_claim :: usize

type_synonym io = "usize \<Rightarrow> u32"

section \<open>Interrupt enables\<close>

definition enable_idx_bit :: "usize \<Rightarrow> usize \<Rightarrow> (usize \<times> usize) option" where
  "enable_idx_bit ctx i = do { a \<leftarrow> mul_chk ctx 32; entry \<leftarrow> add_chk a (i div 32); Some (entry, i mod 32) }"

definition plic_enable :: "vol \<Rightarrow> controller \<Rightarrow> usize \<Rightarrow> u32 \<Rightarrow> io \<Rightarrow> io option" where
  "plic_enable va c ctx i h =
     (if i = 0 then None
      else do { (entry, b) \<leftarrow> enable_idx_bit ctx (ucast i);
                addr \<leftarrow> vol_index va (enable_base c) (CONTEXT_COUNT * 32) entry;
                m \<leftarrow> shl_chk 1 (unat b);
                Some (h(addr := h addr OR m)) })"

definition plic_disable :: "vol \<Rightarrow> controller \<Rightarrow> usize \<Rightarrow> usize \<Rightarrow> io \<Rightarrow> io option" where
  "plic_disable va c ctx i h =
     (if i = 0 then None
      else do { (entry, b) \<leftarrow> enable_idx_bit ctx i;
                addr \<leftarrow> vol_index va (enable_base c) (CONTEXT_COUNT * 32) entry;
                m \<leftarrow> shl_chk 1 (unat b);
                Some (h(addr := h addr AND NOT m)) })"

section \<open>Claims, thresholds and priorities\<close>

record claim_guard =
  guard_id :: u32
  guard_claim :: usize

definition plic_claim :: "vol \<Rightarrow> ('d \<Rightarrow> usize \<Rightarrow> u32 \<times> 'd) \<Rightarrow> controller \<Rightarrow> usize \<Rightarrow> 'd \<Rightarrow> (claim_guard option \<times> 'd) option" where
  "plic_claim va claim_read c ctx d =
     do { a \<leftarrow> series_index va (threshold_claim c) CONTEXT_COUNT 4096 ctx;
          let claim = vol_add va a 1;
          let (i, d1) = claim_read d claim;
          Some (if i = 0 then None else Some \<lparr>guard_id = i, guard_claim = claim\<rparr>, d1) }"

definition claim_finish :: "('d \<Rightarrow> usize \<Rightarrow> u32 \<Rightarrow> 'd) \<Rightarrow> claim_guard \<Rightarrow> 'd \<Rightarrow> 'd" where
  "claim_finish claim_write g d = claim_write d (guard_claim g) (guard_id g)"

definition set_threshold :: "vol \<Rightarrow> controller \<Rightarrow> usize \<Rightarrow> u32 \<Rightarrow> io \<Rightarrow> io option" where
  "set_threshold va c ctx threshold h =
     do { addr \<leftarrow> series_index va (threshold_claim c) CONTEXT_COUNT 4096 ctx; Some (h(addr := threshold)) }"

definition set_priority :: "vol \<Rightarrow> controller \<Rightarrow> u32 \<Rightarrow> u32 \<Rightarrow> io \<Rightarrow> io option" where
  "set_priority va c i priority h =
     (if i = 0 then None else do { addr \<leftarrow> vol_index va (priorities c) 1024 (ucast i); Some (h(addr := priority)) })"

section \<open>The device driver\<close>

definition plic_compatible_with :: "device_tree \<Rightarrow> node \<Rightarrow> bool option" where
  "plic_compatible_with t n = compatible_with t n (str ''riscv,plic0'')"

definition plic_from_node :: "device_tree \<Rightarrow> node \<Rightarrow> controller option option" where
  "plic_from_node t n =
     do { it \<leftarrow> node_regions t n;
          (r, _) \<leftarrow> regions_next it;
          (case r of
             None \<Rightarrow> Some None
           | Some g \<Rightarrow> do {
               p \<leftarrow> node_prop t n (str ''riscv,ndev'');
               (case p of
                  None \<Rightarrow> Some None
                | Some p \<Rightarrow>
                    (case as_u32 p of
                       None \<Rightarrow> Some None
                     | Some ndev \<Rightarrow> do {
                         e \<leftarrow> add_chk (reg_start g) 0x2000;
                         tc \<leftarrow> add_chk (reg_start g) 0x200000;
                         Some (Some \<lparr>max_interrupts = ucast ndev, priorities = reg_start g, enable_base = e, threshold_claim = tc\<rparr>) })) }) }"

fun init_priorities :: "vol \<Rightarrow> controller \<Rightarrow> nat list \<Rightarrow> io \<Rightarrow> io option" where
  "init_priorities va c [] h = Some h"
| "init_priorities va c (i # is) h =
     do { addr \<leftarrow> vol_index va (priorities c) 1024 (of_nat i);
          init_priorities va c is (h(addr := DEFAULT_PRIORITY)) }"

definition plic_init :: "vol \<Rightarrow> controller \<Rightarrow> io \<Rightarrow> io option" where
  "plic_init va c h = init_priorities va c [1..<unat (max_interrupts c)] h"

section \<open>The documented behaviour of the volatile addresses\<close>

definition vol_ok :: "vol \<Rightarrow> bool" where
  "vol_ok va \<longleftrightarrow>
     (\<forall>p n i. vol_index va p n i = (if unat i < n then Some (p + 4 * i) else None)) \<and>
     (\<forall>p n k i. series_index va p n k i = (if unat i < n then Some (p + of_nat k * i) else None)) \<and>
     (\<forall>p n. vol_add va p n = p + 4 * of_nat n)"

text \<open>Interrupt \<open>i\<close> is enabled for a context: its bit in the context's 32 words is set.\<close>

definition enabled :: "controller \<Rightarrow> usize \<Rightarrow> usize \<Rightarrow> io \<Rightarrow> bool" where
  "enabled c ctx i h \<longleftrightarrow> bit (h (enable_base c + 4 * (32 * ctx + i div 32))) (unat i mod 32)"

lemma enable_idx_bit_eq:
  assumes "unat ctx < CONTEXT_COUNT" "unat i < 1024"
  shows "\<exists>e. enable_idx_bit ctx i = Some (e, i mod 32) \<and> e = 32 * ctx + i div 32 \<and> unat e = 32 * unat ctx + unat i div 32 \<and> unat e < CONTEXT_COUNT * 32"
proof -
  have c: "unat ctx < 15872" using assms(1) by (simp add: CONTEXT_COUNT_def)
  have "mul_chk ctx 32 = Some (ctx * 32)" "unat (ctx * 32) = unat ctx * 32" using c by (simp_all add: mul_chk_def unat_mult_lem [THEN iffD1])
  moreover have d: "unat (i div 32) = unat i div 32" by (simp add: unat_div)
  ultimately have "enable_idx_bit ctx i = Some (ctx * 32 + i div 32, i mod 32)" "unat (ctx * 32 + i div 32) = unat ctx * 32 + unat i div 32"
    using c assms(2) by (simp_all add: enable_idx_bit_def add_chk_def unat_add_lem [THEN iffD1])
  then show ?thesis using c assms(2) by (auto simp: CONTEXT_COUNT_def mult.commute)
qed

text \<open>The bits of different interrupts or contexts are different bits.\<close>

lemma enable_bit_inj:
  fixes ctx i ctx' i' :: usize
  assumes "unat ctx < CONTEXT_COUNT" "unat i < 1024" "unat ctx' < CONTEXT_COUNT" "unat i' < 1024"
    "p + 4 * (32 * ctx + i div 32) = p + 4 * (32 * ctx' + i' div 32)" "unat i mod 32 = unat i' mod 32"
  shows "ctx = ctx' \<and> i = i'"
proof -
  obtain e where e: "e = 32 * ctx + i div 32" "unat e = 32 * unat ctx + unat i div 32" "unat e < 507904"
    using enable_idx_bit_eq [OF assms(1,2)] by (auto simp: CONTEXT_COUNT_def)
  obtain e' where e': "e' = 32 * ctx' + i' div 32" "unat e' = 32 * unat ctx' + unat i' div 32" "unat e' < 507904"
    using enable_idx_bit_eq [OF assms(3,4)] by (auto simp: CONTEXT_COUNT_def)
  have "4 * e = 4 * e'" using assms(5) e(1) e'(1) by simp
  moreover have "unat (4 * e) = 4 * unat e" "unat (4 * e') = 4 * unat e'" using e(3) e'(3) by (simp_all add: unat_mult_lem [THEN iffD1])
  ultimately have "unat e = unat e'" by (metis mult_left_cancel zero_neq_numeral)
  then have "32 * unat ctx + unat i div 32 = 32 * unat ctx' + unat i' div 32" using e(2) e'(2) by simp
  moreover have "unat i div 32 < 32" "unat i' div 32 < 32" using assms(2,4) by auto
  ultimately have "unat ctx = unat ctx'" by linarith
  moreover from this have "unat i div 32 = unat i' div 32" using e(2) e'(2) \<open>unat e = unat e'\<close> by simp
  ultimately have "unat ctx = unat ctx'" "unat i div 32 = unat i' div 32" by simp_all
  then show ?thesis using assms(6) by (metis div_mod_decomp word_unat_eq_iff)
qed

text \<open>For the interrupts 1 to 1023 of an existing context, \<open>enable\<close> returns and afterwards exactly the interrupts are enabled that were
  enabled before, and this one for this context.\<close>

theorem plic_enable_correct:
  assumes "vol_ok va" "i \<noteq> 0" "unat i < 1024" "unat ctx < CONTEXT_COUNT"
  shows "\<exists>h'. plic_enable va c ctx i h = Some h' \<and>
    (\<forall>ctx' i'. unat ctx' < CONTEXT_COUNT \<and> unat i' < 1024 \<longrightarrow>
       (enabled c ctx' i' h' \<longleftrightarrow> enabled c ctx' i' h \<or> (ctx' = ctx \<and> i' = ucast i)))"
proof -
  have ui: "unat (ucast i :: usize) = unat i" using assms(3) by (simp add: unsigned_ucast_eq take_bit_nat_eq_self)
  obtain e where e: "enable_idx_bit ctx (ucast i) = Some (e, ucast i mod 32)" "e = 32 * ctx + ucast i div 32" "unat e < CONTEXT_COUNT * 32"
    using enable_idx_bit_eq [OF assms(4), of "ucast i"] assms(3) ui by auto
  let ?a = "enable_base c + 4 * e" and ?b = "unat i mod 32"
  have b: "unat (ucast i mod 32 :: usize) = ?b" using ui by (simp add: unat_mod)
  let ?h = "h(?a := h ?a OR push_bit ?b 1)"
  have run: "plic_enable va c ctx i h = Some ?h"
    using assms(1,2) e b by (simp add: plic_enable_def vol_ok_def shl_chk_def)
  have "enabled c ctx' i' ?h \<longleftrightarrow> enabled c ctx' i' h \<or> (ctx' = ctx \<and> i' = ucast i)"
    if "unat ctx' < CONTEXT_COUNT" "unat i' < 1024" for ctx' i'
  proof (cases "ctx' = ctx \<and> i' = ucast i")
    case True
    then show ?thesis using e(2) ui by (simp add: enabled_def bit_simps)
  next
    case False
    then have "enable_base c + 4 * (32 * ctx' + i' div 32) \<noteq> ?a \<or> unat i' mod 32 \<noteq> ?b"
      using enable_bit_inj [OF that assms(4), of "ucast i" "enable_base c"] e(2) ui assms(3) by auto
    then show ?thesis using False by (auto simp: enabled_def bit_simps)
  qed
  then show ?thesis using run by blast
qed

text \<open>\<open>disable\<close> likewise clears the interrupt for this context and no other.\<close>

theorem plic_disable_correct:
  assumes "vol_ok va" "i \<noteq> 0" "unat i < 1024" "unat ctx < CONTEXT_COUNT"
  shows "\<exists>h'. plic_disable va c ctx i h = Some h' \<and>
    (\<forall>ctx' i'. unat ctx' < CONTEXT_COUNT \<and> unat i' < 1024 \<longrightarrow>
       (enabled c ctx' i' h' \<longleftrightarrow> enabled c ctx' i' h \<and> \<not> (ctx' = ctx \<and> i' = i)))"
proof -
  obtain e where e: "enable_idx_bit ctx i = Some (e, i mod 32)" "e = 32 * ctx + i div 32" "unat e < CONTEXT_COUNT * 32"
    using enable_idx_bit_eq [OF assms(4,3)] by auto
  let ?a = "enable_base c + 4 * e" and ?b = "unat i mod 32"
  have b: "unat (i mod 32) = ?b" by (simp add: unat_mod)
  let ?h = "h(?a := h ?a AND NOT (push_bit ?b 1))"
  have run: "plic_disable va c ctx i h = Some ?h"
    using assms(1,2) e b by (simp add: plic_disable_def vol_ok_def shl_chk_def)
  have "enabled c ctx' i' ?h \<longleftrightarrow> enabled c ctx' i' h \<and> \<not> (ctx' = ctx \<and> i' = i)"
    if "unat ctx' < CONTEXT_COUNT" "unat i' < 1024" for ctx' i'
  proof (cases "ctx' = ctx \<and> i' = i")
    case True
    then show ?thesis using e(2) by (simp add: enabled_def bit_simps)
  next
    case False
    then have "enable_base c + 4 * (32 * ctx' + i' div 32) \<noteq> ?a \<or> unat i' mod 32 \<noteq> ?b"
      using enable_bit_inj [OF that assms(4,3), of "enable_base c"] e(2) by auto
    then show ?thesis using False by (auto simp: enabled_def bit_simps)
  qed
  then show ?thesis using run by blast
qed

text \<open>The priority register of an interrupt.\<close>

definition priority_reg :: "controller \<Rightarrow> nat \<Rightarrow> usize" where
  "priority_reg c i = priorities c + 4 * of_nat i"

lemma priority_reg_inj: "i < 1025 \<Longrightarrow> j < 1025 \<Longrightarrow> priority_reg c i = priority_reg c j \<longleftrightarrow> i = j"
proof
  assume "i < 1025" "j < 1025" "priority_reg c i = priority_reg c j"
  then have "of_nat (4 * i) = (of_nat (4 * j) :: usize)" by (simp add: priority_reg_def)
  then have "unat (of_nat (4 * i) :: usize) = unat (of_nat (4 * j) :: usize)" by simp
  then show "i = j" using \<open>i < 1025\<close> \<open>j < 1025\<close> by (simp add: unat_of_nat del: of_nat_mult)
qed simp

lemma init_priorities_eq:
  assumes "vol_ok va" "\<forall>i \<in> set is. i < 1024"
  shows "\<exists>h'. init_priorities va c is h = Some h' \<and> (\<forall>a. h' a = (if a \<in> priority_reg c ` set is then DEFAULT_PRIORITY else h a))"
  using assms(2)
proof (induction "is" arbitrary: h)
  case (Cons i "is")
  have "vol_index va (priorities c) 1024 (of_nat i) = Some (priority_reg c i)"
    using assms(1) Cons.prems by (simp add: vol_ok_def priority_reg_def unat_of_nat)
  moreover obtain h' where "init_priorities va c is (h(priority_reg c i := DEFAULT_PRIORITY)) = Some h'"
    "\<forall>a. h' a = (if a \<in> priority_reg c ` set is then DEFAULT_PRIORITY else (h(priority_reg c i := DEFAULT_PRIORITY)) a)"
    using Cons.IH Cons.prems by (metis list.set_intros(2))
  ultimately show ?case by (intro exI [of _ h']) auto
qed simp

text \<open>\<open>init\<close> gives the default priority to the interrupts 1 up to, but not including, \<open>max_interrupts\<close>, and writes nothing else. The
  last interrupt of a controller with \<open>max_interrupts\<close> sources, whose ids start at 1, keeps its priority.\<close>

theorem plic_init_correct:
  assumes "vol_ok va" "unat (max_interrupts c) \<le> 1024"
  shows "\<exists>h'. plic_init va c h = Some h' \<and> (\<forall>i \<in> {1..<unat (max_interrupts c)}. h' (priority_reg c i) = DEFAULT_PRIORITY) \<and>
    (\<forall>a. a \<notin> priority_reg c ` {1..<unat (max_interrupts c)} \<longrightarrow> h' a = h a) \<and>
    h' (priority_reg c (unat (max_interrupts c))) = h (priority_reg c (unat (max_interrupts c)))"
proof -
  let ?n = "unat (max_interrupts c)"
  obtain h' where h': "plic_init va c h = Some h'" "\<forall>a. h' a = (if a \<in> priority_reg c ` {1..<?n} then DEFAULT_PRIORITY else h a)"
    using init_priorities_eq [OF assms(1), of "[1..<?n]" c h] assms(2) by (auto simp: plic_init_def)
  have "priority_reg c ?n \<notin> priority_reg c ` {1..<?n}" using assms(2) priority_reg_inj [of ?n] by auto
  then show ?thesis using h' by auto
qed

section \<open>An example\<close>

definition demo_vol :: vol where
  "demo_vol =
     \<lparr>vol_index = (\<lambda>p n i. if unat i < n then Some (p + 4 * i) else None),
      series_index = (\<lambda>p n k i. if unat i < n then Some (p + of_nat k * i) else None),
      vol_add = (\<lambda>p n. p + 4 * of_nat n)\<rparr>"

lemma demo_vol_ok: "vol_ok demo_vol"
  by (simp add: vol_ok_def demo_vol_def)

definition demo_plic :: controller where
  "demo_plic = \<lparr>max_interrupts = 53, priorities = 0xC000000, enable_base = 0xC002000, threshold_claim = 0xC200000\<rparr>"

theorem plic_enable_correct_witness:
  "\<exists>h'. plic_enable demo_vol demo_plic 3 10 (\<lambda>_. 0) = Some h' \<and> enabled demo_plic 3 10 h' \<and> \<not> enabled demo_plic 1 10 h'"
proof -
  obtain h' where h': "plic_enable demo_vol demo_plic 3 10 (\<lambda>_. 0) = Some h'"
    "\<forall>ctx' i'. unat ctx' < CONTEXT_COUNT \<and> unat i' < 1024 \<longrightarrow>
       (enabled demo_plic ctx' i' h' \<longleftrightarrow> enabled demo_plic ctx' i' (\<lambda>_. 0) \<or> (ctx' = 3 \<and> i' = ucast (10 :: u32)))"
    using plic_enable_correct [OF demo_vol_ok, of 10 3 demo_plic "\<lambda>_. 0"] by (auto simp: CONTEXT_COUNT_def)
  have "enabled demo_plic 3 10 h'" using h'(2) [rule_format, of 3 10] by (simp add: CONTEXT_COUNT_def)
  moreover have "\<not> enabled demo_plic 1 10 h'" using h'(2) [rule_format, of 1 10] by (simp add: CONTEXT_COUNT_def enabled_def)
  ultimately show ?thesis using h'(1) by blast
qed

theorem plic_disable_correct_witness:
  "\<exists>h'. plic_disable demo_vol demo_plic 3 10 (\<lambda>_. - 1) = Some h' \<and> \<not> enabled demo_plic 3 10 h'"
proof -
  obtain h' where h': "plic_disable demo_vol demo_plic 3 10 (\<lambda>_. - 1) = Some h'"
    "\<forall>ctx' i'. unat ctx' < CONTEXT_COUNT \<and> unat i' < 1024 \<longrightarrow>
       (enabled demo_plic ctx' i' h' \<longleftrightarrow> enabled demo_plic ctx' i' (\<lambda>_. - 1) \<and> \<not> (ctx' = 3 \<and> i' = 10))"
    using plic_disable_correct [OF demo_vol_ok, of 10 3 demo_plic "\<lambda>_. - 1"] by (auto simp: CONTEXT_COUNT_def)
  then show ?thesis using h'(2) [rule_format, of 3 10] by (simp add: CONTEXT_COUNT_def)
qed

theorem plic_init_correct_witness:
  "\<exists>h'. plic_init demo_vol demo_plic (\<lambda>_. 0) = Some h' \<and> h' (priority_reg demo_plic 52) = 1 \<and> h' (priority_reg demo_plic 53) = 0"
  using plic_init_correct [OF demo_vol_ok, of demo_plic "\<lambda>_. 0"] by (force simp: demo_plic_def DEFAULT_PRIORITY_def)

end
