(* ===== verification/Boot.thy ===== *)
theory Boot
  imports Hart Satp Sbi Pmem_Init
begin

text \<open>
  \<open>crates/kernel/src/boot.rs\<close>, \<open>boot/reloc.rs\<close>, \<open>boot/harts.rs\<close> and \<open>symbols.rs\<close>: relocation, the mappings made before paging is
  enabled, the hand-over to the higher half and the first steps there. Addresses of linker symbols are a parameter.
\<close>

section \<open>Linker symbols\<close>

definition LINK_START :: usize where "LINK_START = 0x80200000"

record symbols =
  kernel_range :: "usize \<times> usize"
  text_range :: "usize \<times> usize"
  rodata_range :: "usize \<times> usize"
  data_range :: "usize \<times> usize"
  tdata_range :: "usize \<times> usize"
  bss_range :: "usize \<times> usize"
  stack_range :: "usize \<times> usize"
  rel_dyn_range :: "usize \<times> usize"

section \<open>Relocation\<close>

definition R_RISCV_RELATIVE :: usize where "R_RISCV_RELATIVE = 3"

text \<open>The entry at address \<open>p\<close>: \<open>offset\<close>, \<open>info\<close>, \<open>addend\<close>.\<close>

definition rela :: "(usize \<Rightarrow> u64) \<Rightarrow> usize \<Rightarrow> usize \<times> usize \<times> usize" where
  "rela h p = (h p, h (p + 8), h (p + 16))"

partial_function (option) relocate_loop :: "usize \<Rightarrow> usize \<Rightarrow> usize \<Rightarrow> usize \<Rightarrow> (usize \<Rightarrow> u64) \<Rightarrow> (u32 \<times> (usize \<Rightarrow> u64)) option" where
  "relocate_loop base current_offset start stop h =
     (if start = stop then Some (0, h)
      else (case rela h start of (offset, info, addend) \<Rightarrow>
        if info \<noteq> R_RISCV_RELATIVE then Some (1, h)
        else do { d \<leftarrow> sub_chk addend LINK_START;
                  relocate_loop base current_offset (start + 24) stop (h(current_offset + offset := base + d)) }))"

definition relocate :: "symbols \<Rightarrow> usize \<Rightarrow> (usize \<Rightarrow> u64) \<Rightarrow> (u32 \<times> (usize \<Rightarrow> u64)) option" where
  "relocate sy base h =
     (let current_offset = fst (kernel_range sy) - LINK_START
      in relocate_loop base current_offset (fst (rel_dyn_range sy)) (snd (rel_dyn_range sy)) h)"

section \<open>Mappings\<close>

text \<open>A loop that maps a page for every element and unwraps the result.\<close>

fun map_each :: "(usize \<Rightarrow> (usize \<times> usize) option) \<Rightarrow> page_size \<Rightarrow> u8 \<Rightarrow> usize list \<Rightarrow> page_table \<Rightarrow> 'a kernel_scheme \<Rightarrow> (page_table \<times> 'a kernel_scheme) option" where
  "map_each f sz flags [] pt s = Some (pt, s)"
| "map_each f sz flags (x # xs) pt s =
     do { (paddr, vaddr) \<leftarrow> f x;
          (r, pt1, s1) \<leftarrow> map_page mode_Sv48 s pt paddr vaddr sz flags;
          (case r of Err _ \<Rightarrow> None | Ok _ \<Rightarrow> map_each f sz flags xs pt1 s1) }"

definition alloc_kernel_stack :: "page_table \<Rightarrow> u64 \<Rightarrow> 'a kernel_scheme \<Rightarrow> ((usize \<times> usize) \<times> page_table \<times> 'a kernel_scheme) option" where
  "alloc_kernel_stack pt hart_id s =
     do { off \<leftarrow> mul_chk hart_id KERNEL_STACK_SIZE;
          start \<leftarrow> add_chk KERNEL_STACK_BASE off;
          order \<leftarrow> order_for_size KERNEL_STACK_SIZE;
          (r, s1) \<leftarrow> alloc_order s order;
          (case r of
             Err _ \<Rightarrow> None
           | Ok stack \<Rightarrow> do {
               (pt2, s2) \<leftarrow> map_each (\<lambda>off. do { v \<leftarrow> add_chk start off; Some (stack + off, v) }) Kilopage
                 (FLAG_READ OR FLAG_WRITE OR FLAG_ACCESSED OR FLAG_DIRTY) (step_by 0 KERNEL_STACK_SIZE PAGE_SIZE) pt s1;
               pe \<leftarrow> add_chk stack KERNEL_STACK_SIZE;
               ve \<leftarrow> add_chk start KERNEL_STACK_SIZE;
               Some ((pe, ve), pt2, s2) }) }"

definition map_phys_mem :: "region \<Rightarrow> page_table \<Rightarrow> 'a kernel_scheme \<Rightarrow> (page_table \<times> 'a kernel_scheme) option" where
  "map_phys_mem g pt s =
     do { stop \<leftarrow> reg_end g;
          map_each (\<lambda>page. do { v \<leftarrow> add_chk page KERNEL_PHYS_MEM_BASE; Some (page, v) }) Megapage
            (FLAG_READ OR FLAG_WRITE OR FLAG_ACCESSED OR FLAG_DIRTY) (step_by (reg_start g) stop (2 * MIB)) pt s }"

definition map_section :: "usize \<Rightarrow> usize \<times> usize \<Rightarrow> u8 \<Rightarrow> page_table \<Rightarrow> 'a kernel_scheme \<Rightarrow> (page_table \<times> 'a kernel_scheme) option" where
  "map_section base sec perm pt s =
     do { start \<leftarrow> sub_chk (fst sec) base;
          stop \<leftarrow> sub_chk (snd sec) base;
          map_each (\<lambda>off. do { phys \<leftarrow> add_chk base off; virt \<leftarrow> add_chk HIGHER_HALF_START off; Some (phys, virt) }) Kilopage
            (perm OR FLAG_ACCESSED OR FLAG_DIRTY) (step_by start stop PAGE_SIZE) pt s }"

fun map_sections :: "usize \<Rightarrow> ((usize \<times> usize) \<times> u8) list \<Rightarrow> page_table \<Rightarrow> 'a kernel_scheme \<Rightarrow> (page_table \<times> 'a kernel_scheme) option" where
  "map_sections base [] pt s = Some (pt, s)"
| "map_sections base ((sec, perm) # secs) pt s =
     do { (pt1, s1) \<leftarrow> map_section base sec perm pt s; map_sections base secs pt1 s1 }"

definition sections :: "symbols \<Rightarrow> ((usize \<times> usize) \<times> u8) list" where
  "sections sy =
     [(text_range sy, FLAG_READ OR FLAG_EXEC), (rodata_range sy, FLAG_READ), (data_range sy, FLAG_READ OR FLAG_WRITE),
      (tdata_range sy, FLAG_READ OR FLAG_WRITE), (bss_range sy, FLAG_READ OR FLAG_WRITE), (stack_range sy, FLAG_READ OR FLAG_WRITE)]"

text \<open>The conversion of the table to virtual addresses.\<close>

definition convert_table :: "page_table \<Rightarrow> page_table" where
  "convert_table me =
     (case into_raw_parts me of (ents, (ptr, len, cap)) \<Rightarrow>
        from_raw_parts (ents + KERNEL_PHYS_MEM_BASE) (ptr + KERNEL_PHYS_MEM_BASE) (subtables me) cap)"

section \<open>Before paging\<close>

text \<open>The bytes of the cells, least significant first, and the cells of a slice of bytes whose start and length are multiples of 8.\<close>

definition cell_byte :: "(usize \<Rightarrow> u64) \<Rightarrow> usize \<Rightarrow> u8" where
  "cell_byte h a = ucast (drop_bit (8 * unat (a mod 8)) (h (a - a mod 8)))"

definition le_word :: "bytes \<Rightarrow> u64" where
  "le_word bs = foldr (\<lambda>b w. ucast b OR push_bit 8 w) bs 0"

definition store_bytes :: "usize \<Rightarrow> bytes \<Rightarrow> (usize \<Rightarrow> u64) \<Rightarrow> usize \<Rightarrow> u64" where
  "store_bytes p bs h = (\<lambda>a. if a - p < of_nat (length bs) then le_word (take 8 (drop (unat (a - p)) bs)) else h a)"

text \<open>\<open>fdt.copy_to_slice\<close> into the \<open>size\<close> bytes at \<open>p\<close>.\<close>

definition copy_fdt :: "device_tree \<Rightarrow> usize \<Rightarrow> usize \<Rightarrow> 'a machine_scheme \<Rightarrow> (device_tree \<times> 'a machine_scheme) option" where
  "copy_fdt t p sz s =
     do { t' \<leftarrow> copy_to_slice t (read_bytes (cell_byte (mem s)) p (unat sz));
          Some (t', s\<lparr>mem := store_bytes p (buf t') (mem s)\<rparr>) }"

text \<open>\<open>PAGE_TABLE.lock()\<close> and \<open>get_or_insert_with\<close>.\<close>

definition lock_table :: "'a kernel_scheme \<Rightarrow> (page_table \<times> 'a kernel_scheme) option" where
  "lock_table s =
     (if root_locked s then None
      else (let s1 = s\<lparr>root_locked := True\<rparr> in
            case root_table s1 of Some t \<Rightarrow> Some (t, s1) | None \<Rightarrow> page_table_new s1))"

text \<open>What \<open>_before_main\<close> passes to the trampoline.\<close>

record handover =
  ho_hart_id :: usize
  ho_fdt :: usize
  ho_satp :: usize
  ho_stack :: usize
  ho_dst :: usize

text \<open>
  \<open>_before_main\<close>. The parameters are the symbols, the firmware, the bytes at the address of the device tree (which the code reads until it
  has made its copy), the address of the local variable \<open>fdt\<close> and that of \<open>rust_trampoline\<close>. The logger that is installed when the
  firmware offers a console has no state.
\<close>

definition before_main :: "symbols \<Rightarrow> 'w firmware \<Rightarrow> (usize \<Rightarrow> u8) \<Rightarrow> usize \<Rightarrow> usize \<Rightarrow> usize \<Rightarrow> usize \<Rightarrow> 'w \<times> 'a kernel_scheme \<Rightarrow>
    (handover \<times> 'w \<times> 'a kernel_scheme) option" where
  "before_main sy fw bm fdt_var trampoline hart_id fdt_ptr st =
     do { let (w, s) = st;
          fdt0 \<leftarrow> from_ptr bm fdt_ptr;
          (_, w1) \<leftarrow> probe_ext fw w 0x01;
          (r1, s1) \<leftarrow> pmem_init fdt0 (fst (kernel_range sy)) (snd (kernel_range sy)) s;
          _ \<leftarrow> (case r1 of Ok _ \<Rightarrow> Some () | Err _ \<Rightarrow> None);
          (pt0, s2) \<leftarrow> lock_table s1;
          sz \<leftarrow> total_size fdt0;
          fdt_order \<leftarrow> order_for_size (ucast sz);
          (r3, s3) \<leftarrow> alloc_order s2 fdt_order;
          new_fdt \<leftarrow> (case r3 of Ok p \<Rightarrow> Some p | Err _ \<Rightarrow> None);
          _ \<leftarrow> (if drop_bit 12 new_fdt = drop_bit 12 fdt_var then None else Some ());
          slice_len \<leftarrow> size_for_order fdt_order;
          (fdt, s4) \<leftarrow> copy_fdt fdt0 new_fdt slice_len s3;
          node \<leftarrow> dt_memory fdt;
          it \<leftarrow> node_regions fdt node;
          (g, _) \<leftarrow> regions_next it;
          phys_mem \<leftarrow> g;
          (pt1, s5) \<leftarrow> map_phys_mem phys_mem pt0 s4;
          let base = fst (kernel_range sy);
          (pt2, s6) \<leftarrow> map_sections base (sections sy) pt1 s5;
          ((_, virt_stack), pt3, s7) \<leftarrow> alloc_kernel_stack pt2 hart_id s6;
          off \<leftarrow> sub_chk trampoline base;
          virt_addr \<leftarrow> add_chk HIGHER_HALF_START off;
          let satp = pt_satp mode_Sv48 pt3;
          let s8 = s7\<lparr>root_table := Some (convert_table pt3), root_locked := False\<rparr>;
          let s9 = set_phymem_offset KERNEL_PHYS_MEM_BASE s8;
          (rc, h) \<leftarrow> relocate sy HIGHER_HALF_START (mem s9);
          _ \<leftarrow> (if rc = 0 then Some () else None);
          Some (\<lparr>ho_hart_id = hart_id, ho_fdt = new_fdt + KERNEL_PHYS_MEM_BASE, ho_satp = as_bits satp, ho_stack = virt_stack, ho_dst = virt_addr\<rparr>,
                w1, s9\<lparr>mem := h\<rparr>) }"

section \<open>Assembly\<close>

text \<open>
  The fences and the final jump are left out: after the write of \<open>satp\<close> the next fetch faults and continues at \<open>stvec\<close>.
\<close>

definition entry_trampoline :: "instr list" where
  "entry_trampoline = [Mv 2 13, Csrw Stvec 14, Csrw Satp 12]"

definition hart_entry :: "usize \<Rightarrow> usize \<Rightarrow> instr list" where
  "hart_entry gp rust_hart_entry =
     [Li 3 gp, Ld 5 0 11, Ld 6 8 11, Mv 2 6, Mv 11 6, Li 6 rust_hart_entry, Csrw Stvec 6]"

definition boot_prologue :: "symbols \<Rightarrow> usize \<Rightarrow> instr list" where
  "boot_prologue sy gp =
     [Li 3 gp, Csrw Sie 0, Csrci Sstatus 2, Li 2 (snd (stack_range sy)), Addi 2 2 (- 16), Sd 10 0 2, Sd 11 8 2,
      Li 10 (fst (kernel_range sy))]"

definition boot_epilogue :: "instr list" where
  "boot_epilogue = [Ld 10 0 2, Ld 11 8 2, Addi 2 2 16]"

text \<open>The loop at \<open>_zero_bss\<close> with the registers \<open>t0\<close> and \<open>t1\<close>.\<close>

partial_function (option) zero_bss :: "usize \<Rightarrow> usize \<Rightarrow> (usize \<Rightarrow> u64) \<Rightarrow> (usize \<times> (usize \<Rightarrow> u64)) option" where
  "zero_bss t0 t1 h = (if t1 \<le> t0 then Some (t0, h) else zero_bss (t0 + 8) t1 (h(t0 := 0)))"

text \<open>
  \<open>_boot\<close> up to the jump to \<open>_before_main\<close>; \<open>havoc\<close> is what the compiled code of \<open>relocate\<close> does to the hart besides its effect on memory
  and its result. A relocation that fails loops forever.
\<close>

definition boot :: "symbols \<Rightarrow> usize \<Rightarrow> (hart \<Rightarrow> hart) \<Rightarrow> hart \<Rightarrow> hart option" where
  "boot sy gp havoc s =
     do { let s1 = run (boot_prologue sy gp) s;
          (rc, h) \<leftarrow> relocate sy (xreg s1 10) (hmem s1);
          let s2 = wr 10 (ucast rc) (havoc (s1\<lparr>hmem := h\<rparr>));
          _ \<leftarrow> (if xreg s2 10 = 0 then Some () else None);
          (t0, h3) \<leftarrow> zero_bss (fst (bss_range sy)) (snd (bss_range sy)) (hmem s2);
          Some (run boot_epilogue (wr 6 (snd (bss_range sy)) (wr 5 t0 (s2\<lparr>hmem := h3\<rparr>)))) }"

section \<open>In the higher half\<close>

text \<open>\<open>rust_trampoline\<close> up to the call of \<open>main\<close>: the kernel and the registers of the hart.\<close>

definition rust_trampoline :: "symbols \<Rightarrow> (usize \<Rightarrow> u8) \<Rightarrow> usize \<Rightarrow> usize \<Rightarrow> usize \<Rightarrow> 'a pmem_scheme \<times> hart \<Rightarrow> ('a pmem_scheme \<times> hart) option" where
  "rust_trampoline sy bm trap_addr hart_id fdt_ptr st =
     do { let (s, hs) = st;
          fdt \<leftarrow> from_ptr bm fdt_ptr;
          (r1, s1, ptr) \<leftarrow> init_hart_context hart_id hart_id (fdt_ptr, of_nat (length (buf fdt))) s;
          _ \<leftarrow> (case r1 of Ok _ \<Rightarrow> Some () | Err _ \<Rightarrow> None);
          let hs1 = install_handler trap_addr (csr_write Sscratch ptr hs);
          (r2, s2) \<leftarrow> init_hart_local_storage (tdata_range sy) s1;
          tp \<leftarrow> (case r2 of Ok p \<Rightarrow> Some p | Err _ \<Rightarrow> None);
          Some (s2, wr 4 tp hs1) }"

end
