(* ===== verification/Boot_Reloc.thy ===== *)
theory Boot_Reloc
  imports Boot
begin

text \<open>
  The relocation of the kernel and its entry point \<open>_boot\<close>.
\<close>

section \<open>Relocation\<close>

fun rela_table :: "(usize \<Rightarrow> u64) \<Rightarrow> usize \<Rightarrow> (usize \<times> usize \<times> usize) list \<Rightarrow> bool" where
  "rela_table h p [] = True"
| "rela_table h p (e # es) \<longleftrightarrow> rela h p = e \<and> rela_table h (p + 24) es"

definition target :: "symbols \<Rightarrow> usize \<times> usize \<times> usize \<Rightarrow> usize" where
  "target sy e = fst (kernel_range sy) - LINK_START + fst e"

definition good_rela :: "usize \<times> usize \<times> usize \<Rightarrow> bool" where
  "good_rela e \<longleftrightarrow> fst (snd e) = R_RISCV_RELATIVE \<and> LINK_START \<le> snd (snd e)"

definition apply_rela :: "symbols \<Rightarrow> usize \<Rightarrow> (usize \<times> usize \<times> usize) list \<Rightarrow> (usize \<Rightarrow> u64) \<Rightarrow> usize \<Rightarrow> u64" where
  "apply_rela sy b es h = fold (\<lambda>e h. h(target sy e := b + (snd (snd e) - LINK_START))) es h"

text \<open>No relocation is applied to the table itself.\<close>

definition apart_from :: "symbols \<Rightarrow> usize \<Rightarrow> nat \<Rightarrow> (usize \<times> usize \<times> usize) list \<Rightarrow> bool" where
  "apart_from sy p n es \<longleftrightarrow> (\<forall>e \<in> set es. \<forall>j < 3 * n. target sy e \<noteq> p + 8 * of_nat j)"

lemma rela_table_upd: "(\<And>j. j < 3 * length es \<Longrightarrow> a \<noteq> p + 8 * of_nat j) \<Longrightarrow> rela_table (h(a := v)) p es \<longleftrightarrow> rela_table h p es"
proof (induction es arbitrary: p)
  case (Cons e es)
  have "rela (h(a := v)) p = rela h p"
    using Cons.prems [of 0] Cons.prems [of 1] Cons.prems [of 2] by (simp add: rela_def)
  moreover have "rela_table (h(a := v)) (p + 24) es \<longleftrightarrow> rela_table h (p + 24) es"
    using Cons.prems [of "_ + 3"] by (intro Cons.IH) (simp add: algebra_simps)
  ultimately show ?case by (simp only: rela_table.simps)
qed simp

lemma table_end:
  assumes "0 < n" "24 * n < 2 ^ 64"
  shows "(p :: usize) \<noteq> p + 24 * of_nat n"
proof
  assume "p = p + 24 * of_nat n"
  then have "unat (of_nat (24 * n) :: usize) = 0" by simp
  then show False using assms by (simp add: unat_of_nat del: of_nat_mult)
qed

lemma apart_shift:
  assumes "apart_from sy p (Suc n) es" "e \<in> set es" "j < 3 * n"
  shows "target sy e \<noteq> p + 24 + 8 * of_nat j"
proof -
  have "j + 3 < 3 * Suc n" using assms(3) by simp
  then have "target sy e \<noteq> p + 8 * of_nat (j + 3)" using assms(1,2) unfolding apart_from_def by blast
  then show ?thesis by (simp add: algebra_simps)
qed

lemma relocate_loop_good:
  assumes "rela_table h p (es @ fs)" "\<forall>e \<in> set es. good_rela e" "apart_from sy p (length (es @ fs)) es" "24 * length (es @ fs) < 2 ^ 64"
    "stop = p + 24 * of_nat (length (es @ fs))"
  shows "relocate_loop b (fst (kernel_range sy) - LINK_START) p stop h =
      relocate_loop b (fst (kernel_range sy) - LINK_START) (p + 24 * of_nat (length es)) stop (apply_rela sy b es h) \<and>
    rela_table (apply_rela sy b es h) (p + 24 * of_nat (length es)) fs"
  using assms
proof (induction es arbitrary: p h)
  case (Cons e es)
  obtain off info add where e: "e = (off, info, add)" by (metis surj_pair)
  let ?d = "fst (kernel_range sy) - LINK_START"
  let ?h = "h(?d + off := b + (add - LINK_START))"
  have g: "info = R_RISCV_RELATIVE" "sub_chk add LINK_START = Some (add - LINK_START)" "rela h p = (off, info, add)"
    using Cons.prems(1,2) by (simp_all add: e good_rela_def sub_chk_def)
  have ne: "p \<noteq> stop" unfolding Cons.prems(5) by (rule table_end [OF _ Cons.prems(4)]) simp
  have step: "relocate_loop b ?d p stop h = relocate_loop b ?d (p + 24) stop ?h"
    using ne g by (subst relocate_loop.simps) simp
  have tab: "rela_table ?h (p + 24) (es @ fs)"
  proof -
    have "?d + off \<noteq> p + 24 + 8 * of_nat j" if "j < 3 * length (es @ fs)" for j
      using apart_shift [of sy p "length (es @ fs)" "e # es" e j] Cons.prems(3) that by (simp add: e target_def)
    then show ?thesis using rela_table_upd [of "es @ fs" "?d + off" "p + 24" h] Cons.prems(1) by simp
  qed
  have ap: "apart_from sy (p + 24) (length (es @ fs)) es"
    using apart_shift [of sy p "length (es @ fs)" "e # es"] Cons.prems(3) unfolding apart_from_def [of sy "p + 24"] by simp
  have "24 * length (es @ fs) < 2 ^ 64" "stop = p + 24 + 24 * of_nat (length (es @ fs))" "\<forall>e \<in> set es. good_rela e"
    using Cons.prems(2,4,5) by (simp_all add: algebra_simps)
  note ih = Cons.IH [OF tab this(3) ap this(1,2)]
  have ap: "apply_rela sy b (e # es) h = apply_rela sy b es ?h" by (simp add: apply_rela_def e target_def)
  have ad: "p + 24 * of_nat (length (e # es)) = p + 24 + 24 * of_nat (length es)" by (simp add: algebra_simps)
  show ?case unfolding ap ad step by (rule ih)
qed (simp add: apply_rela_def)

lemma apply_rela_other: "a \<notin> target sy ` set es \<Longrightarrow> apply_rela sy b es h a = h a"
  unfolding apply_rela_def by (induction es arbitrary: h) auto

lemma apply_rela_at:
  assumes "distinct (map (target sy) es)" "e \<in> set es"
  shows "apply_rela sy b es h (target sy e) = b + (snd (snd e) - LINK_START)"
  using assms
proof (induction es arbitrary: h)
  case (Cons x es)
  show ?case
  proof (cases "e = x")
    case True
    then have "target sy e \<notin> target sy ` set es" using Cons.prems(1) by auto
    from apply_rela_other [OF this] show ?thesis using True by (simp add: apply_rela_def)
  next
    case False
    then show ?thesis using Cons unfolding apply_rela_def by simp
  qed
qed simp

text \<open>A relocation table in memory: where the symbols say, with supported entries that lie apart from their targets.\<close>

definition rela_ok :: "symbols \<Rightarrow> (usize \<times> usize \<times> usize) list \<Rightarrow> (usize \<Rightarrow> u64) \<Rightarrow> bool" where
  "rela_ok sy es h \<longleftrightarrow> (\<exists>p. rel_dyn_range sy = (p, p + 24 * of_nat (length es)) \<and> rela_table h p es \<and> apart_from sy p (length es) es) \<and>
     24 * length es < 2 ^ 64 \<and> distinct (map (target sy) es) \<and> (\<forall>e \<in> set es. good_rela e)"

lemma relocate_apply:
  assumes "rela_ok sy es h"
  shows "relocate sy b h = Some (0, apply_rela sy b es h)" "rela_ok sy es (apply_rela sy b es h)"
proof -
  obtain p where p: "rel_dyn_range sy = (p, p + 24 * of_nat (length es))" "rela_table h p es" "apart_from sy p (length es) es"
    "24 * length es < 2 ^ 64" "\<forall>e \<in> set es. good_rela e" using assms by (auto simp: rela_ok_def)
  let ?stop = "p + 24 * of_nat (length es)"
  have "relocate_loop b (fst (kernel_range sy) - LINK_START) p ?stop h =
      relocate_loop b (fst (kernel_range sy) - LINK_START) ?stop ?stop (apply_rela sy b es h)"
    using relocate_loop_good [of h p es "[]" sy ?stop b] p by simp
  also have "\<dots> = Some (0, apply_rela sy b es h)" by (subst relocate_loop.simps) simp
  finally show "relocate sy b h = Some (0, apply_rela sy b es h)" using p(1) by (simp add: relocate_def)
  have "rela_table (fold (\<lambda>e h. h(target sy e := b + (snd (snd e) - LINK_START))) fs h) p es" if "set fs \<subseteq> set es" for fs
    using that p(2)
  proof (induction fs arbitrary: h)
    case (Cons f fs)
    have t: "rela_table (h(target sy f := b + (snd (snd f) - LINK_START))) p es"
      using Cons.prems p(3) rela_table_upd [of es "target sy f" p h] by (simp add: apart_from_def)
    show ?case unfolding fold_simps by (rule Cons.IH [OF _ t]) (use Cons.prems(1) in simp)
  qed simp
  then have "rela_table (apply_rela sy b es h) p es" unfolding apply_rela_def by simp
  then show "rela_ok sy es (apply_rela sy b es h)" using assms p(1,3) by (auto simp: rela_ok_def)
qed

text \<open>C21: \<open>relocate\<close> returns 0 and stores, for every entry of a table of supported entries, the run-time address of the entry's symbol at the
  entry's place in the image, and nothing else.\<close>

theorem relocate_correct:
  assumes "rela_ok sy es h"
  shows "\<exists>h'. relocate sy b h = Some (0, h') \<and>
    (\<forall>(off, info, addend) \<in> set es. h' (fst (kernel_range sy) - LINK_START + off) = b + (addend - LINK_START)) \<and>
    (\<forall>a. a \<notin> target sy ` set es \<longrightarrow> h' a = h a)"
proof -
  have d: "distinct (map (target sy) es)" using assms by (simp add: rela_ok_def)
  have "apply_rela sy b es h (fst (kernel_range sy) - LINK_START + off) = b + (addend - LINK_START)" if "(off, info, addend) \<in> set es" for off info addend
    using apply_rela_at [OF d that, of b h] by (simp add: target_def)
  then show ?thesis using relocate_apply(1) [OF assms] apply_rela_other [of _ sy es b h] by auto
qed

text \<open>Relocating a second time, as the kernel does before it moves to the higher half, has the effect of a single relocation to the
  second base.\<close>

theorem relocate_twice:
  assumes "rela_ok sy es h"
  shows "\<exists>h1 h2. relocate sy b1 h = Some (0, h1) \<and> relocate sy b2 h1 = Some (0, h2) \<and> relocate sy b2 h = Some (0, h2)"
proof -
  have d: "distinct (map (target sy) es)" using assms by (simp add: rela_ok_def)
  have "apply_rela sy b2 es (apply_rela sy b1 es h) = apply_rela sy b2 es h"
  proof
    fix a
    show "apply_rela sy b2 es (apply_rela sy b1 es h) a = apply_rela sy b2 es h a"
      using apply_rela_at [OF d] apply_rela_other [of a sy es] by (cases "a \<in> target sy ` set es") auto
  qed
  then show ?thesis using relocate_apply [OF assms] relocate_apply(1) [OF relocate_apply(2) [OF assms]] by metis
qed

text \<open>At the first entry of another type \<open>relocate\<close> returns 1; the entries in front of it have been applied.\<close>

theorem relocate_unsupported:
  assumes "rel_dyn_range sy = (p, p + 24 * of_nat (length (es @ e # fs)))" "rela_table h p (es @ e # fs)" "24 * length (es @ e # fs) < 2 ^ 64"
    "apart_from sy p (length (es @ e # fs)) es" "\<forall>e \<in> set es. good_rela e" "fst (snd e) \<noteq> R_RISCV_RELATIVE"
  shows "relocate sy b h = Some (1, apply_rela sy b es h)"
proof -
  let ?d = "fst (kernel_range sy) - LINK_START" and ?q = "p + 24 * of_nat (length es)" and ?stop = "p + 24 * of_nat (length (es @ e # fs))"
  note g = relocate_loop_good [OF assms(2,5,4,3) refl, of b]
  have "?q \<noteq> ?q + 24 * of_nat (length (e # fs))" by (rule table_end) (use assms(3) in simp_all)
  moreover have "?q + 24 * of_nat (length (e # fs)) = ?stop" by (simp add: algebra_simps)
  moreover have "rela (apply_rela sy b es h) ?q = e" using g by simp
  ultimately have "relocate_loop b ?d ?q ?stop (apply_rela sy b es h) = Some (1, apply_rela sy b es h)"
    using assms(6) by (subst relocate_loop.simps) (auto split: prod.splits)
  then show ?thesis using g assms(1) by (simp add: relocate_def)
qed

section \<open>The entry point\<close>

definition words :: "usize \<Rightarrow> usize \<Rightarrow> usize set" where
  "words t0 t1 = {t0 + 8 * of_nat i |i. unat t0 + 8 * i < unat t1}"

lemma words_step:
  assumes "t0 < t1" "unat t1 + 8 \<le> 2 ^ 64"
  shows "words t0 t1 = insert t0 (words (t0 + 8) t1)" "unat (t0 + 8) = unat t0 + 8"
proof -
  show u: "unat (t0 + 8) = unat t0 + 8" using assms by (simp add: unat_add_lem [THEN iffD1] word_less_nat_alt)
  show "words t0 t1 = insert t0 (words (t0 + 8) t1)"
  proof (rule set_eqI)
    fix a
    have ex: "(\<exists>i. P i) \<longleftrightarrow> P 0 \<or> (\<exists>i. P (Suc i))" for P :: "nat \<Rightarrow> bool" by (metis not0_implies_Suc)
    have "a \<in> words t0 t1 \<longleftrightarrow> (\<exists>i. a = t0 + 8 * of_nat i \<and> unat t0 + 8 * i < unat t1)" by (simp add: words_def)
    also have "\<dots> \<longleftrightarrow> a = t0 \<or> (\<exists>i. a = t0 + 8 * of_nat (Suc i) \<and> unat t0 + 8 * Suc i < unat t1)"
      using assms(1) by (subst ex) (simp add: word_less_nat_alt)
    also have "\<dots> \<longleftrightarrow> a \<in> insert t0 (words (t0 + 8) t1)" using u by (simp add: words_def algebra_simps)
    finally show "a \<in> words t0 t1 \<longleftrightarrow> a \<in> insert t0 (words (t0 + 8) t1)" .
  qed
qed

lemma zero_bss_ok:
  assumes "unat t1 + 8 \<le> 2 ^ 64"
  shows "\<exists>t h'. zero_bss t0 t1 h = Some (t, h') \<and> (\<forall>a. h' a = (if a \<in> words t0 t1 then 0 else h a))"
proof (induction "unat t1 - unat t0" arbitrary: t0 h rule: less_induct)
  case less
  show ?case
  proof (cases "t1 \<le> t0")
    case True
    then have "words t0 t1 = {}" by (auto simp: words_def word_le_nat_alt)
    then show ?thesis using True by (subst zero_bss.simps) simp
  next
    case False
    then have lt: "t0 < t1" by simp
    note st = words_step [OF lt assms]
    have "unat t1 - unat (t0 + 8) < unat t1 - unat t0" using lt st(2) by (simp add: word_less_nat_alt)
    from less [OF this, of "h(t0 := 0)"] obtain t h' where t: "zero_bss (t0 + 8) t1 (h(t0 := 0)) = Some (t, h')"
      "\<forall>a. h' a = (if a \<in> words (t0 + 8) t1 then 0 else (h(t0 := 0)) a)" by blast
    have "zero_bss t0 t1 h = Some (t, h')" using False t(1) by (subst zero_bss.simps) simp
    then show ?thesis using t(2) st(1) by auto
  qed
qed

text \<open>C22: \<open>_boot\<close> reaches \<open>_before_main\<close> with the hart id and the device tree pointer in \<open>a0\<close> and \<open>a1\<close> as the firmware passed them, the stack
  pointer at the end of the boot stack, interrupts disabled, the image relocated to where it is loaded and the \<open>bss\<close> section zero.
  The compiled code of \<open>relocate\<close> is assumed to keep the stack pointer and the control registers and to write, besides the
  relocations, only to a set \<open>W\<close> of addresses that holds neither the saved arguments nor relocated cells.\<close>

theorem boot_correct:
  assumes "rela_ok sy es ((hmem s)(snd (stack_range sy) - 16 := xreg s 10, snd (stack_range sy) - 8 := xreg s 11))" "xreg s 0 = 0"
    "{snd (stack_range sy) - 16, snd (stack_range sy) - 8} \<inter> (W \<union> target sy ` set es \<union> words (fst (bss_range sy)) (snd (bss_range sy))) = {}"
    "unat (snd (bss_range sy)) + 8 \<le> 2 ^ 64"
    "\<And>t. xreg (havoc t) 2 = xreg t 2" "\<And>t. csrs (havoc t) = csrs t" "\<And>t a. a \<notin> W \<Longrightarrow> hmem (havoc t) a = hmem t a"
  shows "\<exists>s'. boot sy gp havoc s = Some s' \<and> xreg s' 10 = xreg s 10 \<and> xreg s' 11 = xreg s 11 \<and> xreg s' 2 = snd (stack_range sy) \<and>
    csrs s' Sie = 0 \<and> \<not> bit (csrs s' Sstatus) 1 \<and> (\<forall>a \<in> words (fst (bss_range sy)) (snd (bss_range sy)). hmem s' a = 0) \<and>
    (\<forall>e \<in> set es. target sy e \<notin> W \<union> words (fst (bss_range sy)) (snd (bss_range sy)) \<longrightarrow>
       hmem s' (target sy e) = fst (kernel_range sy) + (snd (snd e) - LINK_START))"
proof -
  let ?sp = "snd (stack_range sy)"
  let ?h = "(hmem s)(?sp - 16 := xreg s 10, ?sp - 8 := xreg s 11)" and ?bss = "words (fst (bss_range sy)) (snd (bss_range sy))"
  define s1 where "s1 = run (boot_prologue sy gp) s"
  have s1: "hmem s1 = ?h" "xreg s1 2 = ?sp - 16" "xreg s1 10 = fst (kernel_range sy)" "csrs s1 Sie = 0" "\<not> bit (csrs s1 Sstatus) 1"
    using assms(2) by (simp_all add: s1_def boot_prologue_def run_Cons wr_def wcsr_def addr_def bit_simps)
  let ?r = "apply_rela sy (fst (kernel_range sy)) es ?h"
  have rel: "relocate sy (xreg s1 10) (hmem s1) = Some (0, ?r)" using relocate_apply(1) [OF assms(1)] s1(1,3) by simp
  define s2 where "s2 = wr 10 0 (havoc (s1\<lparr>hmem := ?r\<rparr>))"
  have s2: "xreg s2 10 = 0" "xreg s2 2 = ?sp - 16" "csrs s2 = csrs s1" "\<And>a. a \<notin> W \<Longrightarrow> hmem s2 a = ?r a"
    using assms(5-7) s1(2) by (simp_all add: s2_def wr_def)
  obtain t0 h3 where z: "zero_bss (fst (bss_range sy)) (snd (bss_range sy)) (hmem s2) = Some (t0, h3)"
    "\<forall>a. h3 a = (if a \<in> ?bss then 0 else hmem s2 a)" using zero_bss_ok [OF assms(4)] by blast
  define s3 where "s3 = run boot_epilogue (wr 6 (snd (bss_range sy)) (wr 5 t0 (s2\<lparr>hmem := h3\<rparr>)))"
  have "boot sy gp havoc s = Some s3"
    using rel z(1) s2(1) unfolding boot_def s1_def [symmetric] s2_def s3_def Let_def by simp
  moreover have arg: "h3 (?sp - 16) = xreg s 10" "h3 (?sp - 8) = xreg s 11"
    using z(2) s2(4) assms(3) apply_rela_other [of _ sy es "fst (kernel_range sy)" ?h] by auto
  have "xreg s3 10 = xreg s 10" "xreg s3 11 = xreg s 11" "xreg s3 2 = ?sp" "csrs s3 = csrs s1" "hmem s3 = h3"
    using arg s2(2,3) by (simp_all add: s3_def boot_epilogue_def run_Cons wr_def addr_def)
  moreover have "h3 (target sy e) = fst (kernel_range sy) + (snd (snd e) - LINK_START)" if "e \<in> set es" "target sy e \<notin> W \<union> ?bss" for e
    using that z(2) s2(4) apply_rela_at [of sy es e] assms(1) by (simp add: rela_ok_def)
  ultimately show ?thesis using s1(4,5) z(2) by (intro exI [of _ s3]) auto
qed

section \<open>An example\<close>

text \<open>An image that is loaded 2 MiB above its link address, with two relocations.\<close>

definition demo_symbols :: symbols where
  "demo_symbols =
     \<lparr>kernel_range = (0x80400000, 0x8040C000), text_range = (0x80400000, 0x80404000), rodata_range = (0x80404000, 0x80405000),
      data_range = (0x80405000, 0x80407000), tdata_range = (0x80407000, 0x80408000), bss_range = (0x80409000, 0x8040A000),
      stack_range = (0x8040A000, 0x8040C000), rel_dyn_range = (0x80408000, 0x80408030)\<rparr>"

definition demo_relas :: "(usize \<times> usize \<times> usize) list" where
  "demo_relas = [(0x80206000, 3, 0x80201000), (0x80206008, 3, 0x80202000)]"

definition demo_image :: "usize \<Rightarrow> u64" where
  "demo_image = (\<lambda>_. 0)(0x80408000 := 0x80206000, 0x80408008 := 3, 0x80408010 := 0x80201000,
     0x80408018 := 0x80206008, 0x80408020 := 3, 0x80408028 := 0x80202000)"

lemma demo_targets: "target demo_symbols ` set demo_relas = {0x80406000, 0x80406008}"
  by (simp add: target_def demo_symbols_def demo_relas_def LINK_START_def)

lemma demo_apart: "apart_from demo_symbols 0x80408000 2 demo_relas"
proof -
  have "a \<noteq> 0x80408000 + 8 * of_nat j" if "j < 6" "a \<in> {0x80406000, 0x80406008}" for a :: usize and j
  proof -
    have "unat (0x80408000 + 8 * of_nat j :: usize) = 0x80408000 + 8 * j"
      using that(1) by (simp add: unat_add_lem [THEN iffD1] unat_mult_lem [THEN iffD1] unat_of_nat)
    moreover have "unat a < 0x80408000" using that(2) by auto
    ultimately show ?thesis by auto
  qed
  moreover have "target demo_symbols e \<in> {0x80406000, 0x80406008}" if "e \<in> set demo_relas" for e using demo_targets that by blast
  ultimately show ?thesis unfolding apart_from_def by auto
qed

lemma demo_rela_ok:
  assumes "rela_table h 0x80408000 demo_relas"
  shows "rela_ok demo_symbols demo_relas h"
  unfolding rela_ok_def
proof (intro conjI exI [of _ "0x80408000"])
  show "rel_dyn_range demo_symbols = (0x80408000, 0x80408000 + 24 * of_nat (length demo_relas))" by (simp add: demo_symbols_def demo_relas_def)
  show "rela_table h 0x80408000 demo_relas" by (rule assms)
  show "apart_from demo_symbols 0x80408000 (length demo_relas) demo_relas" using demo_apart by (simp add: demo_relas_def numeral_2_eq_2)
  show "distinct (map (target demo_symbols) demo_relas)" by (simp add: demo_relas_def target_def)
  show "\<forall>e \<in> set demo_relas. good_rela e" by (simp add: demo_relas_def good_rela_def R_RISCV_RELATIVE_def LINK_START_def)
qed (simp add: demo_relas_def)

lemma demo_table: "rela_table demo_image 0x80408000 demo_relas"
  by (simp add: demo_relas_def demo_image_def rela_def)

theorem relocate_correct_witness:
  "\<exists>h'. relocate demo_symbols 0x80400000 demo_image = Some (0, h') \<and> h' 0x80406000 = 0x80401000 \<and> h' 0x80406008 = 0x80402000"
  using relocate_correct [OF demo_rela_ok [OF demo_table], of "0x80400000"]
  by (auto simp: demo_relas_def demo_symbols_def LINK_START_def)

theorem relocate_twice_witness:
  "\<exists>h1 h2. relocate demo_symbols 0x80400000 demo_image = Some (0, h1) \<and> relocate demo_symbols 0x400000000000 h1 = Some (0, h2) \<and>
    relocate demo_symbols 0x400000000000 demo_image = Some (0, h2)"
  by (rule relocate_twice [OF demo_rela_ok [OF demo_table]])

theorem relocate_unsupported_witness:
  "relocate demo_symbols 0x80400000 (demo_image(0x80408020 := 2)) = Some (1, apply_rela demo_symbols 0x80400000 [(0x80206000, 3, 0x80201000)] (demo_image(0x80408020 := 2)))"
proof (rule relocate_unsupported [of _ "0x80408000" _ "(0x80206008, 2, 0x80202000)" "[]"])
  show "apart_from demo_symbols 0x80408000 (length ([(0x80206000, 3, 0x80201000)] @ [(0x80206008, 2, 0x80202000)])) [(0x80206000, 3, 0x80201000)]"
    using demo_apart by (simp add: apart_from_def demo_relas_def numeral_2_eq_2)
qed (simp_all add: demo_symbols_def demo_image_def rela_def good_rela_def R_RISCV_RELATIVE_def LINK_START_def)

lemma words_range:
  assumes "a \<in> words t0 t1"
  shows "unat t0 \<le> unat a \<and> unat a < unat t1"
proof -
  obtain i where i: "a = t0 + 8 * of_nat i" "unat t0 + 8 * i < unat t1" using assms by (auto simp: words_def)
  have lt: "unat t0 + 8 * i < 2 ^ 64" using i(2) unat_less_2p [of t1] by simp
  then have "unat (of_nat (8 * i) :: usize) = 8 * i" by (simp add: unat_of_nat del: of_nat_mult)
  then have "unat (t0 + of_nat (8 * i)) = unat t0 + 8 * i" using lt by (subst unat_add_lem [THEN iffD1]) (simp_all del: of_nat_mult)
  then show ?thesis using i by simp
qed

definition demo_boot_hart :: hart where
  "demo_boot_hart = \<lparr>xreg = (\<lambda>_. 0)(10 := 1, 11 := 0x82200000), freg = (\<lambda>_. 0), fcsr = 0, csrs = (\<lambda>_. 2), hmem = demo_image, hpc = 0x80400000\<rparr>"

theorem boot_correct_witness:
  "\<exists>s'. boot demo_symbols 0x80405800 (\<lambda>t. t\<lparr>xreg := (xreg t)(5 := 7)\<rparr>) demo_boot_hart = Some s' \<and> xreg s' 10 = 1 \<and> xreg s' 11 = 0x82200000 \<and>
    xreg s' 2 = 0x8040C000 \<and> \<not> bit (csrs s' Sstatus) 1"
proof -
  let ?h = "(hmem demo_boot_hart)(snd (stack_range demo_symbols) - 16 := xreg demo_boot_hart 10, snd (stack_range demo_symbols) - 8 := xreg demo_boot_hart 11)"
  have "rela_table ?h 0x80408000 demo_relas" by (simp add: demo_relas_def demo_image_def rela_def demo_boot_hart_def demo_symbols_def)
  then have "rela_ok demo_symbols demo_relas ?h" by (rule demo_rela_ok)
  moreover have "{snd (stack_range demo_symbols) - 16, snd (stack_range demo_symbols) - 8} \<inter>
      ({} \<union> target demo_symbols ` set demo_relas \<union> words (fst (bss_range demo_symbols)) (snd (bss_range demo_symbols))) = {}"
    unfolding demo_targets by (auto simp: demo_symbols_def dest: words_range)
  moreover have "unat (snd (bss_range demo_symbols)) + 8 \<le> 2 ^ 64" by (simp add: demo_symbols_def)
  ultimately show ?thesis
    using boot_correct [of demo_symbols demo_relas demo_boot_hart "{}" "\<lambda>t. t\<lparr>xreg := (xreg t)(5 := 7)\<rparr>" "0x80405800"]
    by (auto simp: demo_boot_hart_def demo_symbols_def)
qed

end
