(* ===== verification/Boot_Map.thy ===== *)
theory Boot_Map
  imports Boot
begin

text \<open>
  The mappings that the kernel makes before it enables paging: a section of the image is mapped page by page to the same offset in the
  higher half. At the end, what happens when the vector of subtables has to grow while the lock of the page table is held.
\<close>

section \<open>Loops of mappings\<close>

definition image_at :: "page_size \<Rightarrow> u8 \<Rightarrow> (usize \<Rightarrow> usize) \<Rightarrow> (usize \<Rightarrow> usize) \<Rightarrow> usize list \<Rightarrow> usize \<Rightarrow> (usize \<times> page_size \<times> u8) option" where
  "image_at sz g p v xs w = map_option (\<lambda>x. (p x + (w - v x), sz, g)) (find (\<lambda>x. in_page sz (v x) w) xs)"

lemma image_at_first:
  assumes "distinct (x # xs)" "\<forall>x' \<in> set (x # xs). \<forall>y \<in> set (x # xs). in_page sz (v x') (v y) \<longrightarrow> x' = y" "in_page sz (v x) w"
  shows "image_at sz g p v xs w = None"
proof -
  have "\<not> in_page sz (v y) w" if "y \<in> set xs" for y
  proof
    assume "in_page sz (v y) w"
    then have "in_page sz (v x) (v y) \<or> in_page sz (v y) (v x)" using assms(3) by (auto simp: in_page_def)
    then show False using that assms(1,2) by auto
  qed
  then show ?thesis by (simp add: image_at_def find_None_iff)
qed

lemma map_each_ok:
  fixes s :: "'a kernel_scheme"
  assumes "paging_inv mode_Sv48 s pt fl" "sz \<noteq> Terapage" "flags_ok g" "g \<noteq> 0"
    "length (subtables pt) + 3 * length xs \<le> sub_cap pt" "4096 * 3 * length xs < card (free_bytes fl)"
    "\<forall>x \<in> set xs. f x = Some (p x, v x) \<and> v x < MAX_ADDRESS mode_Sv48 \<and> is_aligned sz (p x) \<and> is_aligned sz (v x)"
    "distinct xs" "\<forall>x \<in> set xs. \<forall>y \<in> set xs. in_page sz (v x) (v y) \<longrightarrow> x = y"
    "\<forall>x \<in> set xs. translate mode_Sv48 s pt (v x) = Some None"
  shows "\<exists>pt' s' fl'. map_each f sz g xs pt s = Some (pt', s') \<and> paging_inv mode_Sv48 s' pt' fl' \<and>
    (\<forall>w\<le>MAX_ADDRESS mode_Sv48. translate mode_Sv48 s' pt' w =
      (case image_at sz g p v xs w of Some r \<Rightarrow> Some (Some r) | None \<Rightarrow> translate mode_Sv48 s pt w))"
  using assms(1,5-10)
proof (induction xs arbitrary: s pt fl)
  case Nil
  then show ?case by (auto simp: image_at_def)
next
  case (Cons x xs)
  have m: "mode_ok mode_Sv48" by (simp add: mode_ok_def)
  have x: "f x = Some (p x, v x)" "v x < MAX_ADDRESS mode_Sv48" "is_aligned sz (p x)" "is_aligned sz (v x)" using Cons.prems(4) by auto
  have room: "length (subtables pt) + 3 \<le> sub_cap pt" using Cons.prems(2) by simp
  have unx: "translate mode_Sv48 s pt (v x) = Some None" and memx: "4096 * 3 < card (free_bytes fl)" using Cons.prems(3,7) by auto
  obtain pt1 s1 fl1 where r: "map_page mode_Sv48 s pt (p x) (v x) sz g = Some (Ok (), pt1, s1)" "paging_inv mode_Sv48 s1 pt1 fl1"
    "accounts mode_Sv48 s pt fl s1 pt1 fl1" "\<And>w. w\<le>MAX_ADDRESS mode_Sv48 \<Longrightarrow> translate mode_Sv48 s1 pt1 w =
       (if in_page sz (v x) w then Some (Some (p x + (w - v x), sz, g)) else translate mode_Sv48 s pt w)"
    using map_page_room [OF Cons.prems(1) m assms(2-4) room x(2-4) unx memx] by metis
  have mem: "length (subtables pt1) + 3 * length xs \<le> sub_cap pt1" "4096 * 3 * length xs < card (free_bytes fl1)"
    using r(3) Cons.prems(2,3) unfolding accounts_def by auto
  have "translate mode_Sv48 s1 pt1 (v y) = Some None" if "y \<in> set xs" for y
  proof -
    have "\<not> in_page sz (v x) (v y)" using that Cons.prems(5,6) by auto
    moreover have "v y \<le> MAX_ADDRESS mode_Sv48" using that Cons.prems(4) by (simp add: less_imp_le)
    ultimately show ?thesis using r(4) that Cons.prems(7) by simp
  qed
  then obtain pt' s' fl' where ih: "map_each f sz g xs pt1 s1 = Some (pt', s')" "paging_inv mode_Sv48 s' pt' fl'"
    "\<forall>w\<le>MAX_ADDRESS mode_Sv48. translate mode_Sv48 s' pt' w =
      (case image_at sz g p v xs w of Some r \<Rightarrow> Some (Some r) | None \<Rightarrow> translate mode_Sv48 s1 pt1 w)"
    using Cons.IH [OF r(2) mem] Cons.prems(4-6) by auto
  note image_at_first [OF Cons.prems(5,6)]
  then have "translate mode_Sv48 s' pt' w = (case image_at sz g p v (x # xs) w of Some r \<Rightarrow> Some (Some r) | None \<Rightarrow> translate mode_Sv48 s pt w)"
    if "w \<le> MAX_ADDRESS mode_Sv48" for w
    using ih(3) r(4) that by (auto simp: image_at_def split: option.splits)
  then show ?case using ih(1,2) r(1) x(1) by auto
qed

section \<open>A section of the image\<close>

lemma set_step_by:
  assumes "unat start + 4096 * n = unat stop"
  shows "set (step_by start stop PAGE_SIZE) = (\<lambda>i. start + of_nat i * 4096) ` {..<n}" "distinct (step_by start stop PAGE_SIZE)"
    "length (step_by start stop PAGE_SIZE) = n" "i < n \<Longrightarrow> unat (start + of_nat i * 4096) = unat start + 4096 * i"
proof -
  have lt: "unat start + 4096 * n < 2 ^ 64" using assms unat_less_2p [of stop] by simp
  show u: "unat (start + of_nat i * 4096) = unat start + 4096 * i" if "i < n" for i
  proof -
    have "unat (of_nat (4096 * i) :: usize) = 4096 * i" using lt that by (simp add: unat_of_nat del: of_nat_mult)
    then have "unat (start + of_nat (4096 * i)) = unat start + 4096 * i" using lt that by (subst unat_add_lem [THEN iffD1]) (simp_all del: of_nat_mult)
    then show ?thesis by (simp add: mult.commute)
  qed
  have len: "(unat stop - unat start + unat PAGE_SIZE - 1) div unat PAGE_SIZE = n" using assms [symmetric] by simp
  have eq: "step_by start stop PAGE_SIZE = map (\<lambda>i. start + of_nat i * 4096) [0..<n]"
    unfolding step_by_def len by (simp add: PAGE_SIZE_def)
  show "set (step_by start stop PAGE_SIZE) = (\<lambda>i. start + of_nat i * 4096) ` {..<n}" "length (step_by start stop PAGE_SIZE) = n"
    unfolding eq by (auto simp: lessThan_atLeast0)
  have "i = j" if "i < n" "j < n" "start + of_nat i * 4096 = start + of_nat j * 4096" for i j
  proof -
    have "unat start + 4096 * i = unat start + 4096 * j" using u that by metis
    then show ?thesis by simp
  qed
  then have "inj_on (\<lambda>i. start + of_nat i * 4096) (set [0..<n])" by (intro inj_onI) auto
  then show "distinct (step_by start stop PAGE_SIZE)" unfolding eq distinct_map by simp
qed

lemma image_at_shift:
  assumes "\<And>x. p x = b + x" "\<And>x. v x = c + x"
  shows "image_at sz g p v xs w = (if \<exists>x \<in> set xs. in_page sz (v x) w then Some (b + (w - c), sz, g) else None)"
proof (cases "find (\<lambda>x. in_page sz (v x) w) xs")
  case None
  then show ?thesis by (auto simp: image_at_def find_None_iff)
next
  case (Some x)
  then show ?thesis using assms by (auto simp: image_at_def find_Some_iff)
qed

lemma unat_HIGHER_HALF_START [simp]: "unat HIGHER_HALF_START = 2 ^ 46"
  by (simp add: HIGHER_HALF_START_def)

text \<open>The pages between the offsets \<open>4096 * k\<close> and \<open>4096 * (k + n)\<close> of a range of addresses that starts at \<open>c\<close>.\<close>

lemma range_page:
  assumes "unat start = 4096 * k" "unat stop = 4096 * (k + n)" "unat c + 4096 * (k + n) \<le> 2 ^ 48" "x \<in> set (step_by start stop PAGE_SIZE)"
  obtains i where "i < n" "unat x = 4096 * (k + i)" "unat (c + x) = unat c + 4096 * (k + i)"
proof -
  have "unat start + 4096 * n = unat stop" using assms by simp
  note st = set_step_by [OF this]
  have "x \<in> (\<lambda>i. start + of_nat i * 4096) ` {..<n}" using assms(4) unfolding st(1) .
  then obtain i where i: "i < n" "x = start + of_nat i * 4096" by blast
  have ux: "unat x = 4096 * (k + i)" unfolding i(2) st(4) [OF i(1)] assms(1) by (rule distrib_left [symmetric])
  have "unat c + unat x < 2 ^ 48" using ux i(1) assms(3) by simp
  then have "unat (c + x) = unat c + unat x" by (subst unat_add_lem [THEN iffD1]) simp_all
  then show ?thesis using that i(1) ux by simp
qed

lemma range_cover:
  assumes "unat start = 4096 * k" "unat stop = 4096 * (k + n)" "unat c + 4096 * (k + n) \<le> 2 ^ 48"
  shows "(\<exists>x \<in> set (step_by start stop PAGE_SIZE). in_page Kilopage (c + x) w) \<longleftrightarrow> c + start \<le> w \<and> w < c + stop"
proof -
  have "unat c + unat start < 2 ^ 64" "unat c + unat stop < 2 ^ 64" using assms by simp_all
  then have "unat (c + start) = unat c + 4096 * k" "unat (c + stop) = unat c + 4096 * (k + n)"
    unfolding assms(1,2) [symmetric] by (simp_all add: unat_add_lem [THEN iffD1])
  then have r: "c + start \<le> w \<and> w < c + stop \<longleftrightarrow> unat c + 4096 * k \<le> unat w \<and> unat w < unat c + 4096 * (k + n)"
    by (simp add: word_le_nat_alt word_less_nat_alt)
  show ?thesis
    unfolding r
  proof
    assume "\<exists>x \<in> set (step_by start stop PAGE_SIZE). in_page Kilopage (c + x) w"
    then obtain x where x: "x \<in> set (step_by start stop PAGE_SIZE)" "in_page Kilopage (c + x) w" by blast
    show "unat c + 4096 * k \<le> unat w \<and> unat w < unat c + 4096 * (k + n)"
      by (rule range_page [OF assms x(1)]) (use x(2) in \<open>simp add: in_page_def KIB_def\<close>)
  next
    assume w: "unat c + 4096 * k \<le> unat w \<and> unat w < unat c + 4096 * (k + n)"
    define i where "i = (unat w - (unat c + 4096 * k)) div 4096"
    have i: "i < n" "unat c + 4096 * (k + i) \<le> unat w" "unat w < unat c + 4096 * (k + i) + 4096" unfolding i_def using w by auto
    let ?x = "start + of_nat i * 4096"
    have "unat start + 4096 * n = unat stop" using assms by simp
    note st = set_step_by [OF this]
    have x: "?x \<in> set (step_by start stop PAGE_SIZE)" using st(1) i(1) by blast
    have ux: "unat ?x = 4096 * (k + i)" unfolding st(4) [OF i(1)] assms(1) by (rule distrib_left [symmetric])
    have "in_page Kilopage (c + ?x) w"
      by (rule range_page [OF assms x]) (use i(2,3) ux in \<open>simp add: in_page_def KIB_def\<close>)
    then show "\<exists>x \<in> set (step_by start stop PAGE_SIZE). in_page Kilopage (c + x) w" using x by blast
  qed
qed

lemma range_apart:
  assumes "unat start = 4096 * k" "unat stop = 4096 * (k + n)" "unat c + 4096 * (k + n) \<le> 2 ^ 48"
  shows "\<forall>x \<in> set (step_by start stop PAGE_SIZE). \<forall>y \<in> set (step_by start stop PAGE_SIZE). in_page Kilopage (c + x) (c + y) \<longrightarrow> x = y"
proof (intro ballI impI)
  fix x y assume xy: "x \<in> set (step_by start stop PAGE_SIZE)" "y \<in> set (step_by start stop PAGE_SIZE)" "in_page Kilopage (c + x) (c + y)"
  obtain i where i: "unat x = 4096 * (k + i)" "unat (c + x) = unat c + 4096 * (k + i)" by (rule range_page [OF assms xy(1)])
  obtain j where j: "unat y = 4096 * (k + j)" "unat (c + y) = unat c + 4096 * (k + j)" by (rule range_page [OF assms xy(2)])
  have "i = j" using xy(3) unfolding in_page_def i(2) j(2) by (simp add: KIB_def)
  then show "x = y" using i(1) j(1) by (simp add: word_unat_eq_iff)
qed

lemma range_pages_ok:
  assumes "unat start = 4096 * k" "unat stop = 4096 * (k + n)" "unat c + 4096 * (k + n) \<le> 2 ^ 48" "4096 dvd unat c" "4096 dvd unat b"
    "unat b + 4096 * (k + n) \<le> 2 ^ 64" "x \<in> set (step_by start stop PAGE_SIZE)"
  shows "add_chk b x = Some (b + x) \<and> add_chk c x = Some (c + x) \<and> c + x < MAX_ADDRESS mode_Sv48 \<and>
    is_aligned Kilopage (b + x) \<and> is_aligned Kilopage (c + x)"
proof (rule range_page [OF assms(1-3,7)])
  fix i assume i: "i < n" "unat x = 4096 * (k + i)" "unat (c + x) = unat c + 4096 * (k + i)"
  have fits: "unat b + unat x < 2 ^ 64" "unat c + unat x + 4096 \<le> 2 ^ 48" using i(1,2) assms(3,6) by simp_all
  have "unat (b + x) = unat b + unat x" using fits(1) by (subst unat_add_lem [THEN iffD1]) simp_all
  then have "is_aligned Kilopage (b + x)" "is_aligned Kilopage (c + x)" using i(2,3) assms(4,5) by (simp_all add: is_aligned_iff)
  moreover have "c + x < MAX_ADDRESS mode_Sv48" using i fits(2) by (simp add: word_less_nat_alt mode_Sv48_def)
  ultimately show ?thesis using fits by (simp add: add_chk_def)
qed

lemma boot_flags:
  assumes "flags_ok perm"
  shows "flags_ok (perm OR FLAG_ACCESSED OR FLAG_DIRTY)" "perm OR FLAG_ACCESSED OR FLAG_DIRTY \<noteq> 0"
proof -
  show "flags_ok (perm OR FLAG_ACCESSED OR FLAG_DIRTY)" using assms by (simp add: flags_ok_def bit_or_iff FLAG_ACCESSED_def FLAG_DIRTY_def)
  have "bit (perm OR FLAG_ACCESSED OR FLAG_DIRTY) 6" by (simp add: bit_or_iff FLAG_ACCESSED_def FLAG_DIRTY_def)
  then show "perm OR FLAG_ACCESSED OR FLAG_DIRTY \<noteq> 0" by auto
qed

text \<open>C20: With room in the vector of subtables and enough free memory, \<open>map_section\<close> maps a section of whole pages, which was not mapped
  before, to the same offset in the higher half with the given permissions, and changes no other translation.\<close>

theorem map_section_correct:
  fixes s :: "'a kernel_scheme"
  assumes "paging_inv mode_Sv48 s pt fl" "flags_ok perm" "4096 dvd unat base" "unat a = unat base + 4096 * k" "unat e = unat a + 4096 * n" "k + n \<le> 2 ^ 34"
    "length (subtables pt) + 3 * n \<le> sub_cap pt" "4096 * 3 * n < card (free_bytes fl)"
    "\<And>w. HIGHER_HALF_START + (a - base) \<le> w \<Longrightarrow> w < HIGHER_HALF_START + (e - base) \<Longrightarrow> translate mode_Sv48 s pt w = Some None"
  shows "\<exists>pt' s' fl'. map_section base (a, e) perm pt s = Some (pt', s') \<and> paging_inv mode_Sv48 s' pt' fl' \<and>
    (\<forall>w\<le>MAX_ADDRESS mode_Sv48. translate mode_Sv48 s' pt' w =
      (if HIGHER_HALF_START + (a - base) \<le> w \<and> w < HIGHER_HALF_START + (e - base)
       then Some (Some (base + (w - HIGHER_HALF_START), Kilopage, perm OR FLAG_ACCESSED OR FLAG_DIRTY)) else translate mode_Sv48 s pt w))"
proof -
  let ?start = "a - base" and ?stop = "e - base" and ?HH = HIGHER_HALF_START
  let ?xs = "step_by ?start ?stop PAGE_SIZE" and ?p = "\<lambda>x. base + x" and ?v = "\<lambda>x. HIGHER_HALF_START + x"
  let ?f = "\<lambda>off. do { phys \<leftarrow> add_chk base off; virt \<leftarrow> add_chk ?HH off; Some (phys, virt) }"
  have u: "unat ?start = 4096 * k" "unat ?stop = 4096 * (k + n)" "sub_chk a base = Some ?start" "sub_chk e base = Some ?stop"
    using assms(4,5) by (simp_all add: unat_sub word_le_nat_alt sub_chk_def)
  have "unat ?start + 4096 * n = unat ?stop" using u by simp
  note st = set_step_by [OF this]
  have "4096 * (k + n) \<le> 2 ^ 46" using assms(6) by simp
  then have hh: "unat ?HH + 4096 * (k + n) \<le> 2 ^ 48" "4096 dvd unat ?HH" unfolding unat_HIGHER_HALF_START by simp_all
  have top: "unat base + 4096 * (k + n) \<le> 2 ^ 64"
    using unat_less_2p [of e] unfolding assms(5) assms(4) by (simp add: distrib_left add.assoc)
  note pages = range_cover [OF u(1,2) hh(1)]
  have f: "?f x = Some (?p x, ?v x) \<and> ?v x < MAX_ADDRESS mode_Sv48 \<and> is_aligned Kilopage (?p x) \<and> is_aligned Kilopage (?v x)" if "x \<in> set ?xs" for x
    using range_pages_ok [OF u(1,2) hh assms(3) top that] by simp
  have un: "\<forall>x \<in> set ?xs. translate mode_Sv48 s pt (?v x) = Some None"
  proof
    fix x assume "x \<in> set ?xs"
    moreover have "in_page Kilopage (?v x) (?v x)" by (simp add: in_page_def KIB_def)
    ultimately show "translate mode_Sv48 s pt (?v x) = Some None" using pages assms(9) by blast
  qed
  have "length (subtables pt) + 3 * length ?xs \<le> sub_cap pt" "4096 * 3 * length ?xs < card (free_bytes fl)" using assms(7,8) st(3) by simp_all
  with map_each_ok [OF assms(1) _ boot_flags [OF assms(2)] _ _ _ st(2) range_apart [OF u(1,2) hh(1)] un, of ?f ?p] f obtain pt' s' fl' where
    "map_each ?f Kilopage (perm OR FLAG_ACCESSED OR FLAG_DIRTY) ?xs pt s = Some (pt', s')" "paging_inv mode_Sv48 s' pt' fl'"
    "\<forall>w\<le>MAX_ADDRESS mode_Sv48. translate mode_Sv48 s' pt' w =
      (case image_at Kilopage (perm OR FLAG_ACCESSED OR FLAG_DIRTY) ?p ?v ?xs w of Some r \<Rightarrow> Some (Some r) | None \<Rightarrow> translate mode_Sv48 s pt w)"
    by auto
  then show ?thesis
    using u(3,4) pages image_at_shift [of ?p base ?v ?HH] by (intro exI [of _ pt'] exI [of _ s'] exI [of _ fl']) (simp add: map_section_def)
qed

section \<open>Growing the vector under the lock\<close>

lemma physical_allocate_more:
  assumes "buddy_inv s fl" "PhysicalAllocator_allocate s l = Some (r, s')"
  shows "pmem.more s' = pmem.more s"
proof (cases "PAGE_SIZE < layout_align l")
  case False
  then obtain k r1 where k: "allocate s k = Some (r1, s')"
    using assms(2) by (auto simp: PhysicalAllocator_allocate_def split: bind_splits result.splits)
  show ?thesis
    by (cases rule: allocate_cases [OF assms(1), of k]) (use k in \<open>auto simp: allocates_def frame_def\<close>)
qed (use assms(2) in \<open>simp add: PhysicalAllocator_allocate_def\<close>)

lemma vec_grow_locked:
  fixes s :: "'a kernel_scheme"
  assumes "buddy_inv s fl" "root_locked s" "0 < sub_cap pt"
  shows "vec_grow pt s = None"
proof -
  have "PhysicalAllocator_deallocate s' p l' = None" if "PhysicalAllocator_allocate s l = Some (r, s')" for l l' r p and s' :: "'a kernel_scheme"
  proof -
    have "root_locked s'" using physical_allocate_more [OF assms(1) that] assms(2) by (cases s; cases s') simp
    then show ?thesis by (simp add: PhysicalAllocator_deallocate_def page_root_def)
  qed
  then show ?thesis using assms(3) by (auto simp: vec_grow_def Let_def split: bind_splits result.splits)
qed

text \<open>Once the vector of subtables is full, \<open>map\<close> of an address that needs a new table never returns: the vector grows, the old buffer is
  given back to the allocator, and the allocator locks the page table that the caller of \<open>map\<close> has locked.\<close>

theorem map_full_vector_deadlocks:
  fixes s :: "'a kernel_scheme"
  assumes "paging_inv m s pt fl" "free_bytes fl \<noteq> {}" "mode_ok m" "sz \<noteq> Terapage" "vpn_idx sz < LEVELS m - 1"
    "v < MAX_ADDRESS m" "is_aligned sz p" "is_aligned sz v" "entry_kind_of (mem s (entry_addr (entries pt) v (LEVELS m - 1))) = None"
    "root_locked s" "length (subtables pt) = sub_cap pt" "0 < sub_cap pt"
  shows "map_page m s pt p v sz f = None"
proof -
  let ?L = "LEVELS m"
  have lv: "rev [vpn_idx sz + 1..<?L] = (?L - 1) # rev [vpn_idx sz + 1..<?L - 1]"
    using assms(5) upt_Suc_append [of "vpn_idx sz + 1" "?L - 1"] by (simp add: Suc_diff_Suc)
  obtain n s1 fl1 where z: "zalloc_order s 0 = Some (Ok n, s1)" "zallocates s fl 0 n s1 fl1"
    by (cases rule: zalloc_order_cases [of s fl 0]) (use assms(1,2) in \<open>auto simp: paging_inv_def\<close>)
  define s2 where "s2 = s1\<lparr>mem := (mem s1)(entry_addr (entries pt) v (?L - 1) := branch_entry n)\<rparr>"
  have "pmem.more s1 = pmem.more s" using z(2) by (simp add: zallocates_def allocates_def frame_def)
  then have locked: "root_locked s1" using assms(10) by (cases s; cases s1) simp
  have L: "0 < ?L - 1" "?L - 1 < ?L" using mode_okD(3) [OF assms(3)] by simp_all
  have "tbl (mem s) (phys_off s) (entries pt) (vpath v ?L (Suc (?L - 1))) = Some (entries pt)" using L(2) by simp
  then have "paging_inv m s2 pt fl1" using map_new_table(1) [OF assms(1) L _ assms(9) z(2)] by (simp add: s2_def)
  then have "vec_push pt n s2 = None"
    using vec_grow_locked [of s2 fl1 pt] locked assms(11,12) by (simp add: vec_push_def paging_inv_def s2_def)
  then have "map_levels s pt (entries pt) v (rev [vpn_idx sz + 1..<?L]) = None"
    unfolding lv using assms(9) z(1) by (simp add: s2_def Let_def)
  moreover have "v AND NOT (MAX_ADDRESS m) = 0" by (rule and_not_max [OF assms(3,6)])
  moreover have "\<not> ?L \<le> vpn_idx sz" using assms(5) by simp
  ultimately show ?thesis using assms(7,8) iffD2 [OF not_le assms(6)] by (simp add: map_page_def)
qed

section \<open>Examples\<close>

text \<open>The lists of \<^const>\<open>fresh_kernel\<close>: one free block of 64 KiB.\<close>

definition fresh_lists :: "usize list list" where
  "fresh_lists = [[], [], [], [], [0x80300000], [], [], [], [], [], [], []]"

lemma fresh_lists_nth: "k < 12 \<Longrightarrow> fresh_lists ! k = (if k = 4 then [0x80300000] else [])"
  by (simp add: fresh_lists_def nth_Cons' split: if_splits)

lemma fresh_bytes: "free_bytes fresh_lists = {0x80300000..<0x80310000}"
  by (auto simp: free_bytes_def fresh_lists_nth block_bytes_def split: if_splits)

lemma fresh_inv: "buddy_inv fresh_kernel fresh_lists"
proof -
  have "orders fresh_kernel ! k = (if k = 4 then Some 0x80300000 else None)" if "k < 12" for k
    using that by (simp add: fresh_kernel_def nth_Cons' split: if_splits)
  then have "free_lists fresh_kernel fresh_lists"
    unfolding free_lists_def by (auto simp: fresh_lists_nth) (simp_all add: fresh_kernel_def fresh_lists_def dec_ptr_def)
  then show ?thesis
    unfolding buddy_inv_def stats_inv_def fresh_bytes
    by (auto simp: blocks_inv_def fresh_lists_nth split: if_splits) (simp_all add: fresh_kernel_def block_ok_def)
qed

definition boot_kernel :: kernel where
  "boot_kernel = fresh_kernel\<lparr>root_locked := True\<rparr>"

lemma boot_paging_inv: "paging_inv mode_Sv48 boot_kernel (from_raw_parts 0x90000000 0x91000000 subs cap) fresh_lists"
proof -
  have mem: "mem boot_kernel = (\<lambda>_. 0)" "phys_off boot_kernel = 0" by (simp_all add: boot_kernel_def fresh_kernel_def)
  have "buddy_inv boot_kernel fresh_lists"
    using fresh_inv unfolding boot_kernel_def by (simp add: buddy_inv_def blocks_inv_def free_lists_def)
  then show ?thesis
    unfolding paging_inv_def pt_tree_def mem tbl_zero fresh_bytes
    by (auto simp: mode_Sv48_def from_raw_parts_def table_ok_def table_page_def entry_ok_def)
qed

theorem map_full_vector_deadlocks_witness:
  "map_page mode_Sv48 boot_kernel (from_raw_parts 0x90000000 0x91000000 [1, 2, 3, 4] 4) 0x80000000 0x400000000000 Megapage 6 = None"
proof (rule map_full_vector_deadlocks [OF boot_paging_inv])
  show "free_bytes fresh_lists \<noteq> {}" by (simp add: fresh_bytes)
qed (simp_all add: mode_ok_def mode_Sv48_def is_aligned_def MIB_def from_raw_parts_def boot_kernel_def fresh_kernel_def entry_kind_of_def VALID_def)

theorem map_section_correct_witness:
  "\<exists>pt' s'. map_section 0x80200000 (0x80200000, 0x80201000) (FLAG_READ OR FLAG_EXEC) (from_raw_parts 0x90000000 0x91000000 [] 64) boot_kernel = Some (pt', s') \<and>
    translate mode_Sv48 s' pt' 0x400000000008 = Some (Some (0x80200008, Kilopage, FLAG_READ OR FLAG_EXEC OR FLAG_ACCESSED OR FLAG_DIRTY))"
proof -
  let ?pt = "from_raw_parts 0x90000000 0x91000000 [] 64"
  have un: "translate mode_Sv48 boot_kernel ?pt w = Some None" for w
    using translate_walk [OF boot_paging_inv, of "[]" 64 w]
    by (simp add: boot_kernel_def fresh_kernel_def lookup_zero)
  have "\<exists>pt' s' fl'. map_section 0x80200000 (0x80200000, 0x80201000) (FLAG_READ OR FLAG_EXEC) ?pt boot_kernel = Some (pt', s') \<and> paging_inv mode_Sv48 s' pt' fl' \<and>
    (\<forall>w\<le>MAX_ADDRESS mode_Sv48. translate mode_Sv48 s' pt' w =
      (if HIGHER_HALF_START + (0x80200000 - 0x80200000) \<le> w \<and> w < HIGHER_HALF_START + (0x80201000 - 0x80200000)
       then Some (Some (0x80200000 + (w - HIGHER_HALF_START), Kilopage, (FLAG_READ OR FLAG_EXEC) OR FLAG_ACCESSED OR FLAG_DIRTY)) else translate mode_Sv48 boot_kernel ?pt w))"
  proof (rule map_section_correct [where k = 0 and n = 1, OF boot_paging_inv])
    show "flags_ok (FLAG_READ OR FLAG_EXEC)" by (simp add: flags_ok_def bit_or_iff FLAG_READ_def FLAG_EXEC_def)
    show "4096 * 3 * 1 < card (free_bytes fresh_lists)" by (simp add: fresh_bytes)
  qed (simp_all add: from_raw_parts_def un [unfolded from_raw_parts_def])
  then show ?thesis by (fastforce simp: mode_Sv48_def HIGHER_HALF_START_def or.assoc)
qed


end
