(* ===== verification/Boot_Stack.thy ===== *)
theory Boot_Stack
  imports Boot_Map Page_Frame
begin

text \<open>
  The stack of a hart (\<open>alloc_kernel_stack\<close> of \<open>boot.rs\<close>): a block of 1 MiB is taken from the allocator and mapped, page by page, at the
  place of the hart in the area of the kernel stacks. The pages of a stack share their tables, so three subtables are enough.
\<close>

section \<open>Pages below the same tables\<close>

abbreviation leaf_path :: "usize \<Rightarrow> nat list" where
  "leaf_path v \<equiv> vpath v (LEVELS mode_Sv48) (Suc 0)"

lemma map_each_covered:
  fixes s :: "'a kernel_scheme"
  assumes "paging_inv mode_Sv48 s pt fl" "flags_ok g" "g \<noteq> 0" "tbl (mem s) (phys_off s) (entries pt) q = Some t"
    "\<forall>x \<in> set xs. f x = Some (p x, v x) \<and> v x < MAX_ADDRESS mode_Sv48 \<and> is_aligned Kilopage (p x) \<and> is_aligned Kilopage (v x) \<and> leaf_path (v x) = q"
    "distinct xs" "\<forall>x \<in> set xs. \<forall>y \<in> set xs. in_page Kilopage (v x) (v y) \<longrightarrow> x = y"
    "\<forall>x \<in> set xs. translate mode_Sv48 s pt (v x) = Some None"
  shows "\<exists>s'. map_each f Kilopage g xs pt s = Some (pt, s') \<and> paging_inv mode_Sv48 s' pt fl \<and> accounts mode_Sv48 s pt fl s' pt fl \<and>
    (\<forall>w\<le>MAX_ADDRESS mode_Sv48. translate mode_Sv48 s' pt w =
      (case image_at Kilopage g p v xs w of Some r \<Rightarrow> Some (Some r) | None \<Rightarrow> translate mode_Sv48 s pt w))"
  using assms(1,4-8)
proof (induction xs arbitrary: s)
  case Nil
  then show ?case by (auto simp: image_at_def)
next
  case (Cons x xs)
  have x: "f x = Some (p x, v x)" "v x < MAX_ADDRESS mode_Sv48" "is_aligned Kilopage (p x)" "is_aligned Kilopage (v x)" "leaf_path (v x) = q"
    "translate mode_Sv48 s pt (v x) = Some None" using Cons.prems(3,6) by auto
  have m: "mode_ok mode_Sv48" "Kilopage \<noteq> Terapage" by (simp_all add: mode_ok_def)
  have q: "tbl (mem s) (phys_off s) (entries pt) (vpath (v x) (LEVELS mode_Sv48) (Suc (vpn_idx Kilopage))) = Some t"
    using x(5) Cons.prems(2) by simp
  obtain s1 where s1: "map_page mode_Sv48 s pt (p x) (v x) Kilopage g = Some (Ok (), pt, s1)" "paging_inv mode_Sv48 s1 pt fl"
    "accounts mode_Sv48 s pt fl s1 pt fl" "tbl (mem s1) (phys_off s1) (entries pt) q = Some t"
    "\<And>w. w\<le>MAX_ADDRESS mode_Sv48 \<Longrightarrow> translate mode_Sv48 s1 pt w =
      (if in_page Kilopage (v x) w then Some (Some (p x + (w - v x), Kilopage, g)) else translate mode_Sv48 s pt w)"
    using map_page_covered [OF Cons.prems(1) m assms(2,3) x(2-4) q x(6)] x(5) by auto
  have "translate mode_Sv48 s1 pt (v y) = Some None" if "y \<in> set xs" for y
  proof -
    have "\<not> in_page Kilopage (v x) (v y)" "v y \<le> MAX_ADDRESS mode_Sv48" using that Cons.prems(3-5) by (auto simp: less_imp_le)
    then show ?thesis using s1(5) that Cons.prems(6) by simp
  qed
  then obtain s' where ih: "map_each f Kilopage g xs pt s1 = Some (pt, s')" "paging_inv mode_Sv48 s' pt fl" "accounts mode_Sv48 s1 pt fl s' pt fl"
    "\<forall>w\<le>MAX_ADDRESS mode_Sv48. translate mode_Sv48 s' pt w =
      (case image_at Kilopage g p v xs w of Some r \<Rightarrow> Some (Some r) | None \<Rightarrow> translate mode_Sv48 s1 pt w)"
    using Cons.IH [OF s1(2,4)] Cons.prems(3-5) by auto
  have "translate mode_Sv48 s' pt w = (case image_at Kilopage g p v (x # xs) w of Some r \<Rightarrow> Some (Some r) | None \<Rightarrow> translate mode_Sv48 s pt w)"
    if "w \<le> MAX_ADDRESS mode_Sv48" for w
    using ih(4) s1(5) that image_at_first [OF Cons.prems(4,5)] by (auto simp: image_at_def split: option.splits)
  then show ?case using ih(1,2) s1(1) x(1) accounts_trans [OF s1(3) ih(3)] by auto
qed

lemma map_each_region:
  fixes s :: "'a kernel_scheme"
  assumes "paging_inv mode_Sv48 s pt fl" "flags_ok g" "g \<noteq> 0" "length (subtables pt) + 3 \<le> sub_cap pt" "4096 * 3 < card (free_bytes fl)"
    "\<forall>x \<in> set xs. f x = Some (p x, v x) \<and> v x < MAX_ADDRESS mode_Sv48 \<and> is_aligned Kilopage (p x) \<and> is_aligned Kilopage (v x) \<and> leaf_path (v x) = q"
    "distinct xs" "\<forall>x \<in> set xs. \<forall>y \<in> set xs. in_page Kilopage (v x) (v y) \<longrightarrow> x = y"
    "\<forall>x \<in> set xs. translate mode_Sv48 s pt (v x) = Some None"
  shows "\<exists>pt' s' fl'. map_each f Kilopage g xs pt s = Some (pt', s') \<and> paging_inv mode_Sv48 s' pt' fl' \<and> accounts mode_Sv48 s pt fl s' pt' fl' \<and>
    (\<forall>w\<le>MAX_ADDRESS mode_Sv48. translate mode_Sv48 s' pt' w =
      (case image_at Kilopage g p v xs w of Some r \<Rightarrow> Some (Some r) | None \<Rightarrow> translate mode_Sv48 s pt w))"
proof (cases xs)
  case Nil
  then show ?thesis using assms(1) by (fastforce simp: image_at_def)
next
  case (Cons x ys)
  have x: "f x = Some (p x, v x)" "v x < MAX_ADDRESS mode_Sv48" "is_aligned Kilopage (p x)" "is_aligned Kilopage (v x)" "leaf_path (v x) = q"
    using assms(6) Cons by auto
  have m: "mode_ok mode_Sv48" "Kilopage \<noteq> Terapage" by (simp_all add: mode_ok_def)
  obtain pt1 s1 fl1 where r: "map_page mode_Sv48 s pt (p x) (v x) Kilopage g = Some (Ok (), pt1, s1)" "paging_inv mode_Sv48 s1 pt1 fl1"
    "accounts mode_Sv48 s pt fl s1 pt1 fl1" "\<And>w. w\<le>MAX_ADDRESS mode_Sv48 \<Longrightarrow> translate mode_Sv48 s1 pt1 w =
      (if in_page Kilopage (v x) w then Some (Some (p x + (w - v x), Kilopage, g)) else translate mode_Sv48 s pt w)"
    using map_page_room [OF assms(1) m assms(2-4) x(2-4) _ assms(5)] assms(9) Cons by (metis list.set_intros(1))
  have "in_page Kilopage (v x) (v x)" by (simp add: in_page_def KIB_def)
  then have "translate mode_Sv48 s1 pt1 (v x) = Some (Some (p x, Kilopage, g))" using r(4) [of "v x"] x(2) by simp
  from translate_table [OF r(2) this] obtain t where t: "tbl (mem s1) (phys_off s1) (entries pt1) q = Some t" using x(5) by metis
  have un: "\<forall>y \<in> set ys. translate mode_Sv48 s1 pt1 (v y) = Some None"
  proof
    fix y assume y: "y \<in> set ys"
    then have "\<not> in_page Kilopage (v x) (v y)" "v y \<le> MAX_ADDRESS mode_Sv48" using assms(6-8) Cons by (auto simp: less_imp_le)
    then show "translate mode_Sv48 s1 pt1 (v y) = Some None" using r(4) y assms(9) Cons by simp
  qed
  obtain s' where ih: "map_each f Kilopage g ys pt1 s1 = Some (pt1, s')" "paging_inv mode_Sv48 s' pt1 fl1" "accounts mode_Sv48 s1 pt1 fl1 s' pt1 fl1"
    "\<forall>w\<le>MAX_ADDRESS mode_Sv48. translate mode_Sv48 s' pt1 w =
      (case image_at Kilopage g p v ys w of Some r \<Rightarrow> Some (Some r) | None \<Rightarrow> translate mode_Sv48 s1 pt1 w)"
    using map_each_covered [OF r(2) assms(2,3) t _ _ _ un, of f p] assms(6-8) Cons by auto
  have "translate mode_Sv48 s' pt1 w = (case image_at Kilopage g p v xs w of Some r \<Rightarrow> Some (Some r) | None \<Rightarrow> translate mode_Sv48 s pt w)"
    if "w \<le> MAX_ADDRESS mode_Sv48" for w
    using ih(4) r(4) that image_at_first [OF assms(7,8) [unfolded Cons]] by (auto simp: image_at_def Cons split: option.splits)
  then show ?thesis using ih(1,2) r(1) x(1) accounts_trans [OF r(3) ih(3)] Cons by auto
qed

section \<open>A kernel stack\<close>

definition stack_start :: "u64 \<Rightarrow> usize" where
  "stack_start hart_id = KERNEL_STACK_BASE + hart_id * KERNEL_STACK_SIZE"

lemma unat_stack_start:
  assumes "unat hart_id < 181 * 2 ^ 20"
  shows "unat (stack_start hart_id) = 75 * 2 ^ 40 + unat hart_id * 2 ^ 20" "mul_chk hart_id KERNEL_STACK_SIZE = Some (hart_id * KERNEL_STACK_SIZE)"
    "add_chk KERNEL_STACK_BASE (hart_id * KERNEL_STACK_SIZE) = Some (stack_start hart_id)"
proof -
  have b: "unat KERNEL_STACK_BASE = 75 * 2 ^ 40" "unat KERNEL_STACK_SIZE = 2 ^ 20"
    by (simp_all add: KERNEL_STACK_BASE_def HIGHER_HALF_START_def KERNEL_STACK_SIZE_def)
  have m: "unat hart_id * 2 ^ 20 < 181 * 2 ^ 40" using assms by simp
  then have u: "unat (hart_id * KERNEL_STACK_SIZE) = unat hart_id * 2 ^ 20" by (subst unat_mult_lem [THEN iffD1]) (simp_all add: b)
  show "mul_chk hart_id KERNEL_STACK_SIZE = Some (hart_id * KERNEL_STACK_SIZE)" using m by (simp add: mul_chk_def b)
  show "add_chk KERNEL_STACK_BASE (hart_id * KERNEL_STACK_SIZE) = Some (stack_start hart_id)" using m by (simp add: add_chk_def b u stack_start_def)
  show "unat (stack_start hart_id) = 75 * 2 ^ 40 + unat hart_id * 2 ^ 20"
    unfolding stack_start_def using m by (subst unat_add_lem [THEN iffD1]) (simp_all add: b u)
qed

lemma unat_STACK_SIZE: "unat KERNEL_STACK_SIZE = 2 ^ 20"
  by (simp add: KERNEL_STACK_SIZE_def)

lemma order_of_stack: "order_for_size KERNEL_STACK_SIZE = Some 8"
proof -
  obtain k where k: "order_for_size KERNEL_STACK_SIZE = Some k" "(2::nat) ^ 20 \<le> 2 ^ (k + 12)" "\<forall>j<k. (2::nat) ^ (j + 12) < 2 ^ 20"
    using order_for_size_spec [of KERNEL_STACK_SIZE] unfolding unat_STACK_SIZE by auto
  have "20 \<le> k + 12" using k(2) by (subst (asm) power_increasing_iff) simp_all
  moreover have "\<not> 8 < k" using k(3) by force
  ultimately show ?thesis using k(1) by simp
qed

abbreviation STACK_FLAGS :: u8 where
  "STACK_FLAGS \<equiv> FLAG_READ OR FLAG_WRITE OR FLAG_ACCESSED OR FLAG_DIRTY"

lemma stack_flags: "flags_ok STACK_FLAGS" "STACK_FLAGS \<noteq> 0"
proof -
  have "flags_ok (FLAG_READ OR FLAG_WRITE)" by (simp add: flags_ok_def bit_or_iff FLAG_READ_def FLAG_WRITE_def)
  from boot_flags [OF this] show "flags_ok STACK_FLAGS" "STACK_FLAGS \<noteq> 0" by (simp_all add: or.assoc)
qed

lemma stack_path:
  assumes "unat hart_id < 181 * 2 ^ 20" "x \<in> set (step_by 0 KERNEL_STACK_SIZE PAGE_SIZE)"
  shows "leaf_path (stack_start hart_id + x) = leaf_path (stack_start hart_id)"
proof -
  note u = unat_stack_start(1) [OF assms(1)]
  have "unat (stack_start hart_id) + 4096 * (0 + 256) \<le> 2 ^ 48" unfolding u using assms(1) by simp
  then obtain i where i: "i < 256" "unat (stack_start hart_id + x) = unat (stack_start hart_id) + 4096 * (0 + i)"
    using range_page [of 0 0 KERNEL_STACK_SIZE 256 "stack_start hart_id" x] assms(2) unat_STACK_SIZE by auto
  have q: "unat (stack_start hart_id) = 2 ^ 20 * (75 * 2 ^ 20 + unat hart_id)" unfolding u by simp
  have "(2 ^ 20 * j + 4096 * i) div (2 ^ 20 * 2) = 2 ^ 20 * j div (2 ^ 20 * 2)" for j :: nat
    using i(1) unfolding div_mult2_eq by simp
  moreover have pow: "(2::nat) ^ (12 + 9 * Suc 0) = 2 ^ 20 * 2" by simp
  ultimately have e: "unat (stack_start hart_id + x) div 2 ^ (12 + 9 * Suc 0) = unat (stack_start hart_id) div 2 ^ (12 + 9 * Suc 0)"
    unfolding i(2) q pow by (simp only: add_0)
  have L: "LEVELS mode_Sv48 = 4" by (simp add: mode_Sv48_def)
  show ?thesis unfolding L by (subst vpath_eq_iff) (use e i u assms(1) in simp_all)
qed

lemma alloc_kernel_stack_spec:
  fixes s :: "'a kernel_scheme"
  assumes "paging_inv mode_Sv48 s pt fl" "length (subtables pt) + 3 \<le> sub_cap pt" "8 \<le> j" "j < 12" "fl ! j \<noteq> []"
    "2 ^ 20 + 4096 * 3 < card (free_bytes fl)" "unat hart_id < 181 * 2 ^ 20"
    "\<And>w. stack_start hart_id \<le> w \<Longrightarrow> w < stack_start hart_id + KERNEL_STACK_SIZE \<Longrightarrow> translate mode_Sv48 s pt w = Some None"
  obtains b pt' s' fl' where "alloc_kernel_stack pt hart_id s = Some ((b + KERNEL_STACK_SIZE, stack_start hart_id + KERNEL_STACK_SIZE), pt', s')"
    "paging_inv mode_Sv48 s' pt' fl'" "block_ok (phys_off s) 8 b" "block_bytes 8 b \<subseteq> free_bytes fl" "free_bytes fl' \<inter> block_bytes 8 b = {}"
    "table_bytes mode_Sv48 s' pt' \<inter> block_bytes 8 b = {}"
    "\<And>w. w\<le>MAX_ADDRESS mode_Sv48 \<Longrightarrow> translate mode_Sv48 s' pt' w =
      (if stack_start hart_id \<le> w \<and> w < stack_start hart_id + KERNEL_STACK_SIZE
       then Some (Some (b + (w - stack_start hart_id), Kilopage, STACK_FLAGS)) else translate mode_Sv48 s pt w)"
    "phys_off s' = phys_off s" "root_table s' = root_table s" "root_locked s' = root_locked s"
    "\<And>x. unat x \<notin> free_bytes fl \<union> table_bytes mode_Sv48 s pt \<Longrightarrow> mem s' (x + phys_off s) = mem s (x + phys_off s)"
proof -
  let ?c = "stack_start hart_id" and ?xs = "step_by 0 KERNEL_STACK_SIZE PAGE_SIZE" and ?m = mode_Sv48
  have inv: "buddy_inv s fl" "free_bytes fl \<subseteq> {..<2 ^ 56}" "pt_tree (mem s) (phys_off s) (entries pt) (LEVELS ?m) (free_bytes fl)"
    using assms(1) by (simp_all add: paging_inv_def)
  obtain b s1 fl1 where a: "allocate s 8 = Some (Ok b, s1)" "allocates s fl 8 b s1 fl1" using allocate_ok [OF inv(1) assms(3-5)] by blast
  have b: "buddy_inv s1 fl1" "block_ok (phys_off s) 8 b" "block_bytes 8 b \<subseteq> free_bytes fl" "free_bytes fl1 = free_bytes fl - block_bytes 8 b"
    "frame (free_bytes fl) s s1" "phys_off s1 = phys_off s" using a(2) by (auto simp: allocates_def frame_def)
  have more: "root_table s1 = root_table s" "root_locked s1 = root_locked s" using b(5) by (cases s; cases s1; simp add: frame_def)+
  note s1 = paging_allocates [OF assms(1) a(2)]
  have card1: "4096 * 3 < card (free_bytes fl1)" using assms(6) card_Diff_subset [OF block_bytes_finite b(3)] unfolding b(4) by simp
  have top: "unat b + 2 ^ 20 \<le> 2 ^ 56"
  proof -
    have "unat b + (2 ^ 20 - 1) \<in> block_bytes 8 b" by (simp add: block_bytes_def)
    then show ?thesis using b(3) inv(2) by auto
  qed
  note c = unat_stack_start [OF assms(7)]
  have "2 ^ (8 + 12) dvd unat b" using b(2) unfolding block_ok_def by blast
  then have al: "4096 dvd unat b" "4096 dvd unat ?c" unfolding c by (auto intro: dvd_trans dvd_add dvd_mult)
  have u: "unat (0 :: usize) = 4096 * 0" "unat KERNEL_STACK_SIZE = 4096 * (0 + 256)" "unat ?c + 4096 * (0 + 256) \<le> 2 ^ 48"
    "4096 dvd unat ?c" "4096 dvd unat b" "unat b + 4096 * (0 + 256) \<le> 2 ^ 64"
    using al assms(7) top unfolding c(1) by (simp_all add: unat_STACK_SIZE)
  note cover = range_cover [OF u(1-3)]
  have st: "distinct ?xs" using set_step_by(2) [of 0 256 KERNEL_STACK_SIZE] by (simp add: unat_STACK_SIZE)
  let ?f = "\<lambda>off. do { v \<leftarrow> add_chk ?c off; Some (b + off, v) }"
  have f: "\<forall>x \<in> set ?xs. ?f x = Some (b + x, ?c + x) \<and> ?c + x < MAX_ADDRESS ?m \<and> is_aligned Kilopage (b + x) \<and>
      is_aligned Kilopage (?c + x) \<and> leaf_path (?c + x) = leaf_path ?c"
    using range_pages_ok [OF u] stack_path [OF assms(7)] by simp
  have un: "\<forall>x \<in> set ?xs. translate ?m s1 pt (?c + x) = Some None"
  proof
    fix x assume "x \<in> set ?xs"
    moreover have "in_page Kilopage (?c + x) (?c + x)" by (simp add: in_page_def KIB_def)
    ultimately have "?c \<le> ?c + x \<and> ?c + x < ?c + KERNEL_STACK_SIZE" using cover by fastforce
    then show "translate ?m s1 pt (?c + x) = Some None" using assms(8) s1(3) by simp
  qed
  obtain pt' s' fl' where r: "map_each ?f Kilopage STACK_FLAGS ?xs pt s1 = Some (pt', s')" "paging_inv ?m s' pt' fl'" "accounts ?m s1 pt fl1 s' pt' fl'"
    "\<And>w. w\<le>MAX_ADDRESS ?m \<Longrightarrow> translate ?m s' pt' w = (case image_at Kilopage STACK_FLAGS (\<lambda>x. b + x) (\<lambda>x. ?c + x) ?xs w of
       Some r \<Rightarrow> Some (Some r) | None \<Rightarrow> translate ?m s1 pt w)"
    using map_each_region [OF s1(1) stack_flags assms(2) card1 f st range_apart [OF u(1-3)] un] by blast
  note acc = r(3) [unfolded accounts_def]
  show thesis
  proof (rule that [of b pt' s' fl'])
    have "add_chk b KERNEL_STACK_SIZE = Some (b + KERNEL_STACK_SIZE)" "add_chk ?c KERNEL_STACK_SIZE = Some (?c + KERNEL_STACK_SIZE)"
      using top u(3) by (simp_all add: add_chk_def unat_STACK_SIZE)
    then show "alloc_kernel_stack pt hart_id s = Some ((b + KERNEL_STACK_SIZE, ?c + KERNEL_STACK_SIZE), pt', s')"
      using c(2,3) order_of_stack a(1) r(1) by (simp add: alloc_kernel_stack_def alloc_order_def)
    show "free_bytes fl' \<inter> block_bytes 8 b = {}" using acc b(4) by blast
    show "table_bytes ?m s' pt' \<inter> block_bytes 8 b = {}" using acc b(3,4) s1(2) pt_bytes_free [OF inv(3)] by blast
    show "translate ?m s' pt' w = (if ?c \<le> w \<and> w < ?c + KERNEL_STACK_SIZE then Some (Some (b + (w - ?c), Kilopage, STACK_FLAGS)) else translate ?m s pt w)"
      if "w \<le> MAX_ADDRESS ?m" for w
      using r(4) [OF that] cover [of w] s1(3) by (simp add: image_at_shift [of _ b _ ?c])
    show "mem s' (x + phys_off s) = mem s (x + phys_off s)" if "unat x \<notin> free_bytes fl \<union> table_bytes ?m s pt" for x
    proof -
      have "unat x \<notin> free_bytes fl1 \<union> table_bytes ?m s1 pt" using that b(4) s1(2) by simp
      then have "mem s' (x + phys_off s1) = mem s1 (x + phys_off s1)" using acc by blast
      then show ?thesis using b(5,6) that by (simp add: frame_def)
    qed
  qed (use r(2) b acc more in simp_all)
qed



end
