(* ===== verification/Fdt_Find.thy ===== *)
theory Fdt_Find
  imports Fdt_Memory
begin

text \<open>
  \<open>find_nodes\<close> of \<open>crates/devicetree/src/lib.rs\<close> as its callers use it: the iterator is run until it returns \<open>None\<close>
  (\<open>count\<close> in \<open>main.rs\<close>, the \<open>for\<close> loop in \<open>boot/harts.rs\<close>). On the encoding of a tree it yields all children with the last component
  of the path below the first node along the rest of the path.
\<close>

lemma find_nodes_next_shorter: "find_nodes_next f = Some (Some n, f') \<Longrightarrow> length (f_iter f') < length (f_iter f)"
proof (induction "length (f_iter f)" arbitrary: f rule: less_induct)
  case less
  note P = less.prems [unfolded find_nodes_next.simps [of f]]
  obtain tok iter' where t: "token_next (f_iter f) = Some (tok, iter')" using P by (auto split: option.splits)
  obtain a where a: "tok = Some a" using P t by (cases tok) auto
  have sh: "length iter' < length (f_iter f)" using token_next_shorter t a by blast
  have IH: "length (f_iter f') < length (f_iter f)" if "find_nodes_next g = Some (Some n, f')" "f_iter g = iter'" for g
    using less.hyps [of g] that sh by simp
  show ?case
  proof (cases a)
    case (BeginNode nm)
    then show ?thesis
      using P t a sh by (auto simp: Let_def split: bind_splits if_splits option.splits dest: IH)
  qed (use P t a in \<open>auto simp: Let_def split: bind_splits if_splits dest: IH\<close>)
qed

function find_nodes_list :: "finder \<Rightarrow> node list option" where
  "find_nodes_list f =
     (case find_nodes_next f of
        None \<Rightarrow> None
      | Some (None, _) \<Rightarrow> Some []
      | Some (Some n, f') \<Rightarrow> map_option (Cons n) (find_nodes_list f'))"
  by pat_completeness auto
termination
  by (relation "measure (\<lambda>f. length (f_iter f))") (auto dest!: find_nodes_next_shorter)

declare find_nodes_list.simps [simp del]

section \<open>The search loop\<close>

abbreviation fnd :: "bytes list \<Rightarrow> u8 \<Rightarrow> u8 \<Rightarrow> bytes \<Rightarrow> bytes option \<Rightarrow> finder" where
  "fnd path n l iter x \<equiv> \<lparr>f_path = path, f_nesting = n, f_looking = l, f_iter = iter, f_last = x\<rparr>"

lemma nx_props:
  "list_all (\<lambda>(d, off). token_ok (Property d off)) ps \<Longrightarrow>
    find_nodes_next (fnd path n l (enc_props ps @ r) x) = find_nodes_next (fnd path n l r x)"
proof (induction ps)
  case (Cons p ps)
  obtain d off where p: "p = (d, off)" by fastforce
  have "find_nodes_next (fnd path n l (enc_token (Property d off) @ enc_props ps @ r) x) = find_nodes_next (fnd path n l (enc_props ps @ r) x)"
    using Cons.prems p token_next_enc [of "Property d off"]
    by (subst find_nodes_next.simps) (simp del: enc_token.simps)
  then show ?case using Cons p by (simp add: enc_props_def del: enc_token.simps)
qed (simp add: enc_props_def)

text \<open>The end of a node on or below the level that is searched.\<close>

lemma nx_end_inner:
  assumes "unat n1 = unat n + 1" "unat l \<le> unat n1" "0 < unat l"
  shows "find_nodes_next (fnd path n1 l (enc_token EndNode @ r) x) = find_nodes_next (fnd path n l r x)"
proof -
  obtain l1 where l1: "sub_chk l 1 = Some l1" "unat l1 = unat l - 1" using assms(3) sub_chk_1 by blast
  obtain n2 where n2: "sub_chk n1 1 = Some n2" "unat n2 = unat n" using sub_chk_1 [of n1] assms(1) by auto
  then have "n2 = n" by (simp add: word_unat_eq_iff)
  then show ?thesis
    using n2(1) l1 assms token_next_enc [of EndNode]
    by (subst find_nodes_next.simps) (auto simp: word_less_nat_alt Let_def simp del: enc_token.simps)
qed

lemma nx_skip:
  assumes "tree_ok T" "unat n + height T < 256" "unat l \<le> unat n" "0 < unat l"
  shows "find_nodes_next (fnd path n l (enc_tree T @ r) x) = find_nodes_next (fnd path n l r x)"
  using assms
proof (induction T arbitrary: n r)
  case (DTree nm ps ks)
  obtain n1 where n1: "add_chk n 1 = Some n1" "unat n1 = unat n + 1" using DTree.prems(2) add_chk_1 [of n] by auto
  have ne: "n1 \<noteq> l" using n1(2) DTree.prems(3) by auto
  have "find_nodes_next (fnd path n l (enc_tree (DTree nm ps ks) @ r) x) =
      find_nodes_next (fnd path n1 l (enc_props ps @ concat (map enc_tree ks) @ enc_token EndNode @ r) x)"
    using DTree.prems(1) n1(1) ne
    by (subst find_nodes_next.simps) (simp add: token_next_enc del: enc_token.simps)
  also have "\<dots> = find_nodes_next (fnd path n1 l (concat (map enc_tree ks) @ enc_token EndNode @ r) x)"
    using DTree.prems(1) by (simp add: nx_props del: enc_token.simps)
  also have "\<dots> = find_nodes_next (fnd path n1 l (enc_token EndNode @ r) x)"
  proof -
    have "find_nodes_next (fnd path n1 l (concat (map enc_tree ks') @ y) x) = find_nodes_next (fnd path n1 l y x)" if "set ks' \<subseteq> set ks" for ks' y
      using that
    proof (induction ks')
      case (Cons k ks')
      have "unat n1 + height k < 256" using height_kid [of k ks] Cons.prems DTree.prems(2) n1(2) by auto
      then have "find_nodes_next (fnd path n1 l (enc_tree k @ z) x) = find_nodes_next (fnd path n1 l z x)" for z
        using DTree.IH [of k n1 z] Cons.prems DTree.prems n1(2) by (auto simp: list_all_iff)
      then show ?case using Cons by simp
    qed simp
    then show ?thesis by blast
  qed
  also have "\<dots> = find_nodes_next (fnd path n l r x)" using nx_end_inner [OF n1(2)] DTree.prems(3,4) n1(2) by simp
  finally show ?case .
qed

lemma nx_skip_forest:
  "list_all tree_ok ks \<Longrightarrow> (\<And>k. k \<in> set ks \<Longrightarrow> unat n + height k < 256) \<Longrightarrow> unat l \<le> unat n \<Longrightarrow> 0 < unat l \<Longrightarrow>
    find_nodes_next (fnd path n l (concat (map enc_tree ks) @ r) x) = find_nodes_next (fnd path n l r x)"
  by (induction ks) (auto simp: nx_skip)

text \<open>The body of a node on the level that is searched.\<close>

lemma nx_body:
  assumes "tree_ok T" "unat n + height T < 256" "unat l = unat n + 1"
  shows "find_nodes_next (fnd path l l (enc_body T @ r) x) = find_nodes_next (fnd path n l r x)"
proof -
  have ok: "list_all tree_ok (dkids T)" "list_all (\<lambda>(d, off). token_ok (Property d off)) (dprops T)" using assms(1) by (cases T; simp)+
  have ht: "unat l + height k < 256" if "k \<in> set (dkids T)" for k using height_kids [OF that] assms(2,3) by simp
  have "find_nodes_next (fnd path l l (enc_body T @ r) x) = find_nodes_next (fnd path l l (enc_token EndNode @ r) x)"
    using nx_skip_forest [OF ok(1) ht] assms(3) ok(2) by (simp add: enc_body_def nx_props del: enc_token.simps)
  also have "\<dots> = find_nodes_next (fnd path n l r x)" using nx_end_inner [OF assms(3)] assms(3) by simp
  finally show ?thesis .
qed

lemma token_next_tree:
  "tree_ok T \<Longrightarrow> token_next (enc_tree T @ r) = Some (Some (BeginNode (dname T)), enc_body T @ r)"
  using token_next_enc [of "BeginNode (dname T)"] by (cases T) (simp add: enc_tree_eq del: enc_token.simps enc_tree.simps)

lemma nx_end:
  assumes "forest_end r" "unat l = unat n + 1" "\<And>r'. r = enc_token EndNode @ r' \<Longrightarrow> 0 < unat n"
  shows "\<exists>f'. find_nodes_next (fnd path n l r x) = Some (None, f')"
proof (cases "\<exists>r'. r = enc_end @ r'")
  case True
  then show ?thesis by (subst find_nodes_next.simps) (auto simp: token_next_end)
next
  case False
  then obtain r' where r': "r = enc_token EndNode @ r'" using assms(1) by (auto simp: forest_end_def)
  then have "0 < unat n" using assms(3) by blast
  then obtain n1 where n1: "sub_chk n 1 = Some n1" "unat n1 = unat n - 1" using sub_chk_1 [of n] by auto
  obtain l1 where l1: "sub_chk l 1 = Some l1" "unat l1 = unat n" using sub_chk_1 [of l] assms(2) by auto
  show ?thesis
    using r' n1 l1 \<open>0 < unat n\<close> token_next_enc [of EndNode r']
    by (subst find_nodes_next.simps) (simp add: word_less_nat_alt Let_def del: enc_token.simps)
qed

section \<open>The nodes found\<close>

text \<open>
  The reference: along the path the first node whose name starts with the component, and of the last component all of the siblings.
\<close>

function find_all :: "bytes list \<Rightarrow> dtree list \<Rightarrow> dtree list" where
  "find_all [] Ts = []"
| "find_all [p] Ts = filter (\<lambda>T. starts_with (dname T) p) Ts"
| "find_all (p # q # ps) [] = []"
| "find_all (p # q # ps) (T # Ts) =
     (if starts_with (dname T) p then find_all (q # ps) (dkids T) else find_all (p # q # ps) Ts)"
  by pat_completeness auto
termination
  by (relation "measure length <*lex*> measure length") auto

lemma nodes_same: "find_nodes_next f = find_nodes_next f' \<Longrightarrow> find_nodes_list f = find_nodes_list f'"
  by (subst (1 2) find_nodes_list.simps) simp

lemma list_end:
  assumes "forest_end r" "unat l = unat n + 1" "\<And>r'. r = enc_token EndNode @ r' \<Longrightarrow> 0 < unat n"
  shows "find_nodes_list (fnd path n l r x) = Some []"
proof -
  obtain f' where "find_nodes_next (fnd path n l r x) = Some (None, f')" using nx_end [OF assms(1,2)] assms(3) by blast
  then show ?thesis by (subst find_nodes_list.simps) simp
qed

text \<open>On the last level: the remaining path is the component, or it is used up and remembered.\<close>

lemma list_last:
  assumes "list_all tree_ok Ts" "\<And>T. T \<in> set Ts \<Longrightarrow> unat n + height T < 255" "unat l = unat n + 1"
    "path = [p] \<or> path = [] \<and> x = Some p" "forest_end r" "\<And>r'. r = enc_token EndNode @ r' \<Longrightarrow> 0 < unat n"
  shows "\<exists>ns. find_nodes_list (fnd path n l (concat (map enc_tree Ts) @ r) x) = Some ns \<and>
    list_all2 (\<lambda>nd T. represents nd T \<and> node_level nd = n) ns (filter (\<lambda>T. starts_with (dname T) p) Ts)"
  using assms(1,2,4)
proof (induction Ts arbitrary: path x)
  case Nil
  then show ?case using list_end [OF assms(5,3,6)] by simp
next
  case (Cons T Ts)
  have T: "tree_ok T" "unat n + height T < 256" using Cons.prems(1) Cons.prems(2) [of T] by auto
  have l: "add_chk n 1 = Some l" using assms(3) T(2) Cons.prems(2) [of T] add_chk_1 [of n] by (auto simp: word_unat_eq_iff)
  let ?r = "concat (map enc_tree Ts) @ r"
  let ?nd = "\<lparr>node_name = dname T, node_level = n, node_children = enc_body T @ ?r\<rparr>"
  show ?case
  proof (cases "starts_with (dname T) p")
    case False
    then have "find_nodes_next (fnd path n l (enc_tree T @ ?r) x) = find_nodes_next (fnd path l l (enc_body T @ ?r) x)"
      using token_next_tree [OF T(1), of ?r] l Cons.prems(3) by (subst find_nodes_next.simps) (auto split: list.splits)
    then have "find_nodes_list (fnd path n l (enc_tree T @ ?r) x) = find_nodes_list (fnd path n l ?r x)"
      using nx_body [OF T assms(3)] by (intro nodes_same) simp
    then show ?thesis using Cons.IH [of path x] Cons.prems False by simp
  next
    case True
    then have "find_nodes_next (fnd path n l (enc_tree T @ ?r) x) = Some (Some ?nd, fnd [] l l (enc_body T @ ?r) (Some p))"
      using token_next_tree [OF T(1), of ?r] l Cons.prems(3) by (subst find_nodes_next.simps) (auto split: list.splits)
    moreover have "find_nodes_list (fnd [] l l (enc_body T @ ?r) (Some p)) = find_nodes_list (fnd [] n l ?r (Some p))"
      using nx_body [OF T assms(3)] by (rule nodes_same)
    ultimately have "find_nodes_list (fnd path n l (enc_tree T @ ?r) x) = map_option (Cons ?nd) (find_nodes_list (fnd [] n l ?r (Some p)))"
      by (subst find_nodes_list.simps) simp
    moreover have "represents ?nd T" using T by (auto simp: represents_def)
    ultimately show ?thesis using Cons.IH [of "[]" "Some p"] Cons.prems(1,2) True by fastforce
  qed
qed

lemma list_found:
  assumes "list_all tree_ok Ts" "\<And>T. T \<in> set Ts \<Longrightarrow> unat n + height T < 255" "unat l = unat n + 1" "path \<noteq> []"
    "forest_end r" "\<And>r'. r = enc_token EndNode @ r' \<Longrightarrow> 0 < unat n"
  shows "\<exists>ns. find_nodes_list (fnd path n l (concat (map enc_tree Ts) @ r) None) = Some ns \<and> list_all2 represents ns (find_all path Ts)"
  using assms
proof (induction path Ts arbitrary: n l r rule: find_all.induct)
  case (2 p Ts)
  obtain ns where "find_nodes_list (fnd [p] n l (concat (map enc_tree Ts) @ r) None) = Some ns"
    "list_all2 (\<lambda>nd T. represents nd T \<and> node_level nd = n) ns (filter (\<lambda>T. starts_with (dname T) p) Ts)"
    using list_last [OF 2(1,2,3) _ 2(5,6), of "[p]" p None] by blast
  then show ?case by (auto elim: list_all2_mono)
next
  case (3 p q ps)
  then show ?case using list_end [OF 3(5,3,6)] by simp
next
  case (4 p q ps T Ts)
  have T: "tree_ok T" "unat n + height T < 255" "unat n + height T < 256" using 4(3) 4(4) [of T] by auto
  then have n: "unat n < 254" by (cases T) auto
  then have l: "add_chk n 1 = Some l" using 4(5) add_chk_1 [of n] by (auto simp: word_unat_eq_iff)
  let ?r = "concat (map enc_tree Ts) @ r"
  note beg = token_next_tree [OF T(1), of ?r]
  show ?case
  proof (cases "starts_with (dname T) p")
    case False
    then have "find_nodes_next (fnd (p # q # ps) n l (enc_tree T @ ?r) None) = find_nodes_next (fnd (p # q # ps) l l (enc_body T @ ?r) None)"
      using beg l by (subst find_nodes_next.simps) simp
    then have "find_nodes_list (fnd (p # q # ps) n l (enc_tree T @ ?r) None) = find_nodes_list (fnd (p # q # ps) n l ?r None)"
      using nx_body [OF T(1,3) 4(5)] by (intro nodes_same) simp
    then show ?thesis using 4(2) [OF False _ _ 4(5) _ 4(7,8)] 4(3,4) False by simp
  next
    case True
    obtain l2 where l2: "add_chk l 1 = Some l2" "unat l2 = unat l + 1" using add_chk_1 [of l] 4(5) n by auto
    have kids: "list_all tree_ok (dkids T)" "list_all (\<lambda>(d, off). token_ok (Property d off)) (dprops T)" using T(1) by (cases T; simp)+
    have ht: "unat l + height k < 255" if "k \<in> set (dkids T)" for k using height_kids [OF that] T(2) 4(5) by simp
    have "find_nodes_next (fnd (p # q # ps) n l (enc_tree T @ ?r) None) = find_nodes_next (fnd (q # ps) l l2 (enc_body T @ ?r) None)"
      using beg l l2(1) True by (subst find_nodes_next.simps) simp
    also have "\<dots> = find_nodes_next (fnd (q # ps) l l2 (concat (map enc_tree (dkids T)) @ enc_token EndNode @ ?r) None)"
      using kids(2) by (simp add: enc_body_def nx_props del: enc_token.simps)
    finally have eq: "find_nodes_list (fnd (p # q # ps) n l (enc_tree T @ ?r) None) =
        find_nodes_list (fnd (q # ps) l l2 (concat (map enc_tree (dkids T)) @ enc_token EndNode @ ?r) None)" by (rule nodes_same)
    have fe: "forest_end (enc_token EndNode @ ?r)" unfolding forest_end_def by blast
    show ?thesis using 4(1) [OF True kids(1) ht l2(2) _ fe] True 4(5) eq by (simp del: enc_token.simps)
  qed
qed simp

lemma find_nodes_spec:
  assumes "tokens t = Some (enc_tree R @ enc_end @ rest)" "tree_ok R" "height R < 255" "split_terminator SLASH path \<noteq> []"
  shows "\<exists>f ns. find_nodes t path = Some f \<and> find_nodes_list f = Some ns \<and> list_all2 represents ns (find_all (split_terminator SLASH path) [R])"
proof -
  have "forest_end (enc_end @ rest)" by (auto simp: forest_end_def)
  moreover have "enc_end @ rest \<noteq> enc_token EndNode @ r'" for r'
    using token_next_end [of rest] token_next_enc [of EndNode r'] by (auto simp del: enc_token.simps)
  ultimately show ?thesis
    using list_found [of "[R]" 0 1 "split_terminator SLASH path" "enc_end @ rest"] assms by (simp add: find_nodes_def)
qed

text \<open>C34: On the encoding of any tree (less than 255 levels deep) the iterator of \<open>find_nodes\<close> ends, and the nodes it has returned are, in
  order, exactly the children whose names start with the last component of the path below the first node along the other components.\<close>

theorem find_nodes_correct:
  assumes "tokens t = Some (enc_tree R @ enc_end @ rest)" "tree_ok R" "height R < 255" "split_terminator SLASH path \<noteq> []"
  shows "\<exists>f ns. find_nodes t path = Some f \<and> find_nodes_list f = Some ns \<and> list_all2 represents ns (find_all (split_terminator SLASH path) [R])"
  using assms by (rule find_nodes_spec)

theorem find_nodes_correct_witness:
  "\<exists>f nd. find_nodes example_dtb (str ''/memory'') = Some f \<and> find_nodes_list f = Some [nd] \<and> represents nd example_memory"
proof -
  have "find_all (split_terminator SLASH (str ''/memory'')) [example_root] = [example_memory]"
    unfolding split_memory by (simp add: example_root_def example_memory_def starts_with_def str_def)
  then show ?thesis
    using find_nodes_correct [of example_dtb example_root "[]" "str ''/memory''"] example_dtb_layout(1-4)
    by (auto simp: split_memory list_all2_Cons2)
qed

end
