(* ===== verification/Fdt_Copy.thy ===== *)
theory Fdt_Copy
  imports Boot Fdt_Memory
begin

text \<open>
  The copy of the device tree that \<open>_before_main\<close> makes and \<open>rust_trampoline\<close> parses again: bytes stored into the cells of memory are
  read back, so \<open>from_ptr\<close> at the new address gives the tree that the firmware passed.
\<close>

lemma bit_le_word:
  "bit (le_word bs) n \<longleftrightarrow> n < 64 \<and> n div 8 < length bs \<and> bit (bs ! (n div 8)) (n mod 8)"
proof (induction bs arbitrary: n)
  case Nil
  then show ?case by (simp add: le_word_def)
next
  case (Cons b bs)
  have eq: "le_word (b # bs) = ucast b OR push_bit 8 (le_word bs)" by (simp add: le_word_def)
  show ?case
  proof (cases "n < 8")
    case True
    then show ?thesis by (auto simp: eq bit_or_iff bit_unsigned_iff bit_push_bit_iff)
  next
    case False
    then obtain k where k: "n = 8 + k" using le_Suc_ex not_less by blast
    have "\<not> bit b n" using False bit_imp_le_length [of b n] by auto
    then show ?thesis using Cons [of k] by (auto simp: eq k bit_or_iff bit_unsigned_iff bit_push_bit_iff)
  qed
qed

lemma byte_of_le_word:
  assumes "j < length bs" "j < 8"
  shows "ucast (drop_bit (8 * j) (le_word bs)) = (bs ! j :: u8)"
proof (rule bit_eqI)
  fix n
  show "bit (ucast (drop_bit (8 * j) (le_word bs)) :: u8) n \<longleftrightarrow> bit (bs ! j) n"
  proof (cases "n < 8")
    case True
    then have "(8 * j + n) div 8 = j" "(8 * j + n) mod 8 = n" "8 * j + n < 64" using assms(2) by auto
    then show ?thesis using True assms(1) by (simp add: bit_unsigned_iff bit_drop_bit_eq bit_le_word)
  next
    case False
    then show ?thesis by (auto dest: bit_imp_le_length)
  qed
qed

lemma cell_byte_store:
  assumes "8 dvd unat p" "8 dvd length bs" "unat p + length bs \<le> 2 ^ 64" "length bs < 2 ^ 64" "i < length bs"
  shows "cell_byte (store_bytes p bs h) (p + of_nat i) = bs ! i"
proof -
  have u: "unat (p + of_nat i) = unat p + i"
    using assms(3-5) by (subst unat_add_lem [THEN iffD1]) (simp_all add: unat_of_nat)
  define j c where "j = i mod 8" and "c = i - i mod 8"
  have i: "i = c + j" "8 dvd c" "j < 8" by (simp_all add: j_def c_def dvd_minus_mod)
  have m: "(p + of_nat i) mod 8 = of_nat j"
  proof -
    have "unat ((p + of_nat i) mod 8) = (unat p + i) mod 8" by (simp add: unat_mod u)
    also have "\<dots> = j" using assms(1) by (simp add: j_def mod_add_eq dvd_eq_mod_eq_0 mod_add_left_eq [symmetric])
    finally show ?thesis using i(3) by (simp add: word_unat_eq_iff unat_of_nat)
  qed
  have uj: "unat (of_nat j :: usize) = j" using i(3) by (simp add: unat_of_nat)
  have cell: "p + of_nat i - of_nat j = p + of_nat c" by (simp add: i(1))
  have "j + c < length bs" using i(1) assms(5) by simp
  moreover have "unat (of_nat c :: usize) = c" using assms(4,5) i(1) by (simp add: unat_of_nat)
  ultimately have st: "store_bytes p bs h (p + of_nat c) = le_word (take 8 (drop c bs))"
    using assms(4) by (simp add: store_bytes_def word_less_nat_alt unat_of_nat)
  show ?thesis
    unfolding cell_byte_def m uj cell st
    using byte_of_le_word [of j "take 8 (drop c bs)"] i assms(5) by (simp add: add.commute)
qed

lemma read_store_bytes:
  assumes "8 dvd unat p" "8 dvd length bs" "unat p + length bs \<le> 2 ^ 64" "length bs < 2 ^ 64" "k + n \<le> length bs"
  shows "read_bytes (cell_byte (store_bytes p bs h)) (p + of_nat k) n = take n (drop k bs)"
proof (rule nth_equalityI)
  fix i assume "i < length (read_bytes (cell_byte (store_bytes p bs h)) (p + of_nat k) n)"
  then have "i < n" by (simp add: read_bytes_def)
  then show "read_bytes (cell_byte (store_bytes p bs h)) (p + of_nat k) n ! i = take n (drop k bs) ! i"
    using assms(5) cell_byte_store [OF assms(1-4), of "k + i"] by (simp add: read_bytes_def add.assoc)
qed (use assms(5) in \<open>simp add: read_bytes_def\<close>)

lemma read_bytes_slice: "k + n \<le> m \<Longrightarrow> take n (drop k (read_bytes bm ptr m)) = read_bytes bm (ptr + of_nat k) n"
  by (rule nth_equalityI) (simp_all add: read_bytes_def add.assoc)

lemma from_ptr_header:
  assumes "from_ptr bm ptr = Some t" "8 \<le> length (buf t)"
  shows "u32_from_be (take 4 (buf t)) = Some MAGIC" "u32_from_be (take 4 (drop 4 (buf t))) = Some (of_nat (length (buf t)))"
proof -
  obtain size where size: "u32_from_be (read_bytes bm ptr 4) = Some MAGIC" "u32_from_be (read_bytes bm (ptr + 4) 4) = Some size"
    "buf t = read_bytes bm ptr (unat size)" using assms(1) by (auto simp: from_ptr_def split: if_splits bind_splits)
  then have len: "length (buf t) = unat size" by (simp add: read_bytes_def)
  have "take 4 (buf t) = read_bytes bm ptr 4" "take 4 (drop 4 (buf t)) = read_bytes bm (ptr + 4) 4"
    using assms(2) len read_bytes_slice [of 0 4 "unat size" bm ptr] read_bytes_slice [of 4 4 "unat size" bm ptr] unfolding size(3) by simp_all
  then show "u32_from_be (take 4 (buf t)) = Some MAGIC" "u32_from_be (take 4 (drop 4 (buf t))) = Some (of_nat (length (buf t)))"
    using size len by simp_all
qed

text \<open>C35: Copying the device tree into an aligned block of memory that is large enough succeeds, \<open>from_ptr\<close> at the block gives the tree that
  was copied, and memory outside of the block is not written.\<close>

theorem copy_fdt_correct:
  assumes "from_ptr bm ptr = Some t" "8 \<le> length (buf t)" "8 dvd unat p" "8 dvd unat sz" "unat p + unat sz \<le> 2 ^ 64" "length (buf t) \<le> unat sz"
  shows "\<exists>t' s'. copy_fdt t p sz s = Some (t', s') \<and> from_ptr (cell_byte (mem s')) p = Some t \<and>
    take (length (buf t)) (buf t') = buf t \<and> (\<forall>a. unat a \<notin> {unat p ..< unat p + unat sz} \<longrightarrow> mem s' a = mem s a)"
proof -
  define b where "b = buf t @ drop (length (buf t)) (read_bytes (cell_byte (mem s)) p (unat sz))"
  let ?s = "s\<lparr>mem := store_bytes p b (mem s)\<rparr>"
  have len: "length b = unat sz" using assms(6) by (simp add: b_def read_bytes_def)
  have copy: "copy_fdt t p sz s = Some (\<lparr>buf = b\<rparr>, ?s)"
    using assms(6) by (simp add: copy_fdt_def copy_to_slice_def b_def read_bytes_def)
  have rd: "read_bytes (cell_byte (mem ?s)) (p + of_nat k) n = take n (drop k (buf t))" if "k + n \<le> length (buf t)" for k n
    using read_store_bytes [of p b k n "mem s"] assms(3-6) len that unat_less_2p [of sz] by (simp add: b_def)
  have "\<exists>x :: u32. length (buf t) = unat x" using assms(1) by (auto simp: from_ptr_def read_bytes_def split: if_splits bind_splits)
  then have "length (buf t) < 2 ^ 32" using unat_less_2p [where 'a = 32] by auto
  then have "from_ptr (cell_byte (mem ?s)) p = Some t"
    using rd [of 0 4] rd [of 4 4] rd [of 0 "length (buf t)"] from_ptr_header [OF assms(1,2)] assms(2) by (simp add: from_ptr_def unat_of_nat)
  moreover have "mem ?s a = mem s a" if "unat a \<notin> {unat p ..< unat p + unat sz}" for a
  proof -
    have "\<not> a - p < of_nat (length b)"
    proof
      assume "a - p < of_nat (length b)"
      then have less: "unat (a - p) < unat sz" by (simp add: len word_less_nat_alt unat_of_nat)
      then have "unat (p + (a - p)) = unat p + unat (a - p)" using assms(5) by (subst unat_add_lem [THEN iffD1]) simp_all
      then show False using less that by simp
    qed
    then show ?thesis by (simp add: store_bytes_def)
  qed
  ultimately show ?thesis using copy by (auto simp: b_def)
qed

section \<open>An example\<close>

text \<open>The smallest header, 40 bytes at \<open>0x88000000\<close>, copied into a page.\<close>

definition header_bytes :: bytes where
  "header_bytes = concat (map (be_bytes 4) [0xD00DFEED, 40, 40, 40, 40, 17, 16, 0, 0, 0])"

definition header_mem :: "usize \<Rightarrow> u64" where
  "header_mem = store_bytes 0x88000000 header_bytes (\<lambda>_. 0)"

lemma header_from_ptr: "from_ptr (cell_byte header_mem) 0x88000000 = Some \<lparr>buf = header_bytes\<rparr>"
proof -
  have len: "length header_bytes = 40" unfolding header_bytes_def concat_be_length by simp
  have rd: "read_bytes (cell_byte header_mem) (0x88000000 + of_nat k) n = take n (drop k header_bytes)" if "k + n \<le> 40" for k n
    unfolding header_mem_def using that len by (intro read_store_bytes) simp_all
  have "take 4 header_bytes = be_bytes 4 0xD00DFEED" "take 4 (drop 4 header_bytes) = be_bytes 4 40"
    by (simp_all add: header_bytes_def del: be_bytes.simps)
  then show ?thesis
    using rd [of 0 4] rd [of 4 4] rd [of 0 40] len u32_from_be_bytes [of "0xD00DFEED"] u32_from_be_bytes [of 40]
    by (simp add: from_ptr_def MAGIC_def)
qed

theorem copy_fdt_correct_witness:
  "\<exists>t' s'. copy_fdt \<lparr>buf = header_bytes\<rparr> 0x80400000 4096 \<lparr>mem = header_mem, phys_off = 0\<rparr> = Some (t', s') \<and>
    from_ptr (cell_byte (mem s')) 0x80400000 = Some \<lparr>buf = header_bytes\<rparr>"
proof -
  have "length header_bytes = 40" unfolding header_bytes_def concat_be_length by simp
  then show ?thesis using copy_fdt_correct [OF header_from_ptr, of "0x80400000" 4096 "\<lparr>mem = header_mem, phys_off = 0\<rparr>"] by auto
qed

end
