(* ===== verification/Byte_Unit.thy ===== *)
theory Byte_Unit
  imports Allocator Fmt
begin

text \<open>
  \<open>crates/kernel/src/unit.rs\<close> and the \<open>Display\<close> instance of \<open>allocator.rs\<close>. An \<open>f32\<close> that comes from a \<open>usize\<close> is an integer, so
  it is the natural number it stands for; its quotient by a power of two is exact, and \<open>{:.2}\<close> rounds the exact quotient to two
  decimals, ties to even.
\<close>

section \<open>Floating point\<close>

fun bit_length :: "nat \<Rightarrow> nat" where
  "bit_length n = (if n = 0 then 0 else Suc (bit_length (n div 2)))"

declare bit_length.simps [simp del]

definition round_div :: "nat \<Rightarrow> nat \<Rightarrow> nat" where
  "round_div a b =
     (let q = a div b; r = a mod b in if 2 * r < b \<or> 2 * r = b \<and> even q then q else q + 1)"

text \<open>\<open>this as f32\<close>: 24 significant bits, to nearest, ties to even.\<close>

definition as_f32 :: "nat \<Rightarrow> nat" where
  "as_f32 n = (let e = bit_length n - 24 in round_div n (2 ^ e) * 2 ^ e)"

text \<open>\<open>{:.2}\<close> of the quotient \<open>x / 2 ^ k\<close>, in hundredths and as text.\<close>

definition hundredths :: "nat \<Rightarrow> nat \<Rightarrow> nat" where
  "hundredths x k = round_div (100 * x) (2 ^ k)"

definition fixed2 :: "nat \<Rightarrow> string" where
  "fixed2 r = dec (r div 100) @ ''.'' @ [digit_char (r mod 100 div 10), digit_char (r mod 10)]"

section \<open>ByteUnit\<close>

definition byte_unit :: "usize \<Rightarrow> string" where
  "byte_unit this =
     (let count = as_f32 (unat this) in
      if this < KIB then pad_left 6 (dec (unat this)) @ '' B''
      else if this < MIB then pad_left 6 (fixed2 (hundredths count 10)) @ '' KiB''
      else if this < GIB then pad_left 6 (fixed2 (hundredths count 20)) @ '' MiB''
      else if this < TIB then pad_left 6 (fixed2 (hundredths count 30)) @ '' GiB''
      else pad_left 6 (fixed2 (hundredths count 40)) @ '' TiB'')"

text \<open>The \<open>Display\<close> instance of \<open>AllocStats\<close>: the texts it writes, in order.\<close>

definition alloc_stats_fmt :: "alloc_stats \<Rightarrow> string list" where
  "alloc_stats_fmt st =
     [name st, [NL]] @ map (\<lambda>_. ''~'') (name st) @
     [[NL], pad_right 11 ''Allocated:'', '' '', byte_unit (allocated st), [NL],
      pad_right 11 ''Free:'', '' '', byte_unit (free st), [NL],
      pad_right 11 ''Total:'', '' '', byte_unit (total st), [NL]] @
     map (\<lambda>_. ''~'') (name st)"

section \<open>The text is accurate\<close>

lemma round_div_error:
  assumes "0 < b"
  shows "2 * a \<le> 2 * (round_div a b * b) + b" "2 * (round_div a b * b) \<le> 2 * a + b"
proof -
  define q where "q = a div b"
  define r where "r = a mod b"
  have "a = b * q + r" "r < b" using assms by (simp_all add: q_def r_def)
  then show "2 * a \<le> 2 * (round_div a b * b) + b" "2 * (round_div a b * b) \<le> 2 * a + b"
    unfolding round_div_def Let_def q_def [symmetric] r_def [symmetric] by (auto simp: algebra_simps)
qed

lemma bit_length_bound: "0 < n \<Longrightarrow> 2 ^ (bit_length n - 1) \<le> n \<and> n < 2 ^ bit_length n"
proof (induction n rule: bit_length.induct)
  case (1 n)
  show ?case
  proof (cases "n = 1")
    case True
    then show ?thesis by (simp add: bit_length.simps [of "Suc 0"] bit_length.simps [of 0])
  next
    case False
    then have h: "0 < n div 2" using 1(2) by linarith
    then have "0 < bit_length (n div 2)" by (subst bit_length.simps) simp
    then obtain k where k: "bit_length (n div 2) = Suc k" by (meson gr0_implies_Suc)
    have "2 ^ k \<le> n div 2" "n div 2 < 2 ^ Suc k" using 1(1) [OF _ h] 1(2) k by auto
    then have "2 ^ Suc k \<le> n" "n < 2 ^ Suc (Suc k)" by auto
    moreover have "bit_length n = Suc (Suc k)" using 1(2) k by (subst bit_length.simps) simp
    ultimately show ?thesis by simp
  qed
qed

lemma as_f32_error:
  assumes "0 < n"
  shows "2 ^ 24 * n \<le> 2 ^ 24 * as_f32 n + n" "2 ^ 24 * as_f32 n \<le> 2 ^ 24 * n + n"
proof -
  define e where "e = bit_length n - 24"
  define r where "r = round_div n (2 ^ e) * 2 ^ e"
  have r: "as_f32 n = r" by (simp add: as_f32_def e_def r_def Let_def)
  have "2 ^ 24 * n \<le> 2 ^ 24 * as_f32 n + n \<and> 2 ^ 24 * as_f32 n \<le> 2 ^ 24 * n + n"
  proof (cases "e = 0")
    case True
    then have "r = n" by (simp add: r_def round_div_def)
    then show ?thesis using r by simp
  next
    case False
    then have "bit_length n - 1 = e + 23" by (simp add: e_def)
    then have "2 ^ (e + 23) \<le> n" using bit_length_bound [OF assms] by simp
    then have "2 ^ e * 2 ^ 23 \<le> n" by (simp add: power_add)
    moreover have "2 * n \<le> 2 * r + 2 ^ e" "2 * r \<le> 2 * n + 2 ^ e" using round_div_error [of "2 ^ e" n] by (simp_all add: r_def)
    ultimately show ?thesis using r by simp
  qed
  then show "2 ^ 24 * n \<le> 2 ^ 24 * as_f32 n + n" "2 ^ 24 * as_f32 n \<le> 2 ^ 24 * n + n" by simp_all
qed

text \<open>Without the point, the text of a number of hundredths is this number.\<close>

lemma fixed2_value: "num_of (filter (\<lambda>c. c \<noteq> CHR ''.'') (fixed2 r)) = r"
proof -
  define d1 d0 where "d1 = r mod 100 div 10" and "d0 = r mod 10"
  have "r mod 100 < 100" by simp
  then have d: "d1 < 10" "d0 < 10" by (simp_all add: d1_def d0_def less_mult_imp_div_less)
  have "r mod 100 mod 10 = d0" by (simp add: d0_def mod_mod_cancel)
  then have r: "r = 100 * (r div 100) + 10 * d1 + d0"
    using div_mult_mod_eq [of r 100] div_mult_mod_eq [of "r mod 100" 10] unfolding d1_def by linarith
  have f: "filter (\<lambda>c. c \<noteq> CHR ''.'') (dec (r div 100)) = dec (r div 100)"
    using dec_no_point [of "r div 100"] by (auto simp: filter_id_conv)
  have "filter (\<lambda>c. c \<noteq> CHR ''.'') (fixed2 r) = (dec (r div 100) @ [digit_char d1]) @ [digit_char d0]"
    using digit_not_point d f by (simp add: fixed2_def d1_def d0_def)
  then have "num_of (filter (\<lambda>c. c \<noteq> CHR ''.'') (fixed2 r)) = 10 * (10 * (r div 100) + d1) + d0"
    using d by (simp only: num_of_snoc num_of_dec digit_val_char)
  also have "\<dots> = 100 * (r div 100) + 10 * d1 + d0" by simp
  finally show ?thesis using r by (rule trans [OF _ sym])
qed

lemma hundredths_error:
  assumes "0 < n" "r = hundredths (as_f32 n) k"
  shows "2 ^ 25 * \<bar>int (r * 2 ^ k) - int (100 * n)\<bar> \<le> int (2 ^ k * 2 ^ 24 + 200 * n)"
proof -
  define x where "x = r * 2 ^ k"
  define u :: nat where "u = 2 ^ k"
  have "2 * (100 * as_f32 n) \<le> 2 * x + u" "2 * x \<le> 2 * (100 * as_f32 n) + u"
    using round_div_error [of "2 ^ k" "100 * as_f32 n"] assms(2) by (simp_all add: hundredths_def x_def u_def)
  then show ?thesis using as_f32_error [OF assms(1)] unfolding x_def [symmetric] unfolding u_def [symmetric] by (simp add: abs_if)
qed

text \<open>C38: \<open>ByteUnit\<close> prints small numbers exactly; a larger one is printed in the largest unit \<open>2 ^ k\<close> that is not above it, as
  hundredths \<open>r\<close> of this unit, and \<open>r * 2 ^ k / 100\<close> is the number up to half a hundredth of the unit and the precision of \<open>f32\<close>.\<close>

theorem byte_unit_accurate:
  "if n < KIB then \<exists>ds. byte_unit n = pad_left 6 ds @ '' B'' \<and> num_of ds = unat n
   else \<exists>k u ds r. (k, u) \<in> {(10, '' KiB''), (20, '' MiB''), (30, '' GiB''), (40, '' TiB'')} \<and>
     byte_unit n = pad_left 6 ds @ u \<and> num_of (filter (\<lambda>c. c \<noteq> CHR ''.'') ds) = r \<and>
     2 ^ k \<le> unat n \<and> (unat n < 2 ^ (k + 10) \<or> k = 40) \<and>
     2 ^ 25 * \<bar>int (r * 2 ^ k) - int (100 * unat n)\<bar> \<le> int (2 ^ k * 2 ^ 24 + 200 * unat n)"
proof (cases "n < KIB")
  case True
  then show ?thesis using num_of_dec by (auto simp: byte_unit_def)
next
  case False
  define P where "P k u \<longleftrightarrow> byte_unit n = pad_left 6 (fixed2 (hundredths (as_f32 (unat n)) k)) @ u \<and>
    2 ^ k \<le> unat n \<and> (unat n < 2 ^ (k + 10) \<or> k = 40)" for k u
  have "P 10 '' KiB'' \<or> P 20 '' MiB'' \<or> P 30 '' GiB'' \<or> P 40 '' TiB''"
    using False by (auto simp: P_def byte_unit_def Let_def word_less_nat_alt)
  then obtain k u where k: "(k, u) \<in> {(10, '' KiB''), (20, '' MiB''), (30, '' GiB''), (40, '' TiB'')}" "P k u" by blast
  have "0 < unat n" using False by (simp add: word_less_nat_alt)
  then show ?thesis
    unfolding if_not_P [OF False] using k(1) k(2) [unfolded P_def] hundredths_error [of "unat n"] fixed2_value by metis
qed

end
