(* ===== verification/Kernel_Main.thy ===== *)
theory Kernel_Main
  imports Fdt_Find Fdt_Copy Byte_Unit Panic
begin

text \<open>
  \<open>crates/kernel/src/main.rs\<close>: the banner, the line of a hart that comes online and the entry points \<open>main\<close> and \<open>hmain\<close>. As in the
  panic handler, the state \<open>'w\<close> is what the firmware and the logger act on; the colours are a parameter.
\<close>

section \<open>The line of a hart\<close>

text \<open>\<open>children().find(...)\<close>: the iterator is run until the first child that satisfies the condition.\<close>

function find_child :: "(node \<Rightarrow> bool) \<Rightarrow> bytes \<Rightarrow> u8 \<Rightarrow> u8 \<Rightarrow> node option option" where
  "find_child P iter node_lvl nesting =
     (case children_next iter node_lvl nesting of
        None \<Rightarrow> None
      | Some (None, _, _) \<Rightarrow> Some None
      | Some (Some c, iter', nesting') \<Rightarrow> if P c then Some (Some c) else find_child P iter' node_lvl nesting')"
  by pat_completeness auto
termination
  by (relation "measure (\<lambda>(P, iter, l, n). length iter)") (auto dest!: children_next_shorter)

declare find_child.simps [simp del]

definition cpu_node :: "device_tree \<Rightarrow> u64 \<Rightarrow> node option option" where
  "cpu_node t hart_id =
     do { cpus \<leftarrow> dt_cpus t;
          nl \<leftarrow> add_chk (node_level cpus) 1;
          find_child (\<lambda>node. unit_address node = Some hart_id) (node_children cpus) (node_level cpus) nl }"

definition text_of :: "bytes \<Rightarrow> string" where
  "text_of bs = map (\<lambda>b. char_of (unat b)) bs"

definition core_isa :: "device_tree \<Rightarrow> u64 \<Rightarrow> string option" where
  "core_isa t hart_id =
     do { node \<leftarrow> cpu_node t hart_id;
          (case node of
             None \<Rightarrow> Some ''Unknown''
           | Some n \<Rightarrow> do {
               p \<leftarrow> node_prop t n (str ''riscv,isa'');
               Some (case p of
                 None \<Rightarrow> ''Unknown''
               | Some p \<Rightarrow> (case as_str p of None \<Rightarrow> ''Unknown'' | Some x \<Rightarrow> text_of x)) }) }"

definition ARCHS :: "string list" where
  "ARCHS = [''Qemu/SiFive'', ''Rocket'', ''BOOM'', ''Ariane'', ''RI5CY'', ''Spike'', ''E-Class'', ''ORCA'', ''SCR1'', ''YARVI'', ''RVBS'', ''SweRV EH1'',
     ''MSCC'', ''BlackParrot'', ''BaseJump Manycore'', ''C-Class'', ''SweRV EL2'', ''SweRV EH2'', ''SERV'', ''NEORV32'']"

fun arch_name :: "(usize, sbi_error) result \<Rightarrow> string" where
  "arch_name (Ok n) = (if unat n < 20 then ARCHS ! unat n else ''Unknown'')"
| "arch_name (Err _) = ''Error''"

definition print_core :: "style \<Rightarrow> hart_context \<Rightarrow> string" where
  "print_core sty c = (if is_bsp c then fg sty Red ''Physical Core'' @ '' '' else ''Physical Core '')"

definition online_pieces :: "style \<Rightarrow> hart_context \<Rightarrow> string \<Rightarrow> string \<Rightarrow> string list" where
  "online_pieces sty c isa arch =
     [print_core sty c, '' '', fg sty Green (dec (unat (ctx_id c))), '' ('', fg sty Magenta isa, '' on '', fg sty Blue arch, '') online'']"

text \<open>The device tree of a context: the bytes of the slice.\<close>

definition ctx_tree :: "hart_context \<Rightarrow> 'a machine_scheme \<Rightarrow> device_tree" where
  "ctx_tree c s = \<lparr>buf = read_bytes (cell_byte (mem s)) (fst (ctx_fdt c)) (unat (snd (ctx_fdt c)))\<rparr>"

text \<open>A log macro in the module \<open>kernel\<close>; the lock of the logger is free.\<close>

definition kernel_log :: "style \<Rightarrow> 'w logger \<Rightarrow> bool \<Rightarrow> level \<Rightarrow> usize \<Rightarrow> string list \<Rightarrow> 'w \<Rightarrow> 'w option" where
  "kernel_log sty wstr installed lvl clock args w =
     map_option (\<lambda>l. case l of Some w' \<Rightarrow> w' | None \<Rightarrow> w) (log_call sty wstr lvl ''kernel'' clock args (if installed then Some w else None))"

definition log_core_online :: "style \<Rightarrow> 'w logger \<Rightarrow> 'w firmware \<Rightarrow> bool \<Rightarrow> usize \<Rightarrow> usize \<Rightarrow> 'a machine_scheme \<Rightarrow> 'w \<Rightarrow> 'w option" where
  "log_core_online sty wstr fw installed clock sscratch s w =
     do { c \<leftarrow> current sscratch s;
          isa \<leftarrow> core_isa (ctx_tree c s) (ctx_id c);
          (r, w1) \<leftarrow> marchid fw w;
          kernel_log sty wstr installed Info clock (online_pieces sty c isa (arch_name r)) w1 }"

section \<open>The entry points\<close>

definition core_count :: "device_tree \<Rightarrow> nat option" where
  "core_count fdt = do { f \<leftarrow> find_nodes fdt (str ''/cpus/cpu@''); ns \<leftarrow> find_nodes_list f; Some (length ns) }"

definition banner :: "style \<Rightarrow> nat \<Rightarrow> usize \<Rightarrow> string list" where
  "banner sty cores tot =
     [fg sty Green ''NovOS'', '' starting with '', dec cores, '' cores and '', byte_unit tot, '' physical memory'']"

text \<open>\<open>main\<close> up to the shutdown that ends it; the three values of the clock are those of the three messages.\<close>

definition main_report :: "style \<Rightarrow> 'w logger \<Rightarrow> 'w firmware \<Rightarrow> bool \<Rightarrow> usize \<times> usize \<times> usize \<Rightarrow> usize \<Rightarrow> device_tree \<Rightarrow> 'a pmem_scheme \<Rightarrow> 'w \<Rightarrow> 'w option" where
  "main_report sty wstr fw installed clocks sscratch fdt s w =
     do { let (c1, c2, c3) = clocks;
          cores \<leftarrow> core_count fdt;
          w1 \<leftarrow> kernel_log sty wstr installed Info c1 (banner sty cores (total (pmem_alloc_stats s))) w;
          w2 \<leftarrow> log_core_online sty wstr fw installed c2 sscratch s w1;
          kernel_log sty wstr installed Debug c3 (alloc_stats_fmt (pmem_alloc_stats s)) w2 }"

definition kernel_main :: "style \<Rightarrow> 'w logger \<Rightarrow> 'w firmware \<Rightarrow> bool \<Rightarrow> usize \<times> usize \<times> usize \<Rightarrow> usize \<Rightarrow> device_tree \<Rightarrow> 'a pmem_scheme \<Rightarrow> 'w \<Rightarrow> unit option" where
  "kernel_main sty wstr fw installed clocks sscratch fdt s w =
     do { w1 \<leftarrow> main_report sty wstr fw installed clocks sscratch fdt s w; shutdown fw w1 }"

text \<open>After its line a secondary hart waits for interrupts forever.\<close>

definition hmain :: "style \<Rightarrow> 'w logger \<Rightarrow> 'w firmware \<Rightarrow> bool \<Rightarrow> usize \<Rightarrow> usize \<Rightarrow> 'a machine_scheme \<Rightarrow> 'w \<Rightarrow> unit option" where
  "hmain sty wstr fw installed clock sscratch s w =
     do { _ \<leftarrow> log_core_online sty wstr fw installed clock sscratch s w; None }"

text \<open>The global allocator of the \<open>alloc\<close> crate refuses every request.\<close>

definition MyAllocator_alloc :: "layout \<Rightarrow> usize" where
  "MyAllocator_alloc l = 0"

section \<open>What the tree says about the harts\<close>

lemma find_child_children: "children_loop iter lv n = Some cs \<Longrightarrow> find_child P iter lv n = Some (find P cs)"
proof (induction "length iter" arbitrary: iter n cs rule: less_induct)
  case less
  note loop = less.prems [unfolded children_loop.simps [of iter]]
  obtain c iter' n' where next_c: "children_next iter lv n = Some (c, iter', n')" using loop by (auto split: option.splits)
  show ?case
  proof (cases c)
    case None
    then show ?thesis using loop next_c by (subst find_child.simps) auto
  next
    case (Some d)
    then obtain cs' where cs': "children_loop iter' lv n' = Some cs'" "cs = d # cs'" using loop next_c by auto
    have "length iter' < length iter" using children_next_shorter next_c Some by blast
    then show ?thesis using less.hyps [OF _ cs'(1)] Some next_c cs'(2) by (subst find_child.simps) simp
  qed
qed

lemma find_all_find_in:
  "ps \<noteq> [] \<Longrightarrow> find_all (ps @ [p]) Ts = (case find_in ps Ts of None \<Rightarrow> [] | Some T \<Rightarrow> filter (\<lambda>k. starts_with (dname k) p) (dkids T))"
proof (induction ps Ts rule: find_in.induct)
  case (2 q ps)
  then show ?case by (cases ps) simp_all
next
  case (3 q ps T Ts)
  then show ?case by (cases ps) auto
qed simp

lemma split_cpus: "split_terminator SLASH (str ''/cpus'') = [[], str ''cpus'']"
  by (simp add: split_terminator_def str_def SLASH_def of_char_def)

lemma split_cpu: "split_terminator SLASH (str ''/cpus/cpu@'') = [[], str ''cpus'', str ''cpu@'']"
  by (simp add: split_terminator_def str_def SLASH_def of_char_def)

text \<open>The number of harts: the children of \<open>/cpus\<close> whose names start with \<open>cpu@\<close>.\<close>

definition cpus_of :: "dtree \<Rightarrow> dtree list" where
  "cpus_of C = filter (\<lambda>k. starts_with (dname k) (str ''cpu@'')) (dkids C)"

lemma find_cpus_enc:
  assumes "tokens t = Some (enc_tree R @ enc_end @ rest)" "tree_ok R" "height R < 255" "find_in [str ''cpus''] (dkids R) = Some C"
  shows "\<exists>f ns. find_nodes t (str ''/cpus/cpu@'') = Some f \<and> find_nodes_list f = Some ns \<and> list_all2 represents ns (cpus_of C)"
proof -
  have "find_in [[], str ''cpus''] [R] = Some C" using assms(4) by simp
  then have "find_all (split_terminator SLASH (str ''/cpus/cpu@'')) [R] = cpus_of C"
    using find_all_find_in [of "[[], str ''cpus'']" "str ''cpu@''" "[R]"] by (simp add: split_cpu cpus_of_def)
  moreover have "split_terminator SLASH (str ''/cpus/cpu@'') \<noteq> []" unfolding split_cpu by simp
  ultimately show ?thesis using find_nodes_spec [OF assms(1-3), of "str ''/cpus/cpu@''"] by simp
qed

lemma core_count_enc:
  assumes "tokens t = Some (enc_tree R @ enc_end @ rest)" "tree_ok R" "height R < 255" "find_in [str ''cpus''] (dkids R) = Some C"
  shows "core_count t = Some (length (cpus_of C))"
  using find_cpus_enc [OF assms] by (auto simp: core_count_def dest: list_all2_lengthD)

text \<open>The instruction set of a hart: the property \<open>riscv,isa\<close> of the first child of \<open>/cpus\<close> with its id as unit address.\<close>

definition kid_address :: "dtree \<Rightarrow> u64 option" where
  "kid_address k = unit_address \<lparr>node_name = dname k, node_level = 0, node_children = []\<rparr>"

definition isa_of :: "(nat \<Rightarrow> bytes) \<Rightarrow> dtree \<Rightarrow> u64 \<Rightarrow> string" where
  "isa_of nm C hart_id =
     (case find (\<lambda>k. kid_address k = Some hart_id) (dkids C) of
        None \<Rightarrow> ''Unknown''
      | Some k \<Rightarrow> (case data_of nm k (str ''riscv,isa'') of
           None \<Rightarrow> ''Unknown''
         | Some d \<Rightarrow> (case next_str_checked d of None \<Rightarrow> ''Unknown'' | Some x \<Rightarrow> text_of x)))"

lemma find_represents:
  "list_all2 (\<lambda>c k. represents c k \<and> Q c) cs ks \<Longrightarrow> (\<And>c k. represents c k \<Longrightarrow> P c = P' k) \<Longrightarrow>
    rel_option represents (find P cs) (find P' ks)"
  by (induction cs ks rule: list_all2_induct) auto

lemma core_isa_enc:
  assumes "tokens t = Some (enc_tree R @ enc_end @ rest)" "tree_ok R" "height R < 255" "find_in [str ''cpus''] (dkids R) = Some C"
    "\<And>k d off. k \<in> set (dkids C) \<Longrightarrow> (d, off) \<in> set (dprops k) \<Longrightarrow> string_at t off = Some (Some (nm off))"
  shows "core_isa t hart_id = Some (isa_of nm C hart_id)"
proof -
  obtain n where n: "dt_cpus t = Some n" "represents n C"
    using find_node_spec [OF assms(1-3), of "str ''/cpus''"] assms(4) by (auto simp: split_cpus dt_cpus_def)
  obtain cs where cs: "children n = Some cs" "list_all2 (\<lambda>c k. represents c k \<and> unat (node_level c) = unat (node_level n) + 1) cs (dkids C)"
    using node_children_spec [OF n(2)] by blast
  let ?P = "\<lambda>c. unit_address c = Some hart_id"
  have node: "cpu_node t hart_id = Some (find ?P cs)"
    using n(1) cs(1) by (auto simp: cpu_node_def children_def split: bind_splits dest: find_child_children)
  have "rel_option represents (find ?P cs) (find (\<lambda>k. kid_address k = Some hart_id) (dkids C))"
    using cs(2) by (rule find_represents) (simp add: represents_def kid_address_def unit_address_def)
  then show ?thesis
  proof (cases rule: option.rel_cases)
    case None
    then show ?thesis using node by (simp add: core_isa_def isa_of_def)
  next
    case (Some c k)
    have "k \<in> set (dkids C)" using Some(2) by (auto simp: find_Some_iff)
    then obtain p where "node_prop t c (str ''riscv,isa'') = Some p" "data_of nm k (str ''riscv,isa'') = map_option prop_data p"
      using node_prop_enc [OF Some(3)] assms(5) by metis
    then show ?thesis using node Some(1,2) by (cases p) (auto simp: core_isa_def isa_of_def as_str_def)
  qed
qed

section \<open>The report of \<open>main\<close>\<close>

lemma digit_char_NL: "d < 10 \<Longrightarrow> digit_char d \<noteq> NL"
  using digit_cases [of d] by (auto simp: digit_char_def NL_def)

lemma dec_NL [simp]: "NL \<notin> set (dec n)"
proof (induction n rule: dec.induct)
  case (1 n)
  then show ?case using digit_char_NL [of n] digit_char_NL [of "n mod 10"] by (subst dec.simps) auto
qed

lemma filter_NL: "NL \<notin> set s \<Longrightarrow> filter ((=) NL) s = []"
  by (induction s) auto

lemma NL_lit: "CHR 0x0A = NL" "NL \<noteq> CHR '' ''" "NL \<noteq> CHR ''.''"
  by (simp_all add: NL_def)

lemma byte_unit_NL [simp]: "NL \<notin> set (byte_unit n)"
proof -
  have f: "NL \<notin> set (fixed2 r)" for r
  proof -
    have "r mod 100 div 10 < 10" "r mod 10 < 10" by (simp_all add: less_mult_imp_div_less)
    then show ?thesis using digit_char_NL [of "r mod 100 div 10"] digit_char_NL [of "r mod 10"] NL_lit(3) by (auto simp: fixed2_def)
  qed
  then show ?thesis using NL_lit(2) f dec_NL [of "unat n"] by (auto simp: byte_unit_def pad_left_def NL_def Let_def)
qed

lemma arch_name_NL [simp]: "NL \<notin> set (arch_name r)"
proof (cases r)
  case (Ok n)
  have "list_all (\<lambda>x. NL \<notin> set x) ARCHS" "length ARCHS = 20" by (simp_all add: ARCHS_def NL_def)
  then show ?thesis using Ok by (auto simp: list_all_length NL_def)
qed (simp add: NL_def)

lemmas no_NL [simp] = dec_NL [unfolded NL_def] byte_unit_NL [unfolded NL_def] arch_name_NL [unfolded NL_def]

text \<open>One message without newlines is one line.\<close>

lemma kernel_log_line:
  assumes "appends wstr out" "asm_time clock = Some t" "NL \<notin> set (concat args)"
  shows "\<exists>w'. kernel_log sty wstr True lvl clock args w = Some w' \<and>
    out w' = out w @ concat (prefix_pieces sty lvl ''kernel'' t) @ concat args @ [NL]"
proof -
  have "length (filter ((=) (CHR 0x0A)) s) \<le> 1" if "s \<in> set args" for s
    using that assms(3) filter_NL [of s] unfolding NL_lit(1) by simp
  then obtain w' where "log_call sty wstr lvl ''kernel'' clock args (Some w) = Some (Some w')"
    "out w' = out w @ concat (map (\<lambda>x. concat (prefix_pieces sty lvl ''kernel'' t) @ x @ [CHR 0x0A]) (lines (concat args)))"
    using log_call_lines [OF assms(1) _ assms(2), unfolded list.map_ident] by blast
  then show ?thesis using assms(3) lines_plain [of "concat args"] by (simp add: kernel_log_def NL_lit(1))
qed

lemma kernel_log_stats:
  assumes "appends wstr out" "asm_time clock = Some t" "NL \<notin> set (name st)"
  shows "\<exists>w'. kernel_log sty wstr True lvl clock (alloc_stats_fmt st) w = Some w' \<and>
    out w' = out w @ concat (map (\<lambda>x. concat (prefix_pieces sty lvl ''kernel'' t) @ x @ [NL]) (lines (concat (alloc_stats_fmt st))))"
proof -
  have plain: "length (filter ((=) NL) s) \<le> 1" if "s = [NL] \<or> NL \<notin> set s" for s
    using that filter_NL [of s] by auto
  have "s = [NL] \<or> NL \<notin> set s" if "s \<in> set (alloc_stats_fmt st)" for s
    using that assms(3) by (auto simp: alloc_stats_fmt_def pad_right_def NL_def)
  then have "\<forall>s \<in> set (alloc_stats_fmt st). length (filter ((=) (CHR 0x0A)) s) \<le> 1" unfolding NL_lit(1) using plain by blast
  then show ?thesis using log_call_lines [OF assms(1) _ assms(2), of "alloc_stats_fmt st" sty lvl "''kernel''" w]
    by (auto simp: kernel_log_def NL_lit(1))
qed


section \<open>An example\<close>

text \<open>A tree with one hart, in memory behind the context of that hart.\<close>

definition cpu_kid :: dtree where
  "cpu_kid = DTree (str ''cpu@0'') [(str ''rv64'' @ [0], 0)] []"

definition cpus_kid :: dtree where
  "cpus_kid = DTree (str ''cpus'') [] [cpu_kid]"

definition cpu_root :: dtree where
  "cpu_root = DTree [] [] [cpus_kid]"

definition cpu_dtb :: device_tree where
  "cpu_dtb = mk_dtb cpu_root (str ''riscv,isa'' @ [0])"

definition cpu_context :: hart_context where
  "cpu_context = \<lparr>ctx_id = 0, trap_stack = 0, temp_sp = 0, ctx_bsp_id = 0, ctx_fdt = (0x2000, of_nat (length (buf cpu_dtb)))\<rparr>"

definition cpu_pmem :: pmem where
  "cpu_pmem = example_pmem\<lparr>
     mem := store_bytes 0x2000 (buf cpu_dtb @ replicate (7 * length (buf cpu_dtb)) 0) (write_context 0x1000 cpu_context (\<lambda>_. 0)),
     stats := \<lparr>name = ''pmem'', allocated = 0, free = 0, total = 0\<rparr>\<rparr>"

lemma cpu_dtb_layout:
  "tokens cpu_dtb = Some (enc_tree cpu_root @ enc_end)" "string_at cpu_dtb 0 = Some (Some (str ''riscv,isa''))" "length (buf cpu_dtb) < 4096"
proof -
  have len: "length (enc_tree cpu_root) + length (str ''riscv,isa'' @ [0]) < 2048"
    by (simp add: cpu_root_def cpus_kid_def cpu_kid_def enc_props_def pad_def str_def)
  then have len': "length (enc_tree cpu_root) + length (str ''riscv,isa'' @ [0]) < 2 ^ 31" by simp
  note lay = mk_dtb_layout [OF len', folded cpu_dtb_def]
  show "tokens cpu_dtb = Some (enc_tree cpu_root @ enc_end)" by (rule lay(1))
  show "string_at cpu_dtb 0 = Some (Some (str ''riscv,isa''))"
    unfolding lay(2) by (simp add: slice_from_def next_str_def str_def of_char_def)
  show "length (buf cpu_dtb) < 4096"
    using len by (simp add: cpu_dtb_def mk_dtb_def Let_def enc_end_def)
qed

lemma cpu_current: "current 0x1000 cpu_pmem = Some cpu_context" "ctx_tree cpu_context cpu_pmem = cpu_dtb"
proof -
  let ?bs = "buf cpu_dtb @ replicate (7 * length (buf cpu_dtb)) 0" and ?h = "write_context 0x1000 cpu_context (\<lambda>_. 0)"
  have len: "length ?bs = 8 * length (buf cpu_dtb)" "length (buf cpu_dtb) < 4096" using cpu_dtb_layout(3) by simp_all
  have "unat (of_nat (length ?bs) :: usize) = length ?bs" using len by (intro unat_of_nat_less) simp
  then have far: "store_bytes 0x2000 ?bs ?h a = ?h a" if "2 ^ 63 \<le> unat (a - 0x2000)" for a
    using that len unfolding store_bytes_def word_less_nat_alt by simp
  have "read_context (store_bytes 0x2000 ?bs ?h) 0x1000 = read_context ?h 0x1000" by (simp add: read_context_def far)
  then show "current 0x1000 cpu_pmem = Some cpu_context"
    by (simp add: current_def try_current_def cpu_pmem_def read_write_context)
  have "unat (of_nat (length (buf cpu_dtb)) :: usize) = length (buf cpu_dtb)" using len(2) by (simp add: unat_of_nat)
  then show "ctx_tree cpu_context cpu_pmem = cpu_dtb"
    using read_store_bytes [of "0x2000" ?bs 0 "length (buf cpu_dtb)" ?h] len
    by (simp add: ctx_tree_def cpu_context_def cpu_pmem_def)
qed


end
