(* ===== verification/Boot_Harts.thy ===== *)
theory Boot_Harts
  imports Boot_Stack Kernel_Main
begin

unbundle bit_operations_syntax

text \<open>
  \<open>crates/kernel/src/boot/harts.rs\<close>: how the boot hart starts the other harts of the device tree. Each of them gets a stack, at whose end its
  arguments are stored through the new mapping, and is started by the firmware at \<open>hart_entry\<close> with the physical address of the
  arguments. The call of \<open>boot_all_harts\<close> in \<open>rust_trampoline\<close> is commented out; the functions are modelled as they are written.
\<close>

section \<open>The arguments of a hart\<close>

record hart_args =
  ha_satp :: u64
  ha_vstack :: u64
  ha_boot_hart :: u64
  ha_fdt :: "usize \<times> usize"

text \<open>The \<open>repr(C)\<close> layout: five doublewords, the device tree is a slice (pointer and length).\<close>

definition args_words :: "hart_args \<Rightarrow> u64 list" where
  "args_words a = [ha_satp a, ha_vstack a, ha_boot_hart a, fst (ha_fdt a), snd (ha_fdt a)]"

text \<open>
  A store of the kernel to a virtual address outside of the window of physical memory: the address is translated by the page table in
  use, and the physical address is the cell that the window shows. A page that is missing or read-only faults.
\<close>

definition store_virt :: "page_table \<Rightarrow> usize \<Rightarrow> u64 \<Rightarrow> 'a kernel_scheme \<Rightarrow> 'a kernel_scheme option" where
  "store_virt pt v x s =
     do { r \<leftarrow> translate mode_Sv48 s pt v;
          (p, _, flags) \<leftarrow> r;
          _ \<leftarrow> (if flags AND FLAG_WRITE = 0 then None else Some ());
          a \<leftarrow> phys2virt s p;
          Some (s\<lparr>mem := (mem s)(a := x)\<rparr>) }"

fun store_words :: "page_table \<Rightarrow> usize \<Rightarrow> u64 list \<Rightarrow> 'a kernel_scheme \<Rightarrow> 'a kernel_scheme option" where
  "store_words pt v [] s = Some s"
| "store_words pt v (x # xs) s = do { s1 \<leftarrow> store_virt pt v x s; store_words pt (v + 8) xs s1 }"

section \<open>Starting the harts\<close>

text \<open>\<open>{:?}\<close> of an error of the firmware.\<close>

fun sbi_error_debug :: "sbi_error \<Rightarrow> string" where
  "sbi_error_debug Failed = ''Failed''"
| "sbi_error_debug NotSupported = ''NotSupported''"
| "sbi_error_debug InvalidParam = ''InvalidParam''"
| "sbi_error_debug Denied = ''Denied''"
| "sbi_error_debug InvalidAddressErr = ''InvalidAddress''"
| "sbi_error_debug AlreadyAvailable = ''AlreadyAvailable''"
| "sbi_error_debug (Unknown c) = ''Unknown('' @ (if sint c < 0 then ''-'' else []) @ dec (nat \<bar>sint c\<bar>) @ '')''"

definition harts_log :: "style \<Rightarrow> 'w logger \<Rightarrow> bool \<Rightarrow> level \<Rightarrow> usize \<Rightarrow> string list \<Rightarrow> 'w \<Rightarrow> 'w option" where
  "harts_log sty wstr installed lvl clock args w =
     map_option (\<lambda>l. case l of Some w' \<Rightarrow> w' | None \<Rightarrow> w)
       (log_call sty wstr lvl ''kernel::boot::harts'' clock args (if installed then Some w else None))"

text \<open>What the loop uses: the logger and its clock, the firmware, \<open>sscratch\<close>, the address of \<open>hart_entry\<close> and the arguments of
  \<open>boot_all_harts\<close>.\<close>

record 'w harts_env =
  he_style :: style
  he_logger :: "'w logger"
  he_installed :: bool
  he_clock :: "u32 \<Rightarrow> usize"
  he_fw :: "'w firmware"
  he_sscratch :: usize
  he_entry :: usize
  he_hart_id :: usize
  he_satp :: u64

text \<open>The body of the loop for one hart. The guard of the page table panics when there is no table.\<close>

definition start_hart :: "'w harts_env \<Rightarrow> u32 \<Rightarrow> page_table option \<times> 'a kernel_scheme \<times> 'w \<Rightarrow> (page_table option \<times> 'a kernel_scheme \<times> 'w) option" where
  "start_hart e hart st =
     do { let (table, s, w) = st;
          pt \<leftarrow> table;
          ((pe, ve), pt1, s1) \<leftarrow> alloc_kernel_stack pt (ucast hart) s;
          let pstack = pe - 40;
          let vstack = ve - 40;
          c \<leftarrow> current (he_sscratch e) s1;
          let args = \<lparr>ha_satp = he_satp e, ha_vstack = vstack, ha_boot_hart = he_hart_id e, ha_fdt = ctx_fdt c\<rparr>;
          s2 \<leftarrow> store_words pt1 vstack (args_words args) s1;
          (r, w1) \<leftarrow> hsm_start (he_fw e) w (ucast hart) (he_entry e) pstack;
          w2 \<leftarrow> (case r of
             Ok _ \<Rightarrow> Some w1
           | Err err \<Rightarrow> harts_log (he_style e) (he_logger e) (he_installed e) Warn (he_clock e hart)
               [fg (he_style e) Yellow ''Failed'', '' to boot hart '', dec (unat hart), '': '', sbi_error_debug err] w1);
          Some (Some pt1, s2, w2) }"

text \<open>\<open>cpu.prop("reg")?.as_u32()\<close>\<close>

definition hart_reg :: "device_tree \<Rightarrow> node \<Rightarrow> u32 option option" where
  "hart_reg fdt cpu = do { p \<leftarrow> node_prop fdt cpu (str ''reg''); Some (case p of None \<Rightarrow> None | Some p \<Rightarrow> as_u32 p) }"

function harts_loop :: "'w harts_env \<Rightarrow> device_tree \<Rightarrow> finder \<Rightarrow> page_table option \<times> 'a kernel_scheme \<times> 'w \<Rightarrow> (page_table option \<times> 'a kernel_scheme \<times> 'w) option" where
  "harts_loop e fdt f st =
     (case find_nodes_next f of
        None \<Rightarrow> None
      | Some (None, _) \<Rightarrow> Some st
      | Some (Some cpu, f') \<Rightarrow>
          (case hart_reg fdt cpu of
             None \<Rightarrow> None
           | Some None \<Rightarrow> harts_loop e fdt f' st
           | Some (Some hart) \<Rightarrow>
               if ucast hart = he_hart_id e then harts_loop e fdt f' st
               else (case start_hart e hart st of None \<Rightarrow> None | Some st' \<Rightarrow> harts_loop e fdt f' st')))"
  by pat_completeness auto
termination
  by (relation "measure (\<lambda>(e, fdt, f, st). length (f_iter f))") (auto dest!: find_nodes_next_shorter)

declare harts_loop.simps [simp del]

definition boot_all_harts :: "'w harts_env \<Rightarrow> device_tree \<Rightarrow> 'a kernel_scheme \<times> 'w \<Rightarrow> ('a kernel_scheme \<times> 'w) option" where
  "boot_all_harts e fdt st =
     do { let (s, w) = st;
          f \<leftarrow> find_nodes fdt (str ''/cpus/cpu@'');
          _ \<leftarrow> (if root_locked s then None else Some ());
          (pt, s1, w1) \<leftarrow> harts_loop e fdt f (root_table s, s\<lparr>root_locked := True\<rparr>, w);
          Some (s1\<lparr>root_table := pt, root_locked := False\<rparr>, w1) }"

text \<open>Where a started hart arrives; it never leaves its loop.\<close>

definition rust_hart_entry :: "style \<Rightarrow> 'w logger \<Rightarrow> bool \<Rightarrow> usize \<Rightarrow> u64 \<Rightarrow> usize \<Rightarrow> 'w \<Rightarrow> unit option" where
  "rust_hart_entry sty wstr installed clock hart_id args w =
     do { _ \<leftarrow> harts_log sty wstr installed Debug clock [''HI''] w; None }"

section \<open>Which harts are started\<close>

text \<open>The harts of the tree other than this one: the first cell of \<open>reg\<close> of every child of \<open>/cpus\<close> whose name starts with \<open>cpu@\<close>.\<close>

definition other_harts :: "(nat \<Rightarrow> bytes) \<Rightarrow> dtree \<Rightarrow> usize \<Rightarrow> u32 list" where
  "other_harts nm C hart_id =
     filter (\<lambda>h. ucast h \<noteq> hart_id) (List.map_filter (\<lambda>k. case data_of nm k (str ''reg'') of None \<Rightarrow> None | Some d \<Rightarrow> u32_from_be d) (cpus_of C))"

fun start_all :: "'w harts_env \<Rightarrow> u32 list \<Rightarrow> page_table option \<times> 'a kernel_scheme \<times> 'w \<Rightarrow> (page_table option \<times> 'a kernel_scheme \<times> 'w) option" where
  "start_all e [] st = Some st"
| "start_all e (h # hs) st = do { st' \<leftarrow> start_hart e h st; start_all e hs st' }"

definition hart_ids :: "device_tree \<Rightarrow> usize \<Rightarrow> node list \<Rightarrow> u32 list" where
  "hart_ids fdt hart_id ns = filter (\<lambda>h. ucast h \<noteq> hart_id) (List.map_filter (\<lambda>n. the (hart_reg fdt n)) ns)"

lemma harts_loop_list:
  "find_nodes_list f = Some ns \<Longrightarrow> \<forall>n \<in> set ns. hart_reg fdt n \<noteq> None \<Longrightarrow> harts_loop e fdt f st = start_all e (hart_ids fdt (he_hart_id e) ns) st"
proof (induction "length (f_iter f)" arbitrary: f ns st rule: less_induct)
  case less
  note lst = less.prems(1) [unfolded find_nodes_list.simps [of f]]
  obtain c f' where nx: "find_nodes_next f = Some (c, f')" using lst by (auto split: option.splits)
  show ?case
  proof (cases c)
    case None
    then show ?thesis using lst nx by (subst harts_loop.simps) (auto simp: hart_ids_def List.map_filter_def)
  next
    case (Some n)
    then obtain ns' where ns': "find_nodes_list f' = Some ns'" "ns = n # ns'" using lst nx by auto
    have "length (f_iter f') < length (f_iter f)" using find_nodes_next_shorter nx Some by blast
    note ih = less.hyps [OF this ns'(1)]
    obtain r where r: "hart_reg fdt n = Some r" using less.prems(2) ns'(2) by auto
    show ?thesis
      using ih less.prems(2) nx Some r ns'(2)
      by (subst harts_loop.simps) (auto simp: hart_ids_def List.map_filter_def split: option.splits bind_splits)
  qed
qed

lemma hart_reg_enc:
  assumes "represents n k" "\<And>d off. (d, off) \<in> set (dprops k) \<Longrightarrow> string_at t off = Some (Some (nm off))"
  shows "hart_reg t n = Some (case data_of nm k (str ''reg'') of None \<Rightarrow> None | Some d \<Rightarrow> u32_from_be d)"
proof -
  obtain p where "node_prop t n (str ''reg'') = Some p" "data_of nm k (str ''reg'') = map_option prop_data p"
    using node_prop_enc [OF assms(1)] assms(2) by metis
  then show ?thesis by (cases p) (auto simp: hart_reg_def as_u32_def)
qed

text \<open>C26: On the encoding of a tree with a node \<open>/cpus\<close>, \<open>boot_all_harts\<close> takes the lock of the page table and starts every hart of the tree
  other than its own, each once and in the order of the tree, and releases the lock.\<close>

theorem boot_all_harts_order:
  fixes s :: "'a kernel_scheme"
  assumes "tokens t = Some (enc_tree R @ enc_end @ rest)" "tree_ok R" "height R < 255" "find_in [str ''cpus''] (dkids R) = Some C"
    "\<And>k d off. k \<in> set (cpus_of C) \<Longrightarrow> (d, off) \<in> set (dprops k) \<Longrightarrow> string_at t off = Some (Some (nm off))" "\<not> root_locked s"
  shows "boot_all_harts e t (s, w) =
    map_option (\<lambda>(pt, s1, w1). (s1\<lparr>root_table := pt, root_locked := False\<rparr>, w1))
      (start_all e (other_harts nm C (he_hart_id e)) (root_table s, s\<lparr>root_locked := True\<rparr>, w))"
proof -
  obtain f ns where f: "find_nodes t (str ''/cpus/cpu@'') = Some f" "find_nodes_list f = Some ns" "list_all2 represents ns (cpus_of C)"
    using find_cpus_enc [OF assms(1-4)] by blast
  have reg: "hart_reg t n = Some (case data_of nm k (str ''reg'') of None \<Rightarrow> None | Some d \<Rightarrow> u32_from_be d)"
    if "represents n k" "k \<in> set (cpus_of C)" for n k
    using hart_reg_enc [OF that(1)] assms(5) that(2) by blast
  have "list_all2 (\<lambda>n k. hart_reg t n = Some (case data_of nm k (str ''reg'') of None \<Rightarrow> None | Some d \<Rightarrow> u32_from_be d)) ns (cpus_of C)"
    using f(3) reg by (auto simp: list_all2_conv_all_nth)
  then have "hart_ids t (he_hart_id e) ns = other_harts nm C (he_hart_id e)" "\<forall>n \<in> set ns. hart_reg t n \<noteq> None"
    unfolding hart_ids_def other_harts_def by (induction rule: list_all2_induct) (auto simp: List.map_filter_def)
  then show ?thesis
    using f(1) harts_loop_list [OF f(2), of t e "(root_table s, s\<lparr>root_locked := True\<rparr>, w)"] assms(6)
    by (cases "start_all e (other_harts nm C (he_hart_id e)) (root_table s, s\<lparr>root_locked := True\<rparr>, w)") (auto simp: boot_all_harts_def)
qed

section \<open>A started hart\<close>

lemma write_flag: "STACK_FLAGS AND FLAG_WRITE \<noteq> 0"
proof -
  have "bit (STACK_FLAGS AND FLAG_WRITE) 2" by (simp add: bit_and_iff bit_or_iff FLAG_WRITE_def)
  then show ?thesis by auto
qed

lemma store_virt_ok:
  fixes s :: "'a kernel_scheme" and x :: u64
  assumes "paging_inv mode_Sv48 s pt fl" "B \<inter> (free_bytes fl \<union> table_bytes mode_Sv48 s pt) = {}"
    "unat p \<in> B" "unat p + unat (phys_off s) < 2 ^ 64" "translate mode_Sv48 s pt v = Some (Some (p, sz, STACK_FLAGS))"
  defines "s1 \<equiv> s\<lparr>mem := (mem s)(p + phys_off s := x)\<rparr>"
  shows "store_virt pt v x s = Some s1" "paging_inv mode_Sv48 s1 pt fl" "table_bytes mode_Sv48 s1 pt = table_bytes mode_Sv48 s pt"
    "translate mode_Sv48 s1 pt w = translate mode_Sv48 s pt w"
proof -
  show "store_virt pt v x s = Some s1" using assms(4,5) write_flag phys2virt_eq [of p s] by (simp add: store_virt_def s1_def)
  have out: "mem s1 (y + phys_off s) = mem s (y + phys_off s)" if "unat y \<notin> B" for y
    using that assms(3) by (auto simp: s1_def)
  have b: "buddy_inv s fl" using assms(1) by (simp add: paging_inv_def)
  have "mem s1 (y + phys_off s) = mem s (y + phys_off s)" if "unat y \<in> free_bytes fl" for y
    using out that assms(2) by blast
  then have "buddy_inv s1 fl" unfolding s1_def by (intro buddy_inv_mem [OF b]) (simp add: s1_def)
  moreover have "mem s1 (y + phys_off s) = mem s (y + phys_off s)" if "unat y \<in> table_bytes mode_Sv48 s pt" for y
    using out that assms(2) by blast
  moreover have "phys_off s1 = phys_off s" by (simp add: s1_def)
  ultimately show "paging_inv mode_Sv48 s1 pt fl" "table_bytes mode_Sv48 s1 pt = table_bytes mode_Sv48 s pt"
    "translate mode_Sv48 s1 pt w = translate mode_Sv48 s pt w"
    using paging_frame [OF assms(1), of s1 fl] table_bytes_free [OF assms(1)] assms(1) by (auto simp: paging_inv_def)
qed

lemma store_words_ok:
  fixes s :: "'a kernel_scheme"
  assumes "paging_inv mode_Sv48 s pt fl" "B \<inter> (free_bytes fl \<union> table_bytes mode_Sv48 s pt) = {}" "length xs \<le> 512"
    "\<And>i. i < length xs \<Longrightarrow> unat (p + 8 * of_nat i) \<in> B \<and> unat (p + 8 * of_nat i) + unat (phys_off s) < 2 ^ 64 \<and>
      translate mode_Sv48 s pt (v + 8 * of_nat i) = Some (Some (p + 8 * of_nat i, sz, STACK_FLAGS))"
  shows "\<exists>s'. store_words pt v xs s = Some s' \<and> paging_inv mode_Sv48 s' pt fl \<and> phys_off s' = phys_off s \<and> machine.more s' = machine.more s \<and>
    (\<forall>w. translate mode_Sv48 s' pt w = translate mode_Sv48 s pt w) \<and> table_bytes mode_Sv48 s' pt = table_bytes mode_Sv48 s pt \<and>
    (\<forall>i<length xs. mem s' (p + 8 * of_nat i + phys_off s) = xs ! i) \<and>
    (\<forall>a. (\<forall>i<length xs. a \<noteq> p + 8 * of_nat i + phys_off s) \<longrightarrow> mem s' a = mem s a)"
  using assms
proof (induction xs arbitrary: v p s)
  case (Cons x xs)
  define s1 where "s1 = s\<lparr>mem := (mem s)(p + phys_off s := x)\<rparr>"
  have p: "unat p \<in> B" "unat p + unat (phys_off s) < 2 ^ 64" "translate mode_Sv48 s pt v = Some (Some (p, sz, STACK_FLAGS))"
    using Cons.prems(4) [of 0] by simp_all
  note st = store_virt_ok [OF Cons.prems(1,2) p, of x, folded s1_def]
  note s1 = st(2-4)
  have off: "phys_off s1 = phys_off s" by (simp add: s1_def)
  have sh: "q + 8 + 8 * of_nat i = q + 8 * of_nat (Suc i)" for q :: usize and i by (simp add: algebra_simps)
  obtain s' where s': "store_words pt (v + 8) xs s1 = Some s'" "paging_inv mode_Sv48 s' pt fl" "phys_off s' = phys_off s1" "machine.more s' = machine.more s1"
    "\<forall>w. translate mode_Sv48 s' pt w = translate mode_Sv48 s1 pt w" "table_bytes mode_Sv48 s' pt = table_bytes mode_Sv48 s1 pt"
    "\<forall>i<length xs. mem s' (p + 8 + 8 * of_nat i + phys_off s1) = xs ! i"
    "\<forall>a. (\<forall>i<length xs. a \<noteq> p + 8 + 8 * of_nat i + phys_off s1) \<longrightarrow> mem s' a = mem s1 a"
  proof (rule exE [OF Cons.IH [of s1 "p + 8" "v + 8"]])
    fix i assume "i < length xs"
    then show "unat (p + 8 + 8 * of_nat i) \<in> B \<and> unat (p + 8 + 8 * of_nat i) + unat (phys_off s1) < 2 ^ 64 \<and>
        translate mode_Sv48 s1 pt (v + 8 + 8 * of_nat i) = Some (Some (p + 8 + 8 * of_nat i, sz, STACK_FLAGS))"
      unfolding sh s1(3) off using Cons.prems(4) [of "Suc i"] by simp
  qed (use s1 Cons.prems(2,3) in auto)
  have ne: "p + phys_off s \<noteq> p + 8 + 8 * of_nat i + phys_off s1" if "i < length xs" for i
  proof
    assume "p + phys_off s = p + 8 + 8 * of_nat i + phys_off s1"
    then have "of_nat (8 * Suc i) = (0 :: usize)" unfolding off sh by simp
    moreover have "unat (of_nat (8 * Suc i) :: usize) = 8 * Suc i" using that Cons.prems(3) by (intro unat_of_nat_less) simp
    ultimately show False by simp
  qed
  have "mem s' (p + 8 * of_nat i + phys_off s) = (x # xs) ! i" if "i < length (x # xs)" for i
  proof (cases i)
    case 0
    then show ?thesis using s'(8) ne by (simp add: s1_def)
  next
    case (Suc j)
    then show ?thesis using s'(7) that unfolding off sh by simp
  qed
  moreover have "mem s' a = mem s a" if a: "\<forall>i<length (x # xs). a \<noteq> p + 8 * of_nat i + phys_off s" for a
  proof -
    have "a \<noteq> p + phys_off s" using a [rule_format, of 0] by simp
    moreover have "a \<noteq> p + 8 + 8 * of_nat i + phys_off s1" if "i < length xs" for i
      using a [rule_format, of "Suc i"] that unfolding off sh by simp
    ultimately show ?thesis using s'(8) by (simp add: s1_def)
  qed
  ultimately show ?case using st(1) s'(1-6) s1 off by (auto simp: s1_def)
qed simp

lemma read_context_cong: "(\<And>i. i < 6 \<Longrightarrow> h (p + 8 * of_nat i) = h' (p + 8 * of_nat i)) \<Longrightarrow> read_context h p = read_context h' p"
proof -
  assume h: "\<And>i. i < 6 \<Longrightarrow> h (p + 8 * of_nat i) = h' (p + 8 * of_nat i)"
  show ?thesis using h [of 0] h [of 1] h [of 2] h [of 3] h [of 4] h [of 5] by (simp add: read_context_def)
qed

lemma current_cong:
  assumes "\<And>i. i < 6 \<Longrightarrow> mem s' (p + 8 * of_nat i) = mem s (p + 8 * of_nat i)"
  shows "current p s' = current p s"
  using read_context_cong [of "mem s'" p "mem s", OF assms] by (simp add: current_def try_current_def)

text \<open>What \<open>hart_entry\<close> does with the arguments.\<close>

lemma hart_entry_run:
  assumes "hmem hs = h" "xreg hs 11 = p" "hs' = run (hart_entry gp dst) hs"
  shows "xreg hs' 2 = h (p + 8)" "xreg hs' 11 = h (p + 8)" "xreg hs' 5 = h p" "xreg hs' 10 = xreg hs 10" "csrs hs' Stvec = dst" "hmem hs' = h"
  using assms by (simp_all add: hart_entry_def run_def wr_def wcsr_def addr_def)

text \<open>The last bytes of the stack: the physical and the virtual address of the arguments.\<close>

definition args_at :: "usize \<Rightarrow> usize" where
  "args_at start = start + KERNEL_STACK_SIZE - 40"

lemma args_at_cell:
  assumes "unat start + 2 ^ 20 \<le> 2 ^ 60" "i < 5"
  shows "unat (args_at start + 8 * of_nat i) = unat start + 2 ^ 20 - 40 + 8 * i"
proof -
  define n where "n = 2 ^ 20 - 40 + 8 * i"
  have eq: "args_at start + 8 * of_nat i = start + of_nat n" by (simp add: args_at_def KERNEL_STACK_SIZE_def n_def)
  have n: "n < 2 ^ 20" using assms(2) by (simp add: n_def)
  have "unat (of_nat n :: usize) = n" using n by (intro unat_of_nat_less) simp
  then have "unat (args_at start + 8 * of_nat i) = unat start + n" unfolding eq using assms(1) n by (subst unat_add_lem [THEN iffD1]) simp_all
  then show ?thesis by (simp add: n_def)
qed

lemma stack_end:
  assumes "unat hart_id < 181 * 2 ^ 20"
  shows "unat (stack_start hart_id + KERNEL_STACK_SIZE) = unat (stack_start hart_id) + 2 ^ 20"
proof -
  have "unat (stack_start hart_id) + 2 ^ 20 \<le> 2 ^ 48" unfolding unat_stack_start(1) [OF assms] using assms by simp
  then show ?thesis by (subst unat_add_lem [THEN iffD1]) (simp_all add: unat_STACK_SIZE)
qed

text \<open>The words of the arguments lie in the block of the stack, and the virtual stack is mapped to them.\<close>

lemma stack_cells:
  assumes "block_ok off 8 b" "block_bytes 8 b \<subseteq> {..<2 ^ 56}" "unat h < 181 * 2 ^ 20" "i < 5"
    "\<And>w. w\<le>MAX_ADDRESS mode_Sv48 \<Longrightarrow> stack_start h \<le> w \<Longrightarrow> w < stack_start h + KERNEL_STACK_SIZE \<Longrightarrow>
      translate mode_Sv48 s pt w = Some (Some (b + (w - stack_start h), Kilopage, STACK_FLAGS))"
  shows "unat (args_at b + 8 * of_nat i) \<in> block_bytes 8 b" "unat (args_at b + 8 * of_nat i) + unat off < 2 ^ 64"
    "translate mode_Sv48 s pt (args_at (stack_start h) + 8 * of_nat i) = Some (Some (args_at b + 8 * of_nat i, Kilopage, STACK_FLAGS))"
proof -
  have "unat b + (2 ^ 20 - 1) < 2 ^ 56" using subsetD [OF assms(2), of "unat b + (2 ^ 20 - 1)"] by (simp add: block_bytes_def)
  then have top: "unat b + 2 ^ 20 \<le> 2 ^ 60" by simp
  have c: "unat (stack_start h) + 2 ^ 20 \<le> 2 ^ 48" "unat (stack_start h) + 2 ^ 20 \<le> 2 ^ 60" unfolding unat_stack_start(1) [OF assms(3)] using assms(3) by simp_all
  have "unat b + 2 ^ 20 + unat off \<le> 2 ^ 64" using assms(1) by (simp add: block_ok_def)
  then show "unat (args_at b + 8 * of_nat i) \<in> block_bytes 8 b" "unat (args_at b + 8 * of_nat i) + unat off < 2 ^ 64"
    using args_at_cell [OF top assms(4)] assms(4) by (simp_all add: block_bytes_def)
  let ?w = "args_at (stack_start h) + 8 * of_nat i"
  have w: "unat ?w = unat (stack_start h) + 2 ^ 20 - 40 + 8 * i" "?w - stack_start h = args_at b + 8 * of_nat i - b"
    using args_at_cell [OF c(2) assms(4)] by (simp_all add: args_at_def)
  have "stack_start h \<le> ?w" "?w < stack_start h + KERNEL_STACK_SIZE" "?w \<le> MAX_ADDRESS mode_Sv48"
    using w(1) c(1) assms(4) stack_end [OF assms(3)] by (simp_all add: word_le_nat_alt word_less_nat_alt mode_Sv48_def)
  then show "translate mode_Sv48 s pt ?w = Some (Some (args_at b + 8 * of_nat i, Kilopage, STACK_FLAGS))" using assms(5) w(2) by simp
qed

text \<open>A hart that enters with the physical address of the arguments ends up with its virtual stack, and finds the arguments there.\<close>

lemma hart_reads_args:
  assumes "hmem hs = (\<lambda>p. mem s (p + phys_off s))" "xreg hs 11 = args_at b" "\<And>i. i < 5 \<Longrightarrow> mem s (args_at b + 8 * of_nat i + phys_off s) = args ! i"
    "\<And>i. i < 5 \<Longrightarrow> translate mode_Sv48 s pt (v + 8 * of_nat i) = Some (Some (args_at b + 8 * of_nat i, Kilopage, STACK_FLAGS))"
    "args = [satp, v, boot_hart, fdt, len]"
  shows "let hs' = run (hart_entry gp dst) hs
    in xreg hs' 2 = v \<and> xreg hs' 11 = v \<and> xreg hs' 10 = xreg hs 10 \<and> xreg hs' 5 = satp \<and> csrs hs' Stvec = dst \<and>
       (\<forall>i<5. \<exists>p. translate mode_Sv48 s pt (v + 8 * of_nat i) = Some (Some (p, Kilopage, STACK_FLAGS)) \<and> hmem hs' p = args ! i)"
proof -
  have "mem s (args_at b + phys_off s) = satp" "mem s (args_at b + 8 + phys_off s) = v"
    using assms(3) [of 0] assms(3) [of 1] by (simp_all add: assms(5))
  moreover have "\<forall>i<5. \<exists>p. translate mode_Sv48 s pt (v + 8 * of_nat i) = Some (Some (p, Kilopage, STACK_FLAGS)) \<and> mem s (p + phys_off s) = args ! i"
    using assms(3,4) by blast
  ultimately show ?thesis using hart_entry_run [OF assms(1,2) refl, of gp dst] by (simp add: Let_def)
qed

text \<open>C14: Starting a hart. Under the conditions of \<open>alloc_kernel_stack\<close>, with a context of the boot hart that lies neither in free memory nor in a
  page table, and with a firmware that accepts the call, the body of the loop returns and has asked the firmware to start this hart
  at \<open>hart_entry\<close> with the physical address of its arguments. In the memory at this moment the new hart, which runs without paging, ends
  up in \<open>hart_entry\<close> with its virtual stack in \<open>sp\<close> and \<open>a1\<close>, the value for \<open>satp\<close> in \<open>t0\<close> and its trap vector set; through the page table
  that \<open>satp\<close> names, \<open>a1\<close> is the address of the five words of its arguments. The context of the boot hart is as it was.\<close>

theorem start_hart_correct:
  fixes s :: "'a kernel_scheme"
  assumes inv: "paging_inv mode_Sv48 s pt fl" and room: "length (subtables pt) + 3 \<le> sub_cap pt" "8 \<le> j" "j < 12" "fl ! j \<noteq> []"
      "2 ^ 20 + 4096 * 3 < card (free_bytes fl)" "unat hart < 181 * 2 ^ 20"
    and unmapped: "\<And>w. stack_start (ucast hart) \<le> w \<Longrightarrow> w < stack_start (ucast hart) + KERNEL_STACK_SIZE \<Longrightarrow> translate mode_Sv48 s pt w = Some None"
    and ctx: "current (he_sscratch e) s = Some c" "\<And>i. i < 6 \<Longrightarrow> unat (he_sscratch e + 8 * of_nat i - phys_off s) \<notin> free_bytes fl \<union> table_bytes mode_Sv48 s pt"
    and fw: "\<And>p. hsm_start (he_fw e) w (ucast hart) (he_entry e) p = Some (Ok (), started p)"
  shows "\<exists>b pt' s' fl'. start_hart e hart (Some pt, s, w) = Some (Some pt', s', started (args_at b)) \<and>
    paging_inv mode_Sv48 s' pt' fl' \<and> block_bytes 8 b \<subseteq> free_bytes fl \<and> free_bytes fl' \<inter> block_bytes 8 b = {} \<and> current (he_sscratch e) s' = Some c \<and>
    (\<forall>hs gp dst. hmem hs = (\<lambda>p. mem s' (p + phys_off s')) \<longrightarrow> xreg hs 11 = args_at b \<longrightarrow>
      (let hs' = run (hart_entry gp dst) hs; v = args_at (stack_start (ucast hart))
       in xreg hs' 2 = v \<and> xreg hs' 11 = v \<and> xreg hs' 10 = xreg hs 10 \<and> xreg hs' 5 = he_satp e \<and> csrs hs' Stvec = dst \<and>
          (\<forall>i<5. \<exists>p. translate mode_Sv48 s' pt' (v + 8 * of_nat i) = Some (Some (p, Kilopage, STACK_FLAGS)) \<and>
            hmem hs' p = [he_satp e, v, he_hart_id e, fst (ctx_fdt c), snd (ctx_fdt c)] ! i)))"
proof -
  let ?h = "ucast hart :: u64"
  let ?v = "args_at (stack_start ?h)"
  have h: "unat ?h < 181 * 2 ^ 20" using room(6) by (simp add: unsigned_ucast_eq take_bit_nat_eq_self)
  obtain b pt1 s1 fl1 where a: "alloc_kernel_stack pt ?h s = Some ((b + KERNEL_STACK_SIZE, stack_start ?h + KERNEL_STACK_SIZE), pt1, s1)"
    "paging_inv mode_Sv48 s1 pt1 fl1" "block_ok (phys_off s) 8 b" "block_bytes 8 b \<subseteq> free_bytes fl" "free_bytes fl1 \<inter> block_bytes 8 b = {}"
    "table_bytes mode_Sv48 s1 pt1 \<inter> block_bytes 8 b = {}"
    "\<And>w. w\<le>MAX_ADDRESS mode_Sv48 \<Longrightarrow> translate mode_Sv48 s1 pt1 w =
      (if stack_start ?h \<le> w \<and> w < stack_start ?h + KERNEL_STACK_SIZE
       then Some (Some (b + (w - stack_start ?h), Kilopage, STACK_FLAGS)) else translate mode_Sv48 s pt w)" "phys_off s1 = phys_off s"
    "\<And>x. unat x \<notin> free_bytes fl \<union> table_bytes mode_Sv48 s pt \<Longrightarrow> mem s1 (x + phys_off s) = mem s (x + phys_off s)"
    by (rule alloc_kernel_stack_spec [OF inv room(1-5) h]) (use unmapped in blast)+
  have low: "block_bytes 8 b \<subseteq> {..<2 ^ 56}" using a(4) inv unfolding paging_inv_def by blast
  note cells = stack_cells [OF a(3) low h, where s = s1 and pt = pt1]
  have cells: "unat (args_at b + 8 * of_nat i) \<in> block_bytes 8 b" "unat (args_at b + 8 * of_nat i) + unat (phys_off s1) < 2 ^ 64"
      "translate mode_Sv48 s1 pt1 (?v + 8 * of_nat i) = Some (Some (args_at b + 8 * of_nat i, Kilopage, STACK_FLAGS))" if "i < 5" for i
    using cells [OF that] a(7,8) by simp_all
  have "mem s1 (he_sscratch e + 8 * of_nat i) = mem s (he_sscratch e + 8 * of_nat i)" if "i < 6" for i using a(9) [OF ctx(2) [OF that]] by simp
  then have cur: "current (he_sscratch e) s1 = Some c" using current_cong [of s1 "he_sscratch e" s] ctx(1) by simp
  define args where "args = [he_satp e, ?v, he_hart_id e, fst (ctx_fdt c), snd (ctx_fdt c)]"
  have "block_bytes 8 b \<inter> (free_bytes fl1 \<union> table_bytes mode_Sv48 s1 pt1) = {}" using a(5,6) by blast
  from store_words_ok [OF a(2) this, of args "args_at b" ?v Kilopage] cells obtain s2 where
    s2: "store_words pt1 ?v args s1 = Some s2" "paging_inv mode_Sv48 s2 pt1 fl1" "phys_off s2 = phys_off s1"
      "\<forall>w. translate mode_Sv48 s2 pt1 w = translate mode_Sv48 s1 pt1 w"
      "\<forall>i<5. mem s2 (args_at b + 8 * of_nat i + phys_off s1) = args ! i"
      "\<forall>x. (\<forall>i<5. x \<noteq> args_at b + 8 * of_nat i + phys_off s1) \<longrightarrow> mem s2 x = mem s1 x"
    by (auto simp: args_def)
  have "args_words \<lparr>ha_satp = he_satp e, ha_vstack = ?v, ha_boot_hart = he_hart_id e, ha_fdt = ctx_fdt c\<rparr> = args"
    by (simp add: args_words_def args_def)
  then have "start_hart e hart (Some pt, s, w) = Some (Some pt1, s2, started (args_at b))"
    using a(1) cur s2(1) fw [of "args_at b"] by (simp add: start_hart_def args_at_def Let_def)
  moreover have "he_sscratch e + 8 * of_nat i \<noteq> args_at b + 8 * of_nat k + phys_off s1" if "i < 6" "k < 5" for i k
  proof
    assume "he_sscratch e + 8 * of_nat i = args_at b + 8 * of_nat k + phys_off s1"
    then have "he_sscratch e + 8 * of_nat i - phys_off s = args_at b + 8 * of_nat k" using a(8) by simp
    then show False using ctx(2) [OF that(1)] cells(1) [OF that(2)] a(4) by auto
  qed
  then have "current (he_sscratch e) s2 = Some c" using current_cong [of s2 "he_sscratch e" s1] s2(6) cur by simp
  moreover have "let hs' = run (hart_entry gp dst) hs; v = ?v
      in xreg hs' 2 = v \<and> xreg hs' 11 = v \<and> xreg hs' 10 = xreg hs 10 \<and> xreg hs' 5 = he_satp e \<and> csrs hs' Stvec = dst \<and>
         (\<forall>i<5. \<exists>p. translate mode_Sv48 s2 pt1 (v + 8 * of_nat i) = Some (Some (p, Kilopage, STACK_FLAGS)) \<and> hmem hs' p = args ! i)"
    if "hmem hs = (\<lambda>p. mem s2 (p + phys_off s2))" "xreg hs 11 = args_at b" for hs gp dst
    using hart_reads_args [OF that _ _ args_def, of pt1 gp dst] s2(3-5) cells(3) by (simp add: Let_def)
  ultimately show ?thesis
    using s2(2) a(4,5) unfolding Let_def args_def by (intro exI [of _ b] exI [of _ pt1] exI [of _ s2] exI [of _ fl1]) simp
qed

section \<open>Examples\<close>

text \<open>A tree with the harts 0 and 1, booted by hart 0; the firmware accepts every call and its state is the list of calls.\<close>

definition harts_cpus :: dtree where
  "harts_cpus = DTree (str ''cpus'') [] [DTree (str ''cpu@0'') [([0, 0, 0, 0], 0)] [], DTree (str ''cpu@1'') [([0, 0, 0, 1], 0)] []]"

definition harts_root :: dtree where
  "harts_root = DTree [] [] [harts_cpus]"

definition harts_dtb :: device_tree where
  "harts_dtb = mk_dtb harts_root (str ''reg'' @ [0])"

definition demo_env :: "ecall list harts_env" where
  "demo_env = \<lparr>he_style = plain, he_logger = (\<lambda>w x. Some (Ok (), w)), he_installed = False, he_clock = (\<lambda>_. 0), he_fw = (\<lambda>w c. Some (0, 0, w @ [c])),
     he_sscratch = 0x4A0000001000, he_entry = 0x80201000, he_hart_id = 0, he_satp = 0x9000000000090000\<rparr>"

lemma harts_dtb_layout:
  "tokens harts_dtb = Some (enc_tree harts_root @ enc_end)" "string_at harts_dtb 0 = Some (Some (str ''reg''))"
proof -
  have "length (enc_tree harts_root) + length (str ''reg'' @ [0]) < 2 ^ 31"
    by (simp add: harts_root_def harts_cpus_def enc_props_def pad_def str_def)
  note lay = mk_dtb_layout [OF this, folded harts_dtb_def]
  show "tokens harts_dtb = Some (enc_tree harts_root @ enc_end)" by (rule lay(1))
  show "string_at harts_dtb 0 = Some (Some (str ''reg''))"
    unfolding lay(2) by (simp add: slice_from_def next_str_def str_def of_char_def)
qed

theorem boot_all_harts_order_witness:
  "boot_all_harts demo_env harts_dtb (stack_kernel\<lparr>root_table := Some stack_table\<rparr>, []) =
    map_option (\<lambda>(pt, s1, w1). (s1\<lparr>root_table := pt, root_locked := False\<rparr>, w1))
      (start_hart demo_env 1 (Some stack_table, stack_kernel\<lparr>root_table := Some stack_table, root_locked := True\<rparr>, []))"
proof -
  let ?nm = "\<lambda>_. str ''reg''" and ?s = "stack_kernel\<lparr>root_table := Some stack_table\<rparr>"
  have cpus: "cpus_of harts_cpus = dkids harts_cpus" by (simp add: cpus_of_def harts_cpus_def starts_with_def str_def of_char_def)
  have ids: "other_harts ?nm harts_cpus (he_hart_id demo_env) = [1]"
    unfolding other_harts_def cpus
    by (simp add: harts_cpus_def data_of_def named_props_def demo_env_def List.map_filter_def u32_from_be_def exec_defs)
  have "boot_all_harts demo_env harts_dtb (?s, []) =
    map_option (\<lambda>(pt, s1, w1). (s1\<lparr>root_table := pt, root_locked := False\<rparr>, w1))
      (start_all demo_env (other_harts ?nm harts_cpus (he_hart_id demo_env)) (root_table ?s, ?s\<lparr>root_locked := True\<rparr>, []))"
  proof (rule boot_all_harts_order [where R = harts_root and rest = "[]"])
    show "find_in [str ''cpus''] (dkids harts_root) = Some harts_cpus" by (simp add: harts_root_def harts_cpus_def starts_with_def str_def)
    show "tree_ok harts_root" "height harts_root < 255" by (simp_all add: harts_root_def harts_cpus_def str_def of_char_def)
    show "string_at harts_dtb off = Some (Some (str ''reg''))" if "k \<in> set (cpus_of harts_cpus)" "(d, off) \<in> set (dprops k)" for k d off
      using that harts_dtb_layout(2) unfolding cpus by (auto simp: harts_cpus_def)
  qed (use harts_dtb_layout(1) in \<open>simp_all add: stack_kernel_def\<close>)
  then show ?thesis unfolding ids by (simp add: map_option_case split: option.splits bind_splits)
qed

theorem start_hart_correct_witness:
  "\<exists>b pt' s'. start_hart demo_env 1 (Some stack_table, stack_kernel, []) =
      Some (Some pt', s', [\<lparr>a7 = 0x48534D, a6 = Some 0, regs = [Some 1, Some 0x80201000, Some (args_at b), None]\<rparr>]) \<and>
    xreg (run (hart_entry 0 0x80202000) \<lparr>xreg = (\<lambda>_. 0)(11 := args_at b), freg = (\<lambda>_. 0), fcsr = 0, csrs = (\<lambda>_. 0),
      hmem = (\<lambda>p. mem s' (p + phys_off s')), hpc = 0\<rparr>) 2 = 0x4B00001FFFD8"
proof -
  let ?started = "\<lambda>p. [\<lparr>a7 = 0x48534D, a6 = Some 0, regs = [Some 1, Some 0x80201000, Some p, None]\<rparr>]"
  let ?c = "\<lparr>ctx_id = 0, trap_stack = 0, temp_sp = 0, ctx_bsp_id = 0, ctx_fdt = (0, 0)\<rparr>"
  have off: "phys_off stack_kernel = 0x4A0000000000" by (simp add: stack_kernel_def KERNEL_PHYS_MEM_BASE_def HIGHER_HALF_START_def)
  have tb: "table_bytes mode_Sv48 stack_kernel stack_table = {0x90000000..<0x90001000}"
    by (auto simp: pt_bytes_def stack_kernel_def tbl_zero paths_def table_page_def mode_Sv48_def stack_table_def from_raw_parts_def KERNEL_PHYS_MEM_BASE_def HIGHER_HALF_START_def)
  have "\<exists>b pt' s' fl'. start_hart demo_env 1 (Some stack_table, stack_kernel, []) = Some (Some pt', s', ?started (args_at b)) \<and>
    paging_inv mode_Sv48 s' pt' fl' \<and> block_bytes 8 b \<subseteq> free_bytes stack_lists \<and> free_bytes fl' \<inter> block_bytes 8 b = {} \<and>
    current (he_sscratch demo_env) s' = Some ?c \<and>
    (\<forall>hs gp dst. hmem hs = (\<lambda>p. mem s' (p + phys_off s')) \<longrightarrow> xreg hs 11 = args_at b \<longrightarrow>
      (let hs' = run (hart_entry gp dst) hs; v = args_at (stack_start (ucast (1::u32)))
       in xreg hs' 2 = v \<and> xreg hs' 11 = v \<and> xreg hs' 10 = xreg hs 10 \<and> xreg hs' 5 = he_satp demo_env \<and> csrs hs' Stvec = dst \<and>
          (\<forall>i<5. \<exists>p. translate mode_Sv48 s' pt' (v + 8 * of_nat i) = Some (Some (p, Kilopage, STACK_FLAGS)) \<and>
            hmem hs' p = [he_satp demo_env, v, he_hart_id demo_env, fst (ctx_fdt ?c), snd (ctx_fdt ?c)] ! i)))"
  proof (rule start_hart_correct [OF stack_paging, where j = 9])
    show "stack_lists ! 9 \<noteq> []" by (simp add: stack_lists_def)
    show "length (subtables stack_table) + 3 \<le> sub_cap stack_table" by (simp add: stack_table_def from_raw_parts_def)
    show "2 ^ 20 + 4096 * 3 < card (free_bytes stack_lists)" by (simp add: stack_bytes)
    show "current (he_sscratch demo_env) stack_kernel = Some ?c"
      by (simp add: current_def try_current_def read_context_def demo_env_def stack_kernel_def)
    show "unat (he_sscratch demo_env + 8 * of_nat i - phys_off stack_kernel) \<notin> free_bytes stack_lists \<union> table_bytes mode_Sv48 stack_kernel stack_table"
      if "i < 6" for i
    proof -
      have eq: "he_sscratch demo_env + 8 * of_nat i - phys_off stack_kernel = of_nat (0x1000 + 8 * i)" by (simp add: off demo_env_def)
      have "unat (he_sscratch demo_env + 8 * of_nat i - phys_off stack_kernel) = 0x1000 + 8 * i"
        unfolding eq by (rule unat_of_nat_less) (use that in simp)
      then show ?thesis using that unfolding tb stack_bytes by simp
    qed
    show "hsm_start (he_fw demo_env) [] (ucast (1::u32)) (he_entry demo_env) p = Some (Ok (), ?started p)" for p
      by (simp add: hsm_start_def demo_env_def hsm_EXTENSION_ID_def from_sbi_call_def)
  qed (simp_all add: stack_unmapped)
  moreover have "args_at (stack_start (ucast (1::u32))) = 0x4B00001FFFD8"
    by (simp add: args_at_def stack_start_def KERNEL_STACK_BASE_def HIGHER_HALF_START_def KERNEL_STACK_SIZE_def)
  ultimately show ?thesis unfolding Let_def by fastforce
qed

end
