(* ===== verification/Xtask.thy ===== *)
theory Xtask
  imports Fmt
begin

text \<open>
  The build tool (\<open>xtask/src/main.rs\<close>). The parser of the command line (\<open>pico_args\<close>), the environment and the outcome of the commands it starts (\<open>xshell\<close>)
  are the fields of a record that every operation takes; the outcome of a command may depend on what has run before. A run of the tool is the list of its effects.
\<close>

section \<open>Surroundings\<close>

datatype event = Print string | Pushd "string list" | Run "string list" | Exec "string list"

record ('a, 'e) tools =
  contains :: "string list \<Rightarrow> 'a \<Rightarrow> bool \<times> 'a"
  subcommand :: "'a \<Rightarrow> (string option, 'e) result \<times> 'a"
  opt_string :: "string \<Rightarrow> 'a \<Rightarrow> (string option, 'e) result \<times> 'a"
  opt_u32 :: "string \<Rightarrow> 'a \<Rightarrow> (32 word option, 'e) result \<times> 'a"
  env_var :: "string \<Rightarrow> (string, 'e) result"
  shell :: "event list \<Rightarrow> string list \<Rightarrow> (unit, 'e) result"
  exec_error :: "event list \<Rightarrow> string list \<Rightarrow> 'e option"

datatype 'e xtask_error = Tool 'e | Bail string

text \<open>\<open>exec\<close> replaces the process: the tool itself does not return then.\<close>

datatype 'e ending = Returned "(unit, 'e xtask_error) result" | Replaced "string list"

definition cmd_run :: "('a, 'e) tools \<Rightarrow> string list \<Rightarrow> event list \<Rightarrow> (unit, 'e xtask_error) result \<times> event list" where
  "cmd_run E c evs = (case shell E evs c of Ok _ \<Rightarrow> Ok () | Err e \<Rightarrow> Err (Tool e), evs @ [Run c])"

definition HELP :: string where
  "HELP = concat (map (\<lambda>l. l @ [CHR 0x0A])
     [''xtask'',
      ''    The build system and '' @ [CHR 0x27] @ ''Makefile'' @ [CHR 0x27] @ '' for NovOS'',
      '''',
      ''FLAGS:'',
      ''    -h, --help      Print this message.'',
      ''    -d, --debug     Enable QEMU debug messaging.'',
      ''    --no-release    Build the kernel without optimizations.'',
      ''    --cpus          Set the number CPU cores (default: 4).'',
      ''    --ram           Set the amount of RAM in megabytes (default: 512).'',
      ''    --gdb           Start QEMU with GDB server enabled and waiting for a connection.'',
      ''    --spike         Run the kernel using spike instead of QEMU.'',
      '''',
      ''SUBCOMMANDS:'',
      ''    opensbi         Build the OpenSBI firmware using Nix.'',
      ''    build           Build the NovOS kernel without running it.'',
      ''    run             Build and run the NovOS kernel using QEMU.'',
      ''    watch           Use cargo-watch to check the kernel.''])"

section \<open>Building\<close>

definition kernel_path :: "bool \<Rightarrow> string" where
  "kernel_path no_release =
     (if no_release then ''target/riscv64gc-unknown-none-elf/debug/kernel'' else ''target/riscv64gc-unknown-none-elf/release/kernel'')"

definition cargo_build :: "bool \<Rightarrow> string list" where
  "cargo_build no_release = [''cargo'', ''build'', ''-p'', ''kernel''] @ (if no_release then [] else [''--release''])"

definition objcopy :: "string \<Rightarrow> string list" where
  "objcopy path = [''llvm-objcopy'', ''--set-start=0x80200000'', ''-O'', ''binary'', path, path @ ''.bin'']"

definition build :: "('a, 'e) tools \<Rightarrow> bool \<Rightarrow> bool \<Rightarrow> event list \<Rightarrow> (unit, 'e xtask_error) result \<times> event list" where
  "build E no_release spike evs =
     (case cmd_run E (cargo_build no_release) evs of
        (Err e, evs1) \<Rightarrow> (Err e, evs1)
      | (Ok _, evs1) \<Rightarrow> if spike then cmd_run E (objcopy (kernel_path no_release)) evs1 else (Ok (), evs1))"

definition watch :: "('a, 'e) tools \<Rightarrow> event list \<Rightarrow> (unit, 'e xtask_error) result \<times> event list" where
  "watch E evs = cmd_run E [''cargo'', ''watch'', ''-c'', ''-x'', ''clippy -p kernel'', ''-x'', ''doc -p kernel''] evs"

text \<open>Paths: the root is the parent of the directory of the package, and \<open>push\<close> of a relative path puts a separator in between.\<close>

definition root :: "string list \<Rightarrow> string list" where
  "root manifest_dir = butlast manifest_dir"

definition path_push :: "string \<Rightarrow> string \<Rightarrow> string" where
  "path_push p c = (if p = [] \<or> last p = CHR ''/'' then p @ c else p @ ''/'' @ c)"

section \<open>Running\<close>

definition run_options :: "('a, 'e) tools \<Rightarrow> 'a \<Rightarrow> (string \<times> string \<times> string \<times> 'a, 'e xtask_error) result" where
  "run_options E args =
     (case opt_string E ''--ram'' args of
        (Err e, _) \<Rightarrow> Err (Tool e)
      | (Ok ram, args1) \<Rightarrow>
          (case opt_u32 E ''--cpus'' args1 of
             (Err e, _) \<Rightarrow> Err (Tool e)
           | (Ok cpus, args2) \<Rightarrow>
               (case opt_string E ''--machine'' args2 of
                  (Err e, _) \<Rightarrow> Err (Tool e)
                | (Ok machine, args3) \<Rightarrow>
                    Ok (case ram of None \<Rightarrow> ''512'' | Some r \<Rightarrow> r, dec (unat (case cpus of None \<Rightarrow> 4 | Some n \<Rightarrow> n)),
                        case machine of None \<Rightarrow> ''virt'' | Some x \<Rightarrow> x, args3))))"

definition spike_cmd :: "string \<Rightarrow> string \<Rightarrow> string \<Rightarrow> string list \<Rightarrow> string \<Rightarrow> string list" where
  "spike_cmd cpus ram path gdb opensbi = [''spike'', ''-p'' @ cpus, ''-m'' @ ram, ''--kernel='' @ path] @ gdb @ [opensbi]"

definition qemu_cmd :: "string \<Rightarrow> string \<Rightarrow> string \<Rightarrow> string \<Rightarrow> string \<Rightarrow> string list \<Rightarrow> string list \<Rightarrow> string list" where
  "qemu_cmd machine cpus ram opensbi path gdb debug =
     [''qemu-system-riscv64'', ''-machine'', machine, ''-cpu'', ''rv64'', ''-smp'', cpus, ''-m'', ram @ ''M'', ''-nographic'',
      ''-bios'', opensbi, ''-kernel'', path] @ gdb @ debug"

definition run :: "('a, 'e) tools \<Rightarrow> bool \<Rightarrow> bool \<Rightarrow> 'a \<Rightarrow> event list \<Rightarrow> 'e ending \<times> event list" where
  "run E no_release spike args evs =
     (case run_options E args of
        Err e \<Rightarrow> (Returned (Err e), evs)
      | Ok (ram, cpus, machine, args1) \<Rightarrow>
          (case env_var E ''OPENSBI'' of
             Err e \<Rightarrow> (Returned (Err (Tool e)), evs)
           | Ok dir \<Rightarrow>
               (let path = kernel_path no_release;
                    opensbi = path_push (path_push dir ''platform'') ''fw_jump.elf'';
                    path = (if spike then path @ ''.bin'' else path);
                    (has_debug, args2) = contains E [''-d'', ''--debug''] args1;
                    debug = (if has_debug then [''-d'', ''guest_errors,trace:riscv_trap''] else []);
                    (has_gdb, args3) = contains E [''--gdb''] args2;
                    gdb = (if has_gdb then (if spike then [''-d''] else [''-gdb'', ''tcp::1234'', ''-S'']) else [])
                in if spike then
                     (let c = spike_cmd cpus ram path gdb opensbi in
                      (case exec_error E evs c of
                         None \<Rightarrow> (Replaced c, evs @ [Exec c])
                       | Some e \<Rightarrow> (Returned (Err (Tool e)), evs @ [Exec c])))
                   else
                     (case cmd_run E (qemu_cmd machine cpus ram opensbi path gdb debug) evs of
                        (r, evs1) \<Rightarrow> (Returned r, evs1)))))"

definition xtask_main :: "('a, 'e) tools \<Rightarrow> string list \<Rightarrow> 'a \<Rightarrow> 'e ending \<times> event list" where
  "xtask_main E manifest_dir args =
     (let (help, args) = contains E [''-h'', ''--help''] args in
      if help then (Returned (Ok ()), [Print HELP])
      else let evs = [Pushd (root manifest_dir)] in
        (case subcommand E args of
           (Err e, _) \<Rightarrow> (Returned (Err (Tool e)), evs)
         | (Ok None, _) \<Rightarrow> (Returned (Err (Bail ''You must supply a subcommand.'')), evs)
         | (Ok (Some cmd), args) \<Rightarrow>
             if cmd = ''opensbi'' then apfst Returned (cmd_run E [''nix-build'', ''nix/opensbi.nix''] evs)
             else if cmd = ''watch'' then apfst Returned (watch E evs)
             else if cmd = ''build'' then
               (let (no_release, args) = contains E [''--no-release''] args; (spike, args) = contains E [''--spike''] args
                in apfst Returned (build E no_release spike evs))
             else if cmd = ''run'' then
               (let (spike, args) = contains E [''--spike''] args; (no_release, args) = contains E [''--no-release''] args
                in (case build E no_release spike evs of
                      (Err e, evs1) \<Rightarrow> (Returned (Err e), evs1)
                    | (Ok _, evs1) \<Rightarrow> run E no_release spike args evs1))
             else (Returned (Err (Bail (''Unknown subcommand: '' @ [CHR 0x27] @ cmd @ [CHR 0x27]))), evs)))"

section \<open>What is booted\<close>

text \<open>The file that a build command writes: the profile decides it for \<open>cargo build\<close>, and \<open>objcopy\<close> writes its last argument.\<close>

definition output_of :: "event \<Rightarrow> string option" where
  "output_of ev = (case ev of
     Run (p # c) \<Rightarrow>
       if p = ''cargo'' then Some (''target/riscv64gc-unknown-none-elf/'' @ (if ''--release'' \<in> set c then ''release'' else ''debug'') @ ''/kernel'')
       else if p = ''llvm-objcopy'' then Some (last c) else None
   | _ \<Rightarrow> None)"

text \<open>The kernel an emulator is given: the options of QEMU have one value each, but for \<open>-nographic\<close>.\<close>

fun qemu_kernel :: "string list \<Rightarrow> string option" where
  "qemu_kernel (x # xs) =
     (if x = ''-nographic'' then qemu_kernel xs
      else if x = ''-kernel'' then (case xs of p # _ \<Rightarrow> Some p | [] \<Rightarrow> None)
      else (case xs of _ # ys \<Rightarrow> qemu_kernel ys | [] \<Rightarrow> None))"
| "qemu_kernel [] = None"

definition boots :: "event \<Rightarrow> string option" where
  "boots ev = (case ev of
     Run (p # c) \<Rightarrow> if p = ''qemu-system-riscv64'' then qemu_kernel c else None
   | Exec (p # c) \<Rightarrow> map_option (drop 9) (find (\<lambda>a. take 9 a = ''--kernel='') c)
   | _ \<Rightarrow> None)"

lemma boots_qemu: "boots (Run (qemu_cmd machine cpus ram opensbi path gdb debug)) = Some path"
  by (simp add: boots_def qemu_cmd_def)

lemma boots_spike: "boots (Exec (spike_cmd cpus ram path gdb opensbi)) = Some path"
  by (simp add: boots_def spike_cmd_def)

definition build_cmds :: "bool \<Rightarrow> bool \<Rightarrow> string list list" where
  "build_cmds no_release spike = cargo_build no_release # (if spike then [objcopy (kernel_path no_release)] else [])"

lemma not_boots: "boots (Run (cargo_build b)) = None" "boots (Run (objcopy p)) = None" "boots (Pushd d) = None" "boots (Print t) = None"
  "boots (Run (''nix-build'' # c)) = None" "boots (Run (''cargo'' # c)) = None"
  by (simp_all add: boots_def cargo_build_def objcopy_def)

lemma output_cargo: "output_of (Run (cargo_build b)) = Some (kernel_path b)"
  by (simp add: output_of_def cargo_build_def kernel_path_def)

lemma output_objcopy: "output_of (Run (objcopy p)) = Some (p @ ''.bin'')"
  by (simp add: output_of_def objcopy_def)

text \<open>A build that succeeds has run all its commands; one that fails has started no emulator either.\<close>

lemma build_ok:
  assumes "build E no_release spike evs = (Ok u, evs')"
  shows "evs' = evs @ map Run (build_cmds no_release spike)" "shell E evs (cargo_build no_release) = Ok ()"
    "spike \<Longrightarrow> shell E (evs @ [Run (cargo_build no_release)]) (objcopy (kernel_path no_release)) = Ok ()"
  using assms by (auto simp: build_def build_cmds_def cmd_run_def split: result.splits if_splits)

lemma build_boots:
  assumes "build E no_release spike evs = (r, evs')" "ev \<in> set evs'" "ev \<notin> set evs"
  shows "boots ev = None"
  using assms by (auto simp: build_def cmd_run_def not_boots split: result.splits if_splits)

lemma run_events:
  assumes "run E no_release spike args evs = (fin, evs')"
  shows "evs' = evs \<or> (\<exists>ev. evs' = evs @ [ev] \<and> boots ev = output_of (Run (last (build_cmds no_release spike))))"
  using assms
  by (auto simp: run_def Let_def build_cmds_def cmd_run_def boots_qemu boots_spike output_cargo output_objcopy split: result.splits prod.splits option.splits if_splits)

text \<open>C40: An emulator is started only by \<open>run\<close> and as the last command, after every command of the build has succeeded, and it boots the file that the last of them
  wrote: the kernel of the profile that was built, or for Spike the binary made from it. A failed build, another subcommand or an error in the arguments starts no emulator.\<close>

theorem xtask_boots_build:
  assumes "xtask_main E manifest_dir args = (fin, evs)" "ev \<in> set evs" "boots ev = Some p"
  shows "\<exists>no_release spike. evs = Pushd (root manifest_dir) # map Run (build_cmds no_release spike) @ [ev] \<and>
    (\<forall>i<length evs - 1. \<forall>c. evs ! i = Run c \<longrightarrow> shell E (take i evs) c = Ok ()) \<and>
    output_of (evs ! (length evs - 2)) = Some p"
proof -
  have ne: "ev \<noteq> Pushd (root manifest_dir)" using assms(3) not_boots(3) by auto
  obtain no_release spike args' evs1 where b: "build E no_release spike [Pushd (root manifest_dir)] = (Ok (), evs1)" "run E no_release spike args' evs1 = (fin, evs)"
    using assms ne build_boots [of E _ _ "[Pushd (root manifest_dir)]" _ evs ev]
    by (auto simp: xtask_main_def Let_def apfst_def map_prod_def watch_def cmd_run_def not_boots split: prod.splits result.splits option.splits if_splits)
  note ok = build_ok [OF b(1)]
  have "boots x = None" if "x \<in> set evs1" for x using build_boots [OF b(1) that] not_boots(3) by (cases "x = Pushd (root manifest_dir)") auto
  then have "ev \<notin> set evs1" using assms(3) by auto
  then have e: "evs = evs1 @ [ev]" "boots ev = output_of (Run (last (build_cmds no_release spike)))" using run_events [OF b(2)] assms(2) by auto
  have evs: "evs = Pushd (root manifest_dir) # map Run (build_cmds no_release spike) @ [ev]" using e(1) ok(1) by simp
  have "shell E (take i evs) c = Ok ()" if "i < length evs - 1" "evs ! i = Run c" for i c
    using that ok(2,3) unfolding evs by (cases spike; cases i; cases "i - 1") (auto simp: build_cmds_def)
  moreover have "output_of (evs ! (length evs - 2)) = Some p" using e(2) assms(3) unfolding evs by (cases spike) (auto simp: build_cmds_def)
  ultimately show ?thesis using evs by blast
qed

text \<open>An example: the arguments as a list of words, every command succeeds.\<close>

definition word_tools :: "(string list, unit) tools" where
  "word_tools = \<lparr>contains = (\<lambda>ks ws. (\<exists>w \<in> set ws. w \<in> set ks, filter (\<lambda>w. w \<notin> set ks) ws)),
     subcommand = (\<lambda>ws. case ws of w # ws' \<Rightarrow> (Ok (Some w), ws') | [] \<Rightarrow> (Ok None, [])),
     opt_string = (\<lambda>k ws. (Ok None, ws)), opt_u32 = (\<lambda>k ws. (Ok None, ws)), env_var = (\<lambda>_. Ok ''/opensbi''),
     shell = (\<lambda>_ _. Ok ()), exec_error = (\<lambda>_ _. None)\<rparr>"

theorem xtask_boots_build_witness:
  "\<exists>no_release spike ev. snd (xtask_main word_tools [''novos'', ''xtask''] [''run'', ''--gdb'']) = Pushd [''novos''] # map Run (build_cmds no_release spike) @ [ev] \<and>
     boots ev = Some ''target/riscv64gc-unknown-none-elf/release/kernel''"
proof -
  let ?r = "xtask_main word_tools [''novos'', ''xtask''] [''run'', ''--gdb'']"
  let ?c = "[''qemu-system-riscv64'', ''-machine'', ''virt'', ''-cpu'', ''rv64'', ''-smp'', ''4'', ''-m'', ''512M'', ''-nographic'', ''-bios'', ''/opensbi/platform/fw_jump.elf'',
    ''-kernel'', ''target/riscv64gc-unknown-none-elf/release/kernel'', ''-gdb'', ''tcp::1234'', ''-S'']"
  have r: "?r = (Returned (Ok ()), [Pushd [''novos''], Run [''cargo'', ''build'', ''-p'', ''kernel'', ''--release''], Run ?c])"
    by (simp add: xtask_main_def word_tools_def root_def build_def cmd_run_def run_def run_options_def cargo_build_def kernel_path_def qemu_cmd_def path_push_def dec.simps digit_char_def)
  have "boots (Run ?c) = Some ''target/riscv64gc-unknown-none-elf/release/kernel''" by (simp add: boots_def)
  moreover have "root [''novos'', ''xtask''] = [''novos'']" by (simp add: root_def)
  ultimately show ?thesis using xtask_boots_build [OF r] unfolding r snd_conv by fastforce
qed

end
