(* ===== verification/Spec2Isabelle.thy ===== *)
theory Spec2Isabelle
  imports RangeSet_Shape Buddy_Region Buddy_Client Page_Debug Page_Alloc Page_Drop Page_Refine Pmem_Init Mutex RwLock Trap_Correct Satp Console Plic Boot_Reloc Boot_Harts Xtask
begin

text \<open>
  \<^bold>\<open>NovOS: a verification development.\<close> NovOS is a small RISC-V kernel. The firmware starts it with a hart id and a flattened device tree;
  \<open>_boot\<close> relocates the image, \<open>_before_main\<close> builds the physical memory allocator from the tree, maps physical memory and the image into the
  higher half of an Sv48 address space and jumps there, \<open>rust_trampoline\<close> gives the hart its context, trap handler and local storage, and \<open>main\<close>
  reports on the log and shuts down.
  This library models that path and everything below it, from the source, and proves what makes each part correct.

  \<^bold>\<open>Conventions\<close> (\<open>Prelude\<close>). Machine integers are words of the source's width. A function that can panic or not return is a
  function into \<open>option\<close>: \<open>None\<close> is a panic or divergence, \<open>Some\<close> a normal return; Rust's \<open>Result\<close> is the datatype \<open>result\<close>. The release
  profile turns overflow checks on, so arithmetic is checked (\<open>add_chk\<close> and its relatives). State is passed explicitly: \<open>machine\<close> is
  memory and the offset of the physical window, \<open>pmem\<close> adds the allocator, \<open>kernel\<close> adds the global page table, its lock and the flushed
  addresses. Memory is one 64-bit cell per 8-aligned address; the free lists and the page tables live in it as the code keeps them.
  Code outside the repository (firmware, chips, the escape sequences of \<open>owo_colors\<close>, \<open>voladdress\<close>, linker symbols, compiled code called from assembly,
  the parser of arguments and the shell of the build tool) is a parameter, with the documented behaviour that a theorem relies on among its hypotheses.

  \<^bold>\<open>Memory management.\<close> \<open>Allocator\<close>, \<open>Memmap\<close>: \<open>allocator.rs\<close>, the constants of \<open>unit.rs\<close>, \<open>memmap.rs\<close>. \<open>RangeSet\<close>:
  \<open>allocator/rangeset.rs\<close>, the array of inclusive ranges with its stale slots; the locale \<open>address_set\<close> and its extension \<open>address_set_removal\<close> are
  what \<open>pmem::init\<close> relies on, interpreted on the operations. \<open>RangeSet_Shape\<close> shows that no sequence of operations leaves the array. \<open>Buddy\<close> is \<open>allocator/buddy.rs\<close> with the lists threaded through free memory;
  \<open>Buddy_Lists\<close> and \<open>Buddy_Inv\<close> give the invariant \<open>buddy_inv\<close> (which lists the memory represents, alignment, disjointness, statistics),
  \<open>Buddy_Correct\<close> the effect of \<open>allocate\<close> and \<open>deallocate\<close> on every branch, \<open>Buddy_Region\<close> that of \<open>add_region\<close>, and \<open>Buddy_Client\<close> the
  contract a client sees (a locale, interpreted on the model): blocks handed out are disjoint and nothing is lost. \<open>Pmem\<close>, \<open>Pmem_Correct\<close> and
  \<open>Pmem_Init\<close> are \<open>pmem.rs\<close>: the allocation functions, the \<open>Allocator\<close> instance and \<open>init\<close>, from the bytes of the device tree to the free memory.

  \<^bold>\<open>Paging.\<close> \<open>Page_Types\<close>, \<open>Page_Walk\<close> and \<open>Page_Table\<close> are \<open>page.rs\<close>, \<open>page/types.rs\<close> and \<open>page/modes.rs\<close>; \<open>Page_Tree\<close> views the tables in
  memory as a tree, \<open>Page_Correct\<close> has the invariant \<open>paging_inv\<close> that ties it to the allocator, and \<open>Page_Map\<close> shows what \<open>map\<close> and \<open>unmap\<close> do
  to every translation and which memory they write. \<open>Page_Refine\<close> shows that sequences of operations on the tables refine operations on a
  function from addresses to translations: the locale \<open>budget_refinement\<close> of \<open>Transition\<close>, interpreted on the page table, with three entries of the vector of
  subtables and three pages of memory as the budget of a \<open>map\<close>. \<open>Page_Frame\<close> says what
  other writers of memory must leave alone, \<open>Page_Alloc\<close> covers \<open>map_alloc\<close> and \<open>free\<close>, \<open>Page_Drop\<close> the drop of a table, and \<open>Page_Debug\<close> the printer of a table, which lists
  exactly its translations. \<open>Satp\<close> is \<open>csr/satp.rs\<close>.

  \<^bold>\<open>Device tree.\<close> \<open>Fdt_Parse\<close>, \<open>Fdt_Tree\<close> and \<open>Fdt_Node\<close> are \<open>parse.rs\<close>, \<open>lib.rs\<close> and \<open>node.rs\<close> of the \<open>devicetree\<close> crate on byte lists, with
  every slice that can panic. \<open>Fdt_Encode\<close> is a reference encoder of trees; \<open>Fdt_Correct\<close> and \<open>Fdt_Memory\<close> show that searching, iterating and
  decoding the encoding agree with the tree, \<open>Fdt_Find\<close> that \<open>find_nodes\<close> yields the matching children, and \<open>Fdt_Copy\<close> that the copy \<open>_before_main\<close> makes
  of the tree reads back as the tree.

  \<^bold>\<open>Concurrency.\<close> \<open>Mutex\<close> and \<open>RwLock\<close> are \<open>riscv/src/sync.rs\<close> as step relations of N threads, each step one atomic access.
  \<open>Transition\<close> has the locale \<open>simulation\<close>; the interpretations show that the ticket lock implements a FIFO queue and the other lock
  a set of readers with an optional writer. Exclusion, bounded waiting and progress follow. The bounds on N (2^64 and 2^62 threads) keep the
  counters from wrapping into each other.

  \<^bold>\<open>Traps and harts.\<close> \<open>Trap_Cause\<close> is \<open>riscv/src/trap.rs\<close> and the Rust handler; \<open>Trap_Asm\<close> is the assembly of \<open>kernel/src/trap.rs\<close>, instruction
  by instruction on a model of the hart, with the frame structures and the register accessors; \<open>Trap_Correct\<close> shows that an interrupt is
  invisible to the interrupted code. \<open>Hart\<close> is \<open>hart.rs\<close>.

  \<^bold>\<open>Boot.\<close> \<open>Boot\<close> is \<open>boot.rs\<close>, \<open>boot/reloc.rs\<close>, \<open>symbols.rs\<close> and the entry of \<open>boot/harts.rs\<close>; \<open>Boot_Reloc\<close> shows the relocation and
  the entry point, \<open>Boot_Map\<close> the mapping of sections and the deadlock that the boot mappings run into, \<open>Boot_Stack\<close> the allocation of a
  kernel stack. \<open>Boot_Harts\<close> is \<open>boot/harts.rs\<close>: which harts are started, and that a started hart finds its stack and its arguments. \<open>Kernel_Main\<close> is
  \<open>main.rs\<close> and \<open>Panic\<close> is \<open>panic.rs\<close>: what is reported, and that a panic always is on the boot hart.

  \<^bold>\<open>Firmware, log and drivers.\<close> \<open>Sbi\<close> is the \<open>sbi\<close> crate, \<open>Fmt\<close> the formatting of numbers, \<open>Byte_Unit\<close> the printed forms of
  \<open>unit.rs\<close> and \<open>allocator.rs\<close> with the rounding of \<open>f32\<close>, \<open>Log\<close> the \<open>log\<close> crate, \<open>Uart\<close> and \<open>Plic\<close> the two drivers. \<open>Console\<close> composes them: a log message
  arrives, line by line, on the console of the firmware and on the serial port.

  \<^bold>\<open>Build tool.\<close> \<open>Xtask\<close> is \<open>xtask/src/main.rs\<close>, a run of the tool being the list of its effects: an emulator boots what a successful build wrote.

  \<^bold>\<open>Loops.\<close> Loops over data recurse on it or on a measure. The wait loops of the serial port, the relocation loop and the loop that clears
  \<open>bss\<close> may run forever and are partial functions; their theorems state that they return. There is no fuel.

  \<^bold>\<open>Not modelled.\<close> The weak memory orderings of the locks: every atomic access is one step of one total order. The TLB beyond the list of flushed
  addresses. The trait declarations of \<open>drivers.rs\<close>, the cell of \<open>static_cell.rs\<close> and the wrappers of single instructions in \<open>asm.rs\<close> other than
  \<open>sfence\<close> and \<open>time\<close>, which have no logic of their own. \<open>main\<close> prints through the same logger as every other part, but the interleaving of the
  output of several harts is that of the lock of the logger and not modelled. Texts are ASCII.
\<close>

end
